(* ===== verification/Prelude.thy ===== *)
theory Prelude
  imports Main "HOL-Library.AList" "HOL-Library.Sublist" "HOL-Library.Char_ord"
    "HOL-Library.List_Lexorder" "HOL-Library.Multiset"
begin

text \<open>
  Shared vocabulary of the development: the part of the JavaScript runtime the control plane
  leans on (insertion-ordered maps and records, string helpers), the result type of a
  stateful operation that may throw, and the generic lemmas the component theories share.

  \<^item> A \<open>Map\<close> or a \<open>Record<string, T>\<close> is an association list in insertion order.
    \<open>AList.update\<close> replaces the value of a present key in place and appends a new key at the
    end, as \<open>Map.prototype.set\<close> and a property assignment do; \<open>AList.delete\<close> is \<open>delete\<close>.
    Keys are taken to be own properties: the ids in use are UUIDs, random tokens or digests.
  \<^item> A string is a list of code units up to 255 (Latin-1); ASCII identifiers, tokens,
    addresses and headers are what the modelled code compares.
  \<^item> \<open>Date.now()\<close> and random values are arguments of the operation that reads them.
    One synchronous stretch of code reads the clock once.
  \<^item> A throwing, state-changing operation returns \<open>('e + 'a) \<times> 's\<close>: what was written before
    the throw stays written.
\<close>

named_theorems inv_intros \<open>per-operation preservation lemmas of the store invariants\<close>
named_theorems js_simps \<open>unfolding rules for the JavaScript helpers\<close>

type_synonym ms = int           \<comment> \<open>milliseconds since the epoch\<close>
type_synonym uid = string
type_synonym permission = string
type_synonym ('k, 'v) jsmap = "('k \<times> 'v) list"
type_synonym ('e, 'a, 's) result = "('e + 'a) \<times> 's"

subsection \<open>Maps and records in insertion order\<close>

abbreviation put :: "'k \<Rightarrow> 'v \<Rightarrow> ('k, 'v) jsmap \<Rightarrow> ('k, 'v) jsmap" where
  "put \<equiv> AList.update"

abbreviation del :: "'k \<Rightarrow> ('k, 'v) jsmap \<Rightarrow> ('k, 'v) jsmap" where
  "del \<equiv> AList.delete"

abbreviation look :: "('k, 'v) jsmap \<Rightarrow> 'k \<Rightarrow> 'v option" where
  "look \<equiv> map_of"

abbreviation vals :: "('k, 'v) jsmap \<Rightarrow> 'v list" where
  "vals m \<equiv> map snd m"

abbreviation keys :: "('k, 'v) jsmap \<Rightarrow> 'k list" where
  "keys m \<equiv> map fst m"

abbreviation unique_keys :: "('k, 'v) jsmap \<Rightarrow> bool" where
  "unique_keys m \<equiv> distinct (map fst m)"

text \<open>Deleting every entry that a predicate on the record selects: the pruning loops.\<close>

definition drop_where :: "('v \<Rightarrow> bool) \<Rightarrow> ('k, 'v) jsmap \<Rightarrow> ('k, 'v) jsmap" where
  "drop_where p m = filter (\<lambda>(k, v). \<not> p v) m"

lemma look_put [simp]: "look (put k v m) k' = (if k' = k then Some v else look m k')"
  by (simp add: update_conv')

lemma look_del [simp]: "look (del k m) k' = (if k' = k then None else look m k')"
  by (simp add: delete_conv')

lemma unique_keys_put [simp]: "unique_keys m \<Longrightarrow> unique_keys (put k v m)"
  by (rule distinct_update)

lemma unique_keys_del [simp]: "unique_keys m \<Longrightarrow> unique_keys (del k m)"
  by (rule distinct_delete)

lemma set_del: "set (del k m) = {(k', v) \<in> set m. k' \<noteq> k}"
  by (induction m) auto

lemma set_put: "unique_keys m \<Longrightarrow> set (put k v m) = insert (k, v) {(k', w) \<in> set m. k' \<noteq> k}"
  by (induction m) (auto simp: image_iff)

lemma keys_del: "fst ` set (del k m) = fst ` set m - {k}"
  by (induction m) auto

lemma keys_put: "fst ` set (put k v m) = insert k (fst ` set m)"
  by (induction m) auto

lemma put_fresh: "look m k = None \<Longrightarrow> put k v m = m @ [(k, v)]"
  by (induction m) (auto split: if_splits)

lemma in_set_look: "unique_keys m \<Longrightarrow> (k, v) \<in> set m \<longleftrightarrow> look m k = Some v"
  by (simp add: map_of_eq_Some_iff)

lemma set_drop_where [simp]: "set (drop_where p m) = {(k, v) \<in> set m. \<not> p v}"
  by (auto simp: drop_where_def)

lemma unique_keys_filter: "unique_keys m \<Longrightarrow> unique_keys (filter p m)"
  by (induction m) auto

lemma unique_keys_drop_where [simp]: "unique_keys m \<Longrightarrow> unique_keys (drop_where p m)"
  by (simp add: drop_where_def unique_keys_filter)

lemma look_drop_where:
  assumes "unique_keys m"
  shows "look (drop_where p m) k =
    (case look m k of None \<Rightarrow> None | Some v \<Rightarrow> if p v then None else Some v)"
proof -
  have u: "unique_keys (drop_where p m)" using assms by simp
  have eq: "look (drop_where p m) k = Some v \<longleftrightarrow> look m k = Some v \<and> \<not> p v" for v
    using u assms by simp
  show ?thesis
  proof (cases "look m k")
    case None
    with eq show ?thesis by (metis not_None_eq option.simps(4))
  next
    case (Some w)
    then show ?thesis using eq [of w] eq by (cases "p w") (auto simp: not_Some_eq [symmetric])
  qed
qed

lemma look_drop_where_Some:
  "unique_keys m \<Longrightarrow> look (drop_where p m) k = Some v \<longleftrightarrow> look m k = Some v \<and> \<not> p v"
  using unique_keys_drop_where [of m p] by simp

lemma drop_where_none: "\<not> list_ex p (vals m) \<Longrightarrow> drop_where p m = m"
  by (force simp: drop_where_def filter_id_conv list_ex_iff)

lemma vals_put_subset: "set (vals (put k v m)) \<subseteq> insert v (set (vals m))"
  by (induction m) auto

lemma vals_del_subset: "set (vals (del k m)) \<subseteq> set (vals m)"
  by (auto simp: set_del)

lemma look_split_ex: "look m k = Some v \<Longrightarrow> \<exists>xs ys. m = xs @ (k, v) # ys \<and> k \<notin> set (keys xs)"
proof (induction m)
  case (Cons a m)
  show ?case
  proof (cases "fst a = k")
    case True
    with Cons.prems have "a # m = [] @ (k, v) # m" by (cases a) auto
    then show ?thesis by fastforce
  next
    case False
    with Cons obtain xs ys where "m = xs @ (k, v) # ys" "k \<notin> set (keys xs)"
      by (cases a) auto
    with False have "a # m = (a # xs) @ (k, v) # ys \<and> k \<notin> set (keys (a # xs))" by auto
    then show ?thesis by blast
  qed
qed simp

lemma look_split:
  assumes "look m k = Some v"
  obtains xs ys where "m = xs @ (k, v) # ys" "k \<notin> set (keys xs)"
  using look_split_ex [OF assms] by blast

lemma put_split: "k \<notin> set (keys xs) \<Longrightarrow> put k w (xs @ (k, v) # ys) = xs @ (k, w) # ys"
  by (induction xs) auto

lemma del_split:
  "k \<notin> set (keys xs) \<Longrightarrow> k \<notin> set (keys ys) \<Longrightarrow> del k (xs @ (k, v) # ys) = xs @ ys"
  by (induction xs) (auto simp: delete_id)

text \<open>
  Replacing the record of a present key changes a projection of the values at that place only.
\<close>

lemma map_vals_put_same:
  assumes "look m k = Some v" "f w = f v"
  shows "map f (vals (put k w m)) = map f (vals m)"
proof -
  from assms(1) obtain xs ys where "m = xs @ (k, v) # ys" "k \<notin> set (keys xs)"
    by (rule look_split)
  with assms(2) show ?thesis by (simp add: put_split)
qed

subsection \<open>Appending without duplicates\<close>

text \<open>\<open>if (!out.includes(x)) out.push(x)\<close> over a list, keeping first occurrences in order.\<close>

fun push_new :: "'a list \<Rightarrow> 'a list \<Rightarrow> 'a list" where
  "push_new out [] = out"
| "push_new out (x # xs) = push_new (if x \<in> set out then out else out @ [x]) xs"

lemma set_push_new [simp]: "set (push_new out xs) = set out \<union> set xs"
  by (induction xs arbitrary: out) auto

lemma distinct_push_new [simp]: "distinct out \<Longrightarrow> distinct (push_new out xs)"
  by (induction xs arbitrary: out) auto

lemma push_new_prefix: "prefix out (push_new out xs)"
proof (induction xs arbitrary: out)
  case (Cons x xs)
  from Cons.IH [of "out @ [x]"] Cons.IH [of out] show ?case
    by (auto intro: append_prefixD)
qed simp

text \<open>Comparing the sets of two closed lists by evaluation.\<close>

lemma list_all_set_eq:
  "list_all (\<lambda>x. x \<in> set ys) xs \<Longrightarrow> list_all (\<lambda>y. y \<in> set xs) ys \<Longrightarrow> set ys = set xs"
  unfolding list_all_iff by blast

lemma distinct_subset_set_eq:
  assumes "distinct xs" "set xs \<subseteq> set ys" "length ys = length xs"
  shows "set xs = set ys"
proof (rule card_seteq [OF _ assms(2)])
  show "card (set ys) \<le> card (set xs)"
    using card_length [of ys] assms by (simp add: distinct_card)
qed simp

lemma list_all_psubset:
  "list_all (\<lambda>x. x \<in> set ys) xs \<Longrightarrow> \<not> list_all (\<lambda>y. y \<in> set xs) ys \<Longrightarrow> set xs \<subset> set ys"
  unfolding list_all_iff by blast

subsection \<open>Strings\<close>

definition js_ws :: "char \<Rightarrow> bool" where
  "js_ws c \<longleftrightarrow> c \<in> {CHR 0x09, CHR 0x0A, CHR 0x0B, CHR 0x0C, CHR 0x0D, CHR 0x20, CHR 0xA0}"

definition js_trim :: "string \<Rightarrow> string" where
  "js_trim s = rev (dropWhile js_ws (rev (dropWhile js_ws s)))"

definition js_lower_char :: "char \<Rightarrow> char" where
  "js_lower_char c =
     (let n = of_char c :: nat
      in if (65 \<le> n \<and> n \<le> 90) \<or> (192 \<le> n \<and> n \<le> 222 \<and> n \<noteq> 215) then char_of (n + 32) else c)"

definition js_lower :: "string \<Rightarrow> string" where
  "js_lower s = map js_lower_char s"

text \<open>
  \<open>toUpperCase\<close>: within Latin-1 the sharp s becomes two letters; the micro sign and the y with
  diaeresis leave Latin-1 and are kept as they are (the one caller drops them either way).
\<close>

definition js_upper_char :: "char \<Rightarrow> string" where
  "js_upper_char c =
     (let n = of_char c :: nat
      in if n = 223 then ''SS''
         else if (97 \<le> n \<and> n \<le> 122) \<or> (224 \<le> n \<and> n \<le> 254 \<and> n \<noteq> 247) then [char_of (n - 32)]
         else [c])"

definition js_upper :: "string \<Rightarrow> string" where
  "js_upper s = concat (map js_upper_char s)"

definition is_digit :: "char \<Rightarrow> bool" where
  "is_digit c \<longleftrightarrow> 48 \<le> (of_char c :: nat) \<and> (of_char c :: nat) \<le> 57"

definition is_lower_alpha :: "char \<Rightarrow> bool" where
  "is_lower_alpha c \<longleftrightarrow> 97 \<le> (of_char c :: nat) \<and> (of_char c :: nat) \<le> 122"

definition is_alpha :: "char \<Rightarrow> bool" where
  "is_alpha c \<longleftrightarrow> is_lower_alpha c \<or> (65 \<le> (of_char c :: nat) \<and> (of_char c :: nat) \<le> 90)"

fun split_on :: "char \<Rightarrow> string \<Rightarrow> string list" where
  "split_on c [] = [[]]"
| "split_on c (x # xs) =
     (if x = c then [] # split_on c xs
      else case split_on c xs of [] \<Rightarrow> [[x]] | y # ys \<Rightarrow> (x # y) # ys)"

fun join :: "string \<Rightarrow> string list \<Rightarrow> string" where
  "join sep [] = []"
| "join sep [x] = x"
| "join sep (x # y # zs) = x @ sep @ join sep (y # zs)"

text \<open>\<open>split(/\s+/).filter(Boolean)\<close>: the maximal runs without white space.\<close>

fun words_acc :: "string \<Rightarrow> string \<Rightarrow> string list" where
  "words_acc acc [] = (if acc = [] then [] else [acc])"
| "words_acc acc (c # cs) =
     (if js_ws c then (if acc = [] then words_acc [] cs else acc # words_acc [] cs)
      else words_acc (acc @ [c]) cs)"

definition js_words :: "string \<Rightarrow> string list" where
  "js_words s = words_acc [] s"

text \<open>\<open>indexOf(c)\<close> of a one-character needle; \<open>None\<close> is -1.\<close>

fun index_of :: "char \<Rightarrow> string \<Rightarrow> nat option" where
  "index_of c [] = None"
| "index_of c (x # xs) = (if x = c then Some 0 else map_option Suc (index_of c xs))"

lemma split_on_not_Nil [simp]: "split_on c s \<noteq> []"
  by (cases s) (auto split: list.splits)

lemma join_split_on: "join [c] (split_on c s) = s"
proof (induction s)
  case (Cons x xs)
  then show ?case
    by (cases "split_on c xs"; cases "tl (split_on c xs)") auto
qed simp

lemma split_on_no_sep: "w \<in> set (split_on c s) \<Longrightarrow> c \<notin> set w"
proof (induction s arbitrary: w)
  case (Cons x xs)
  then show ?case
    by (cases "split_on c xs") (auto split: if_splits)
qed simp

lemma split_on_subset: "w \<in> set (split_on c s) \<Longrightarrow> set w \<subseteq> set s"
proof (induction s arbitrary: w)
  case (Cons x xs)
  then show ?case by (cases "split_on c xs") (fastforce split: if_splits)+
qed simp

lemma in_split_on: "x \<in> set s \<Longrightarrow> x = c \<or> (\<exists>w \<in> set (split_on c s). x \<in> set w)"
proof (induction s)
  case (Cons y ys)
  then show ?case by (cases "split_on c ys") (auto split: if_splits)
qed simp

lemma split_on_free: "c \<notin> set s \<Longrightarrow> split_on c s = [s]"
  by (induction s) auto

lemma split_on_append_sep: "split_on c (s @ c # t) = split_on c s @ split_on c t"
  by (induction s) (auto split: list.splits)

lemma split_on_join:
  "xs \<noteq> [] \<Longrightarrow> \<forall>w \<in> set xs. c \<notin> set w \<Longrightarrow> split_on c (join [c] xs) = xs"
  by (induction "[c]" xs rule: join.induct) (auto simp: split_on_free split_on_append_sep)

lemma dropWhile_idem: "dropWhile p (dropWhile p s) = dropWhile p s"
  by (induction s) auto

lemma js_trim_Nil [simp]: "js_trim [] = []"
  by (simp add: js_trim_def)

lemma js_trim_set: "set (js_trim s) \<subseteq> set s"
  by (auto simp: js_trim_def dest!: set_dropWhileD)

subsection \<open>File-backed stores\<close>

text \<open>
  Every store keeps its data in memory and writes the whole of it to one JSON file after a
  change. The interface is what is in memory, what a restart would read back, and the store's
  operations; its promise is that no operation leaves the two apart.
\<close>

locale persisted_store =
  fixes mem :: "'s \<Rightarrow> 'm" and disk :: "'s \<Rightarrow> 'm" and oper :: "'s \<Rightarrow> 's \<Rightarrow> bool"
  assumes oper_synced: "oper s s' \<Longrightarrow> mem s = disk s \<Longrightarrow> mem s' = disk s'"
begin

lemma run_synced: "oper\<^sup>*\<^sup>* s s' \<Longrightarrow> mem s = disk s \<Longrightarrow> mem s' = disk s'"
  by (induction rule: rtranclp_induct) (auto dest: oper_synced)

end

text \<open>A store whose operations keep an invariant.\<close>

locale invariant_store =
  fixes inv :: "'s \<Rightarrow> bool" and oper :: "'s \<Rightarrow> 's \<Rightarrow> bool"
  assumes oper_inv: "oper s s' \<Longrightarrow> inv s \<Longrightarrow> inv s'"
begin

lemma run_inv: "oper\<^sup>*\<^sup>* s s' \<Longrightarrow> inv s \<Longrightarrow> inv s'"
  by (induction rule: rtranclp_induct) (auto dest: oper_inv)

end

text \<open>Reading a store's file: a missing or unparsable file reads as the empty record.\<close>

definition read_file :: "('k, 'v) jsmap option \<Rightarrow> ('k, 'v) jsmap" where
  "read_file f = (case f of None \<Rightarrow> [] | Some m \<Rightarrow> m)"

lemma read_file_simps [simp]: "read_file None = []" "read_file (Some m) = m"
  by (simp_all add: read_file_def)

text \<open>An invariant of every record of a map.\<close>

definition each :: "('k \<Rightarrow> 'v \<Rightarrow> bool) \<Rightarrow> ('k, 'v) jsmap \<Rightarrow> bool" where
  "each P m \<longleftrightarrow> unique_keys m \<and> (\<forall>(k, v) \<in> set m. P k v)"

lemma each_empty [simp]: "each P []"
  by (simp add: each_def)

lemma each_put [intro]: "each P m \<Longrightarrow> P k v \<Longrightarrow> each P (put k v m)"
  by (auto simp: each_def set_put)

lemma each_del [intro]: "each P m \<Longrightarrow> each P (del k m)"
  by (auto simp: each_def set_del)

lemma each_look: "each P m \<Longrightarrow> look m k = Some v \<Longrightarrow> P k v"
  by (auto simp: each_def dest: map_of_SomeD)

lemma each_keys: "each P m \<Longrightarrow> unique_keys m"
  by (simp add: each_def)

lemma each_drop_where [intro]: "each P m \<Longrightarrow> each P (drop_where p m)"
  by (auto simp: each_def)

subsection \<open>Stores of credentials\<close>

text \<open>
  Sessions, refresh tokens and the like: what a revocation for one user promises. A credential
  \<open>c\<close> is \<open>usable\<close> for a user; revoking a user ends all of theirs and nobody else's.
\<close>

locale credential_store =
  fixes revoke :: "uid \<Rightarrow> 's \<Rightarrow> 's" and usable :: "'s \<Rightarrow> uid \<Rightarrow> 'c \<Rightarrow> bool"
  assumes revoke_ends: "\<not> usable (revoke i s) i c"
    and revoke_frame: "j \<noteq> i \<Longrightarrow> usable (revoke i s) j c \<longleftrightarrow> usable s j c"
begin

lemma revoke_never_revives: "usable (revoke i s) j c \<Longrightarrow> usable s j c"
  using revoke_ends revoke_frame by (cases "j = i") auto

lemma revoke_all: "usable (fold revoke is s) j c \<longleftrightarrow> j \<notin> set is \<and> usable s j c"
proof (induction "is" arbitrary: s)
  case (Cons i "is")
  then show ?case using revoke_ends revoke_frame by (cases "j = i") auto
qed simp

end

subsection \<open>Single-use tokens\<close>

text \<open>
  Authorization codes and device codes: redeeming one takes it out of the store, whatever the
  other arguments \<open>'a\<close> of the call, and redeeming brings none back.
\<close>

locale single_use =
  fixes redeem :: "'a \<Rightarrow> 'k \<Rightarrow> 's \<Rightarrow> 'r option \<times> 's" and held :: "'s \<Rightarrow> 'k \<Rightarrow> bool"
  assumes redeem_held: "fst (redeem a k s) = Some r \<Longrightarrow> held s k"
    and redeem_takes: "fst (redeem a k s) = Some r \<Longrightarrow> \<not> held (snd (redeem a k s)) k"
    and redeem_keeps: "held (snd (redeem a k s)) j \<Longrightarrow> held s j"
begin

lemma never_again:
  "\<not> held s k \<Longrightarrow> \<not> held (fold (\<lambda>(b, j). snd \<circ> redeem b j) js s) k"
proof (induction js arbitrary: s)
  case (Cons p js)
  obtain b j where "p = (b, j)" by (cases p)
  with Cons.IH [of "snd (redeem b j s)"] Cons.prems redeem_keeps [of b j s k] show ?case by auto
qed simp

lemma once:
  assumes "fst (redeem a k s) = Some r"
  shows "fst (redeem b k (fold (\<lambda>(b, j). snd \<circ> redeem b j) js (snd (redeem a k s)))) = None"
  using never_again [OF redeem_takes [OF assms]] redeem_held by (metis not_Some_eq)

end

end
