(* ===== verification/Protocol.thy ===== *)
theory Protocol
  imports Prelude
begin

text \<open>
  The wire protocol shared by the server and the web app (\<open>shared/src\<close>): the operations of
  each API namespace and their qualified names, the task specifications with their kinds, the
  run envelope, and the user record every gate looks at. Response and request payloads that no
  modelled component reads are left out; a namespace is the list of its operation names.
\<close>

subsection \<open>API operations\<close>

definition AppOperations :: "string list" where
  "AppOperations = [''list'', ''create'', ''update'', ''delete'']"

definition AuthOperations :: "string list" where
  "AuthOperations = [''getState'', ''setupOwner'', ''login'', ''logout'', ''me'', ''listRoles'',
    ''createRole'', ''updateRole'', ''deleteRole'', ''resetRole'', ''listUsers'', ''createUser'',
    ''deleteUser'', ''setUserRoles'', ''getUserDetail'', ''revokeUserSession'',
    ''adminSetPassword'', ''setUserSystemUser'', ''setUserEmail'', ''setUserPermissions'']"

definition ComposeOperations :: "string list" where
  "ComposeOperations = [''getDefaultDir'', ''setDefaultDir'', ''list'', ''listForHost'',
    ''readForHost'', ''create'', ''detect'', ''import'', ''delete'', ''getStatus'', ''getLogs'',
    ''validateContent'']"

definition DashboardOperations :: "string list" where
  "DashboardOperations = [''get'', ''set'', ''reset'', ''fleetSummary'']"

definition DockerOperations :: "string list" where
  "DockerOperations = [''list'', ''containerLogs'', ''overview'', ''containerInspect'',
    ''containerExec'', ''volumeInspect'', ''volumeRemove'', ''imageAction'', ''imageDefaults'']"

definition FilesOperations :: "string list" where
  "FilesOperations = [''listDir'', ''read'', ''write'', ''upload'', ''createDir'', ''delete'',
    ''rename'', ''getMounts'', ''listDevices'']"

definition NetworkOperations :: "string list" where
  "NetworkOperations = [''getInfo'']"

definition OidcOperations :: "string list" where
  "OidcOperations = [''listClients'', ''getProviderInfo'', ''createClient'', ''updateClient'',
    ''deleteClient'', ''regenerateSecret'', ''listGrants'', ''revokeGrant'',
    ''getAuthorizeRequest'', ''completeAuthorize'', ''getDeviceRequest'', ''approveDevice'',
    ''denyDevice'']"

definition ProcessesOperations :: "string list" where
  "ProcessesOperations = [''list'']"

definition ProxyOperations :: "string list" where
  "ProxyOperations = [''getState'', ''setConfig'', ''deploy'', ''remove'', ''createRoute'',
    ''updateRoute'', ''deleteRoute'', ''applyConfig'']"

definition ServersOperations :: "string list" where
  "ServersOperations = [''list'', ''delete'', ''getMetricsHistory'', ''redetectCapabilities'',
    ''generateInstallCommand'', ''installService'', ''probeInstallPath'', ''getAgentConfig'']"

definition SettingsOperations :: "string list" where
  "SettingsOperations = [''getConfig'', ''setDomain'', ''setPrimaryUrl'', ''setAllowedOrigins'',
    ''setTrustedProxies'', ''getControlPlaneStatus'']"

definition SystemUsersOperations :: "string list" where
  "SystemUsersOperations = [''list'', ''create'', ''hostStatus'', ''setGroups'']"

definition SystemdOperations :: "string list" where
  "SystemdOperations = [''list'', ''serviceLogs'', ''unitFile'']"

definition ZfsOperations :: "string list" where
  "ZfsOperations = [''getState'', ''getDatasets'', ''getSnapshots'', ''getBlockDevices'',
    ''setDatasetProperty'']"

definition TasksOperations :: "string list" where
  "TasksOperations = [''list'', ''get'', ''run'', ''getLogs'']"

definition CentralApiOperations :: "(string \<times> string list) list" where
  "CentralApiOperations =
    [(''apps'', AppOperations), (''auth'', AuthOperations), (''compose'', ComposeOperations),
     (''dashboard'', DashboardOperations), (''docker'', DockerOperations),
     (''files'', FilesOperations), (''network'', NetworkOperations), (''oidc'', OidcOperations),
     (''processes'', ProcessesOperations), (''proxy'', ProxyOperations),
     (''servers'', ServersOperations), (''settings'', SettingsOperations),
     (''system-users'', SystemUsersOperations), (''systemd'', SystemdOperations),
     (''tasks'', TasksOperations), (''zfs'', ZfsOperations)]"

text \<open>The qualified names, the path under the API prefix.\<close>

definition ApiOperation :: "string list" where
  "ApiOperation = concat (map (\<lambda>(n, os). map (\<lambda>k. n @ ''/'' @ k) os) CentralApiOperations)"

text \<open>Membership by splitting the name at its slash, for evaluation.\<close>

definition is_ApiOperation :: "string \<Rightarrow> bool" where
  "is_ApiOperation k =
     (case split_on CHR ''/'' k of
        [n, m] \<Rightarrow> (case look CentralApiOperations n of None \<Rightarrow> False | Some os \<Rightarrow> m \<in> set os)
      | _ \<Rightarrow> False)"

lemma is_ApiOperation_sound: "is_ApiOperation k \<Longrightarrow> k \<in> set ApiOperation"
proof -
  assume "is_ApiOperation k"
  then obtain n m os where k: "split_on CHR ''/'' k = [n, m]"
    and os: "look CentralApiOperations n = Some os" "m \<in> set os"
    by (auto simp: is_ApiOperation_def split: list.splits option.splits)
  have "k = n @ ''/'' @ m" using join_split_on [of "CHR ''/''" k] k by simp
  with os show ?thesis by (force simp: ApiOperation_def dest: map_of_SomeD)
qed

definition API_PREFIX :: string where
  "API_PREFIX = ''/api''"

subsection \<open>Events\<close>

text \<open>The kinds of \<open>ApiEvent\<close>; payloads stay with the components that send them.\<close>

definition ApiEvent_kinds :: "string list" where
  "ApiEvent_kinds =
    [''init'', ''serversUpdate'', ''statusUpdate'', ''metrics'', ''taskUpdate'', ''taskLog'']"

subsection \<open>Task specifications\<close>

type_synonym ServiceAction = string
type_synonym StackAction = string
type_synonym ContainerAction = string

record vdev_spec =
  vdev_type :: string
  vdev_devices :: "string list"

datatype TaskSpec =
    TaskCmd string
  | TaskExec "string list" "string option" "(string, string) jsmap option"
  | TaskFindWanIp
  | TaskServiceAction string ServiceAction
  | TaskDockerStackAction string StackAction
  | TaskDockerContainerAction string ContainerAction
  | TaskDockerImagePull string
  | TaskDockerComposeAction string string "bool option" "string option"
  | TaskUpdateAgent "bool option"
  | TaskUpdateControlPlane
  | TaskDebugFake int int "bool option"
  | TaskZfsPoolCreate string "vdev_spec list" "bool option"
  | TaskZfsPoolDestroy string
  | TaskZfsPoolImport string
  | TaskZfsPoolExport string
  | TaskZfsVdevAdd string vdev_spec "bool option"
  | TaskZfsDeviceReplace string string string
  | TaskZfsScrub string string
  | TaskZfsDatasetCreate string string string "int option" "(string, string) jsmap option"
  | TaskZfsDatasetDestroy string bool
  | TaskZfsSnapshotCreate string string bool
  | TaskZfsSnapshotRollback string bool
  | TaskZfsSnapshotDestroy string
  | TaskZfsSnapshotClone string string

text \<open>A spec's discriminant, \<open>spec.kind\<close>.\<close>

fun kind :: "TaskSpec \<Rightarrow> string" where
  "kind (TaskCmd _) = ''cmd''"
| "kind (TaskExec _ _ _) = ''exec''"
| "kind TaskFindWanIp = ''find_wan_ip''"
| "kind (TaskServiceAction _ _) = ''service_action''"
| "kind (TaskDockerStackAction _ _) = ''docker_stack_action''"
| "kind (TaskDockerContainerAction _ _) = ''docker_container_action''"
| "kind (TaskDockerImagePull _) = ''docker_image_pull''"
| "kind (TaskDockerComposeAction _ _ _ _) = ''docker_compose_action''"
| "kind (TaskUpdateAgent _) = ''update_agent''"
| "kind TaskUpdateControlPlane = ''update_control_plane''"
| "kind (TaskDebugFake _ _ _) = ''debug_fake''"
| "kind (TaskZfsPoolCreate _ _ _) = ''zfs_pool_create''"
| "kind (TaskZfsPoolDestroy _) = ''zfs_pool_destroy''"
| "kind (TaskZfsPoolImport _) = ''zfs_pool_import''"
| "kind (TaskZfsPoolExport _) = ''zfs_pool_export''"
| "kind (TaskZfsVdevAdd _ _ _) = ''zfs_vdev_add''"
| "kind (TaskZfsDeviceReplace _ _ _) = ''zfs_device_replace''"
| "kind (TaskZfsScrub _ _) = ''zfs_scrub''"
| "kind (TaskZfsDatasetCreate _ _ _ _ _) = ''zfs_dataset_create''"
| "kind (TaskZfsDatasetDestroy _ _) = ''zfs_dataset_destroy''"
| "kind (TaskZfsSnapshotCreate _ _ _) = ''zfs_snapshot_create''"
| "kind (TaskZfsSnapshotRollback _ _) = ''zfs_snapshot_rollback''"
| "kind (TaskZfsSnapshotDestroy _) = ''zfs_snapshot_destroy''"
| "kind (TaskZfsSnapshotClone _ _) = ''zfs_snapshot_clone''"

definition TaskKind :: "string list" where
  "TaskKind =
    [''cmd'', ''exec'', ''find_wan_ip'', ''service_action'', ''docker_stack_action'',
     ''docker_container_action'', ''docker_image_pull'', ''docker_compose_action'',
     ''update_agent'', ''update_control_plane'', ''debug_fake'', ''zfs_pool_create'',
     ''zfs_pool_destroy'', ''zfs_pool_import'', ''zfs_pool_export'', ''zfs_vdev_add'',
     ''zfs_device_replace'', ''zfs_scrub'', ''zfs_dataset_create'', ''zfs_dataset_destroy'',
     ''zfs_snapshot_create'', ''zfs_snapshot_rollback'', ''zfs_snapshot_destroy'',
     ''zfs_snapshot_clone'']"

lemma range_kind: "range kind = set TaskKind"
proof
  show "range kind \<subseteq> set TaskKind"
  proof
    fix k assume "k \<in> range kind"
    then obtain sp where "k = kind sp" by blast
    then show "k \<in> set TaskKind" by (cases sp) (simp_all add: TaskKind_def)
  qed
  have eq: "TaskKind = map kind [TaskCmd [], TaskExec [] None None, TaskFindWanIp,
      TaskServiceAction [] [], TaskDockerStackAction [] [], TaskDockerContainerAction [] [],
      TaskDockerImagePull [], TaskDockerComposeAction [] [] None None, TaskUpdateAgent None,
      TaskUpdateControlPlane, TaskDebugFake 0 0 None, TaskZfsPoolCreate [] [] None,
      TaskZfsPoolDestroy [], TaskZfsPoolImport [], TaskZfsPoolExport [],
      TaskZfsVdevAdd [] undefined None, TaskZfsDeviceReplace [] [] [], TaskZfsScrub [] [],
      TaskZfsDatasetCreate [] [] [] None None, TaskZfsDatasetDestroy [] False,
      TaskZfsSnapshotCreate [] [] False, TaskZfsSnapshotRollback [] False,
      TaskZfsSnapshotDestroy [], TaskZfsSnapshotClone [] []]"
    by (simp add: TaskKind_def)
  show "set TaskKind \<subseteq> range kind" unfolding eq set_map by (rule image_mono) simp
qed

subsection \<open>Results and the run envelope\<close>

text \<open>
  Results are keyed by the kind of their spec; only four kinds carry more than the kind, and
  every other kind is \<open>TaskDone\<close> with its kind.
\<close>

datatype TaskResult =
    TaskCmdResult int string string
  | TaskExecResult int string string
  | TaskFindWanIpResult "string option"
  | TaskDockerImagePullResult string
  | TaskUpdateControlPlaneResult string
  | TaskDebugFakeResult nat
  | TaskDone string

fun result_kind :: "TaskResult \<Rightarrow> string" where
  "result_kind (TaskCmdResult _ _ _) = ''cmd''"
| "result_kind (TaskExecResult _ _ _) = ''exec''"
| "result_kind (TaskFindWanIpResult _) = ''find_wan_ip''"
| "result_kind (TaskDockerImagePullResult _) = ''docker_image_pull''"
| "result_kind (TaskUpdateControlPlaneResult _) = ''update_control_plane''"
| "result_kind (TaskDebugFakeResult _) = ''debug_fake''"
| "result_kind (TaskDone k) = k"

datatype TaskStatus = Pending | Running | Succeeded | Failed | Cancelled

datatype TaskTrigger = Manual "uid option" | Schedule string | System

record TaskRun =
  run_id :: string
  run_spec :: TaskSpec
  run_target :: "string option"
  run_status :: TaskStatus
  run_result :: "TaskResult option"
  run_error :: "string option"
  run_trigger :: TaskTrigger
  run_createdAt :: ms
  run_startedAt :: "ms option"
  run_finishedAt :: "ms option"

record TaskLogLine =
  log_ts :: ms
  log_text :: string
  log_stream :: "string option"

subsection \<open>Users\<close>

text \<open>What the permission system reads of a user, and the account as the API reports it.\<close>

record PermissionSubject =
  isOwner :: bool
  permissions :: "permission list"

record UserInfo = PermissionSubject +
  user_id :: uid
  user_name :: string
  user_roleIds :: "string list"
  user_createdAt :: ms
  user_systemUser :: "string option"
  user_email :: "string option"

end
