(* ===== verification/Registry.thy ===== *)
theory Registry
  imports Protocol
begin

text \<open>
  How the features are composed into one server (\<open>apps/server/src/feature.ts\<close>): a feature
  contributes the operations of its namespace, the task kinds it owns and raw HTTP routes, and
  the compose functions merge them into the tables the dispatchers read, refusing two owners of
  one key. The agent's half collects the host probes in the same way.

  A handler is a value of a type parameter: what is shown here is which handler a name reaches.
\<close>

subsection \<open>Features\<close>

record FeatureDescriptor =
  fd_id :: string
  fd_name :: string
  fd_description :: string
  fd_experimental :: bool
  fd_dependsOn :: "string list option"
  fd_requiresHostCapability :: "string option"

record 'h HttpRoute =
  ro_path :: string
  ro_method :: "string option"
  ro_handle :: 'h

record ('o, 't, 'h) Feature =
  ft_descriptor :: FeatureDescriptor
  ft_apiHandlers :: "(string \<times> (string \<times> 'o) list) list option"
  ft_taskHandlers :: "(string \<times> 't) list option"
  ft_httpRoutes :: "'h HttpRoute list option"

record ('o, 't, 'h) FeatureDesc =
  ds_id :: string
  ds_name :: string
  ds_description :: string
  ds_experimental :: "bool option"
  ds_dependsOn :: "string list option"
  ds_requiresHostCapability :: "string option"
  ds_ops :: "(string \<times> 'o) list option"
  ds_tasks :: "(string \<times> 't) list option"
  ds_httpRoutes :: "'h HttpRoute list option"

definition defineFeature :: "('o, 't, 'h) FeatureDesc \<Rightarrow> ('o, 't, 'h) Feature" where
  "defineFeature d =
     \<lparr>ft_descriptor = \<lparr>fd_id = ds_id d, fd_name = ds_name d, fd_description = ds_description d,
        fd_experimental = (case ds_experimental d of Some b \<Rightarrow> b | None \<Rightarrow> False),
        fd_dependsOn = ds_dependsOn d,
        fd_requiresHostCapability = (case ds_requiresHostCapability d of
            Some c \<Rightarrow> if c = [] then None else Some c | None \<Rightarrow> None)\<rparr>,
      ft_apiHandlers = map_option (\<lambda>ops. [(ds_id d, ops)]) (ds_ops d),
      ft_taskHandlers = ds_tasks d,
      ft_httpRoutes = ds_httpRoutes d\<rparr>"

subsection \<open>Merging slices\<close>

text \<open>Two features that claim one key: the second, the first, the label and the key.\<close>

datatype compose_error =
    BothProvide string string string string
  | BothServe string string string
  | BothProbe string string string
  | NoProbe "string list"

text \<open>One slice into the registry and its owners; then the slices of all features in turn.\<close>

fun merge_slice :: "string \<Rightarrow> string \<Rightarrow> (string \<times> 'v) list \<Rightarrow> (string, 'v) jsmap \<times> (string, string) jsmap \<Rightarrow>
    compose_error + (string, 'v) jsmap \<times> (string, string) jsmap" where
  "merge_slice label i [] mo = Inr mo"
| "merge_slice label i ((key, v) # rest) (merged, owners) =
     (case look merged key of
        Some _ \<Rightarrow> Inl (BothProvide i (case look owners key of Some o' \<Rightarrow> o' | None \<Rightarrow> []) label key)
      | None \<Rightarrow> merge_slice label i rest (put key v merged, put key i owners))"

fun merge_loop :: "string \<Rightarrow> (string \<times> (string \<times> 'v) list option) list \<Rightarrow>
    (string, 'v) jsmap \<times> (string, string) jsmap \<Rightarrow> compose_error + (string, 'v) jsmap" where
  "merge_loop label [] mo = Inr (fst mo)"
| "merge_loop label ((i, slice) # rest) mo =
     (case merge_slice label i (case slice of Some s \<Rightarrow> s | None \<Rightarrow> []) mo of
        Inl e \<Rightarrow> Inl e
      | Inr mo' \<Rightarrow> merge_loop label rest mo')"

definition mergeSlices :: "string \<Rightarrow> (string \<times> (string \<times> 'v) list option) list \<Rightarrow>
    compose_error + (string, 'v) jsmap" where
  "mergeSlices label slices = merge_loop label slices ([], [])"

definition composeApiHandlers :: "('o, 't, 'h) Feature list \<Rightarrow>
    compose_error + (string, (string \<times> 'o) list) jsmap" where
  "composeApiHandlers features =
     mergeSlices ''namespace'' (map (\<lambda>f. (fd_id (ft_descriptor f), ft_apiHandlers f)) features)"

definition composeTaskHandlers :: "('o, 't, 'h) Feature list \<Rightarrow> compose_error + (string, 't) jsmap" where
  "composeTaskHandlers features =
     mergeSlices ''task kind'' (map (\<lambda>f. (fd_id (ft_descriptor f), ft_taskHandlers f)) features)"

definition op_key :: "string \<Rightarrow> string \<Rightarrow> string" where
  "op_key ns opn = ns @ ''/'' @ opn"

definition flattenApiHandlers :: "(string, (string \<times> 'o) list) jsmap \<Rightarrow> (string, 'o) jsmap" where
  "flattenApiHandlers handlers =
     foldl (\<lambda>table (ns, ops). foldl (\<lambda>t (opn, fn). put (op_key ns opn) fn t) table ops) [] handlers"

subsection \<open>Raw HTTP routes\<close>

definition route_key :: "'h HttpRoute \<Rightarrow> string" where
  "route_key r = (case ro_method r of Some m \<Rightarrow> m | None \<Rightarrow> ''*'') @ '' '' @ ro_path r"

fun route_loop :: "(string \<times> 'h HttpRoute) list \<Rightarrow> (string, 'h HttpRoute) jsmap \<Rightarrow> (string, string) jsmap \<Rightarrow>
    compose_error + (string, 'h HttpRoute) jsmap" where
  "route_loop [] routes owners = Inr routes"
| "route_loop ((i, r) # rest) routes owners =
     (let key = route_key r; existing = (case look owners key of Some o' \<Rightarrow> o' | None \<Rightarrow> [])
      in if existing \<noteq> [] then Inl (BothServe i existing key)
         else route_loop rest (put key r routes) (put key i owners))"

definition composeHttpRoutes :: "('o, 't, 'h) Feature list \<Rightarrow> compose_error + (string, 'h HttpRoute) jsmap" where
  "composeHttpRoutes features =
     route_loop (concat (map (\<lambda>f. map (Pair (fd_id (ft_descriptor f)))
        (case ft_httpRoutes f of Some rs \<Rightarrow> rs | None \<Rightarrow> [])) features)) [] []"

definition matchHttpRoute :: "(string, 'h HttpRoute) jsmap \<Rightarrow> string \<Rightarrow> string \<Rightarrow> 'h HttpRoute option" where
  "matchHttpRoute routes method path =
     (case look routes (method @ '' '' @ path) of
        Some r \<Rightarrow> Some r
      | None \<Rightarrow> look routes (''* '' @ path))"

subsection \<open>Host probes\<close>

definition HOST_CAPABILITIES :: "string list" where
  "HOST_CAPABILITIES = [''zfs'', ''systemd'', ''docker'']"

record HostCapabilityResult =
  hc_available :: bool
  hc_detail :: "string option"

text \<open>A node-side feature with its probe, if any: the capability and how the probe ends.\<close>

type_synonym AgentFeature = "string \<times> (string \<times> (string + HostCapabilityResult)) option"

fun probe_owners :: "AgentFeature list \<Rightarrow> (string, string) jsmap \<Rightarrow> compose_error + (string, string) jsmap" where
  "probe_owners [] owners = Inr owners"
| "probe_owners ((i, None) # rest) owners = probe_owners rest owners"
| "probe_owners ((i, Some (cap, _)) # rest) owners =
     (let existing = (case look owners cap of Some o' \<Rightarrow> o' | None \<Rightarrow> [])
      in if existing \<noteq> [] then Inl (BothProbe i existing cap)
         else probe_owners rest (put cap i owners))"

definition assertHostProbeCoverage :: "AgentFeature list \<Rightarrow> compose_error + unit" where
  "assertHostProbeCoverage features =
     (case probe_owners features [] of
        Inl e \<Rightarrow> Inl e
      | Inr owners \<Rightarrow>
          (let missing = filter (\<lambda>c. look owners c = None) HOST_CAPABILITIES
           in if missing \<noteq> [] then Inl (NoProbe missing) else Inr ()))"

definition run_probe :: "string \<Rightarrow> string + HostCapabilityResult \<Rightarrow> HostCapabilityResult" where
  "run_probe i outcome =
     (case outcome of
        Inr r \<Rightarrow> r
      | Inl e \<Rightarrow> \<lparr>hc_available = False, hc_detail = Some (''Probe for '' @ [CHR 0x22] @ i @ [CHR 0x22] @ '' failed: '' @ e)\<rparr>)"

definition composeHostProbes :: "AgentFeature list \<Rightarrow> compose_error + (string, HostCapabilityResult) jsmap" where
  "composeHostProbes features =
     (case probe_owners features [] of
        Inl e \<Rightarrow> Inl e
      | Inr _ \<Rightarrow> Inr (foldl (\<lambda>m (i, p). case p of None \<Rightarrow> m | Some (cap, out) \<Rightarrow> put cap (run_probe i out) m) [] features))"

subsection \<open>What the compose functions build\<close>

definition all_slices :: "(string \<times> (string \<times> 'v) list option) list \<Rightarrow> (string \<times> 'v) list" where
  "all_slices slices = concat (map (\<lambda>(i, s). case s of Some xs \<Rightarrow> xs | None \<Rightarrow> []) slices)"

lemma merge_slice_ok:
  "unique_keys (m @ s) \<Longrightarrow> \<exists>o'. merge_slice label i s (m, ow) = Inr (m @ s, o')"
proof (induction s arbitrary: m ow)
  case (Cons p s)
  obtain k v where p: "p = (k, v)" by (cases p)
  have fresh: "look m k = None" using Cons.prems p by (auto simp: map_of_eq_None_iff)
  then have "put k v m = m @ [(k, v)]" by (rule put_fresh)
  with Cons.IH [of "m @ [(k, v)]"] Cons.prems p fresh show ?case by simp
qed simp

lemma merge_slice_Inr:
  "merge_slice label i s (m, ow) = Inr (m', o') \<Longrightarrow> unique_keys m \<Longrightarrow> m' = m @ s \<and> unique_keys m'"
proof (induction s arbitrary: m ow)
  case (Cons p s)
  obtain k v where p: "p = (k, v)" by (cases p)
  with Cons.prems have fresh: "look m k = None" by (auto split: option.splits)
  then have "put k v m = m @ [(k, v)]" by (rule put_fresh)
  with Cons.IH [of "m @ [(k, v)]"] Cons.prems p fresh show ?case by (simp add: map_of_eq_None_iff)
qed simp

lemma merge_loop_iff:
  "unique_keys m \<Longrightarrow>
   merge_loop label slices (m, ow) = Inr m' \<longleftrightarrow> unique_keys (m @ all_slices slices) \<and> m' = m @ all_slices slices"
proof (induction slices arbitrary: m ow)
  case Nil
  then show ?case by (auto simp: all_slices_def)
next
  case (Cons p slices)
  obtain i sl where p: "p = (i, sl)" by (cases p)
  define s where "s = (case sl of Some xs \<Rightarrow> xs | None \<Rightarrow> [])"
  have all: "all_slices (p # slices) = s @ all_slices slices" by (simp add: all_slices_def p s_def)
  show ?case
  proof (cases "merge_slice label i s (m, ow)")
    case (Inl e)
    then have "\<not> unique_keys (m @ s)" using merge_slice_ok [of m s label i ow] by auto
    then show ?thesis unfolding all using Inl by (auto simp: p s_def)
  next
    case (Inr mo)
    obtain m1 o1 where mo: "mo = (m1, o1)" by (cases mo)
    with Inr Cons.prems merge_slice_Inr have "m1 = m @ s" "unique_keys m1" by blast+
    with Cons.IH [of m1 o1] show ?thesis unfolding all using Inr mo by (simp add: p s_def)
  qed
qed

lemma mergeSlices_iff:
  "mergeSlices label slices = Inr m \<longleftrightarrow> unique_keys (all_slices slices) \<and> m = all_slices slices"
  using merge_loop_iff [of "[]" label slices "[]" m] by (simp add: mergeSlices_def)

text \<open>The operations of all namespaces, by their wire name.\<close>

definition wire_ops :: "(string, (string \<times> 'o) list) jsmap \<Rightarrow> (string \<times> 'o) list" where
  "wire_ops handlers = concat (map (\<lambda>(ns, ops). map (\<lambda>(opn, fn). (op_key ns opn, fn)) ops) handlers)"

lemma op_key_inj: "CHR ''/'' \<notin> set a \<Longrightarrow> CHR ''/'' \<notin> set b \<Longrightarrow> op_key a x = op_key b y \<longleftrightarrow> a = b \<and> x = y"
proof -
  assume h: "CHR ''/'' \<notin> set a" "CHR ''/'' \<notin> set b"
  have "takeWhile (\<lambda>c. c \<noteq> CHR ''/'') (op_key a x) = a" "takeWhile (\<lambda>c. c \<noteq> CHR ''/'') (op_key b y) = b"
    using h by (auto simp: op_key_def takeWhile_tail)
  then show ?thesis by (auto simp: op_key_def)
qed

lemma foldl_put_flat:
  "foldl (\<lambda>table (ns, ops). foldl (\<lambda>t (opn, fn). put (op_key ns opn) fn t) table ops) acc handlers
   = foldl (\<lambda>t (k, fn). put k fn t) acc (wire_ops handlers)"
proof -
  have inner: "foldl (\<lambda>t (opn, fn). put (op_key ns opn) fn t) acc ops
      = foldl (\<lambda>t (k, fn). put k fn t) acc (map (\<lambda>(opn, fn). (op_key ns opn, fn)) ops)" for ns ops acc
    by (induction ops arbitrary: acc) auto
  show ?thesis
    by (induction handlers arbitrary: acc) (auto simp: wire_ops_def inner)
qed

lemma foldl_put_fresh: "unique_keys (acc @ xs) \<Longrightarrow> foldl (\<lambda>t (k, v). put k v t) acc xs = acc @ xs"
proof (induction xs arbitrary: acc)
  case (Cons p xs)
  obtain k v where p: "p = (k, v)" by (cases p)
  with Cons.prems have "look acc k = None" by (auto simp: map_of_eq_None_iff)
  with Cons.IH [of "acc @ [(k, v)]"] Cons.prems p show ?case by (simp add: put_fresh)
qed simp

lemma unique_wire_ops:
  "unique_keys handlers \<Longrightarrow> \<forall>(ns, ops) \<in> set handlers. CHR ''/'' \<notin> set ns \<and> unique_keys ops \<Longrightarrow>
   unique_keys (wire_ops handlers)"
proof (induction handlers)
  case (Cons p handlers)
  obtain ns ops where p: "p = (ns, ops)" by (cases p)
  have k: "keys (wire_ops (p # handlers)) = map (op_key ns) (keys ops) @ keys (wire_ops handlers)"
    by (simp add: wire_ops_def p comp_def case_prod_unfold)
  have "distinct (map (op_key ns) (keys ops))"
    using Cons.prems p by (auto simp: distinct_map inj_on_def op_key_def)
  moreover have "op_key ns x \<notin> set (keys (wire_ops handlers))" for x
  proof
    assume "op_key ns x \<in> set (keys (wire_ops handlers))"
    then obtain ns' ops' y where "(ns', ops') \<in> set handlers" "op_key ns x = op_key ns' y"
      by (auto simp: wire_ops_def)
    moreover from this have "CHR ''/'' \<notin> set ns'" "ns' \<noteq> ns" using Cons.prems p by force+
    ultimately show False using op_key_inj [of ns ns' x y] Cons.prems p by simp
  qed
  moreover have "unique_keys (wire_ops handlers)" using Cons p by simp
  ultimately show ?case unfolding k distinct_append by auto
qed (simp add: wire_ops_def)

text \<open>The namespaces the features claim, each with its operations.\<close>

definition api_claims :: "('o, 't, 'h) Feature list \<Rightarrow> (string \<times> (string \<times> 'o) list) list" where
  "api_claims features = concat (map (\<lambda>f. case ft_apiHandlers f of Some s \<Rightarrow> s | None \<Rightarrow> []) features)"

text \<open>
  C33. The dispatch table. Composing succeeds exactly when no namespace is claimed twice, and then
  the table the dispatcher reads answers a name \<open>namespace/operation\<close> with the handler of the one
  feature that claims the namespace, and no other name with anything.
\<close>

theorem dispatch_table_exact:
  fixes features :: "('o, 't, 'h) Feature list"
  assumes "\<forall>(ns, ops) \<in> set (api_claims features). CHR ''/'' \<notin> set ns \<and> unique_keys ops"
  shows "(composeApiHandlers features \<in> range Inr \<longleftrightarrow> unique_keys (api_claims features))
    \<and> (composeApiHandlers features = Inr handlers \<longrightarrow>
        (look (flattenApiHandlers handlers) command = Some fn \<longleftrightarrow>
           (\<exists>ns opn ops. (ns, ops) \<in> set (api_claims features) \<and> look ops opn = Some fn
              \<and> command = ns @ ''/'' @ opn)))"
proof -
  define claims where "claims = api_claims features"
  note prems = assms [folded claims_def]
  let ?slices = "map (\<lambda>f. (fd_id (ft_descriptor f), ft_apiHandlers f)) features"
  have claims: "all_slices ?slices = claims" by (simp add: all_slices_def claims_def api_claims_def comp_def)
  have compose: "composeApiHandlers features = Inr h \<longleftrightarrow> unique_keys claims \<and> h = claims" for h
    by (simp add: composeApiHandlers_def mergeSlices_iff claims)
  have table: "look (flattenApiHandlers handlers) command = Some fn \<longleftrightarrow>
      (\<exists>ns opn ops. (ns, ops) \<in> set claims \<and> look ops opn = Some fn \<and> command = ns @ ''/'' @ opn)"
    if h: "composeApiHandlers features = Inr handlers"
  proof -
    have u: "unique_keys (wire_ops claims)" and [simp]: "handlers = claims"
      using h compose prems by (auto intro!: unique_wire_ops)
    have "flattenApiHandlers handlers = wire_ops claims"
      using foldl_put_fresh [of "[]" "wire_ops claims"] u by (simp add: flattenApiHandlers_def foldl_put_flat)
    then have "look (flattenApiHandlers handlers) command = Some fn \<longleftrightarrow> (command, fn) \<in> set (wire_ops claims)"
      using u by simp
    also have "\<dots> \<longleftrightarrow> (\<exists>ns opn ops. (ns, ops) \<in> set claims \<and> look ops opn = Some fn \<and> command = ns @ ''/'' @ opn)"
    proof
      assume "(command, fn) \<in> set (wire_ops claims)"
      then obtain ns ops opn where *: "(ns, ops) \<in> set claims" "(opn, fn) \<in> set ops" "command = op_key ns opn"
        by (auto simp: wire_ops_def)
      with prems have "look ops opn = Some fn" by (auto intro: map_of_is_SomeI)
      with * show "\<exists>ns opn ops. (ns, ops) \<in> set claims \<and> look ops opn = Some fn \<and> command = ns @ ''/'' @ opn"
        by (auto simp: op_key_def)
    qed (force simp: wire_ops_def op_key_def dest: map_of_SomeD)
    finally show ?thesis .
  qed
  have "composeApiHandlers features \<in> range Inr \<longleftrightarrow> unique_keys claims"
    using compose by (auto simp: image_iff)
  then show ?thesis using table unfolding claims_def by blast
qed

definition demo_feature :: "(nat, unit, unit) Feature" where
  "demo_feature = defineFeature \<lparr>ds_id = ''apps'', ds_name = ''Apps'', ds_description = [],
     ds_experimental = None, ds_dependsOn = None, ds_requiresHostCapability = None,
     ds_ops = Some [(''list'', 1), (''create'', 2)], ds_tasks = None, ds_httpRoutes = None\<rparr>"

theorem dispatch_table_exact_witness:
  "look (flattenApiHandlers (api_claims [demo_feature])) ''apps/create'' = Some 2"
proof -
  have claims: "api_claims [demo_feature] = [(''apps'', [(''list'', 1), (''create'', 2)])]" by code_simp
  have "composeApiHandlers [demo_feature] = Inr (api_claims [demo_feature])" by code_simp
  then show ?thesis
    using dispatch_table_exact [of "[demo_feature]" "api_claims [demo_feature]" "''apps/create''" 2]
    by (auto simp: claims)
qed

end
