(* ===== verification/Node_Protocol.thy ===== *)
theory Node_Protocol
  imports Registry
begin

text \<open>
  The messages between the control plane and a host agent (\<open>shared/src/node-protocol.ts\<close>) and the
  agent data they carry (\<open>shared/src/domain/servers.ts\<close>). Directory listings, file contents,
  metrics and configuration reports pass through unread: they are a type parameter.
\<close>

datatype AgentMode = Live | Installed | Embedded

record AgentInstallInfo =
  ai_defaultInstallDir :: string
  ai_defaultDataDir :: string
  ai_defaultsUsable :: bool

record SystemInfo =
  si_hostname :: string
  si_os :: string
  si_kernel :: string
  si_arch :: string
  si_primaryIp :: string
  si_cpuModel :: string
  si_cpuCores :: int
  si_uptimeSeconds :: int
  si_capturedAt :: ms
  si_agentVersion :: "string option"
  si_install :: "AgentInstallInfo option"

type_synonym HostCapabilityReport = "(string, HostCapabilityResult) jsmap"

datatype InstallMechanism = Systemd | Manual

record InstallProbeResult =
  ip_exists :: bool
  ip_writable :: bool
  ip_execCapable :: bool

record NodeExecResult =
  er_stdout :: string
  er_stderr :: string
  er_code :: int

record ResolvedPath =
  rv_path :: string
  rv_realPath :: string

record NodeHttpResult =
  nh_status :: int
  nh_body :: string

datatype 'p NodeMessage =
    Identify string SystemInfo string AgentMode "string list option" "HostCapabilityReport option"
  | Metrics 'p
  | ExecResponse string NodeExecResult
  | ExecChunk string string string
  | ExecStreamEnd string int
  | ListDirResponse string 'p
  | ReadFileResponse string 'p
  | WriteFileResponse string
  | UploadFileResponse string
  | UploadChunkResponse string nat
  | CreateDirResponse string
  | DeletePathResponse string
  | RenameResponse string
  | ShellData string string
  | ShellExit string "int option"
  | HttpResponse string NodeHttpResult
  | StunResponse string "string option"
  | ProbeInstallPathResponse string InstallProbeResult
  | InstallServiceResponse string "string option"
  | UpdateServiceResponse string
  | HostCapabilitiesResponse string HostCapabilityReport
  | AgentConfigResponse string 'p
  | ResolvePathsResponse string "ResolvedPath list"
  | Pong
  | NodeError "string option" string

datatype ControlMessage =
    Acknowledged string bool
  | ExecRequest string string
  | ExecStreamRequest string string
  | ExecArgvRequest string "string list" "string option" "(string, string) jsmap option" "string option"
  | ExecArgvStreamRequest string "string list" "string option" "(string, string) jsmap option"
  | ResolvePathsRequest string "string list"
  | ListDirRequest string string
  | ReadFileRequest string string
  | WriteFileRequest string string string
  | UploadFileRequest string string "char list"
  | UploadChunkRequest string string string nat "char list" bool
  | UploadAbort string
  | CreateDirRequest string string
  | DeletePathRequest string string
  | RenamePathRequest string string string
  | OpenShell string int int "string option" "string option"
  | ShellInput string string
  | ShellResize string int int
  | CloseShell string
  | HttpRequest string string string "string option" "string option"
  | StunRequest string
  | ProbeInstallPathRequest string string
  | InstallService string string "string option" "string option" InstallMechanism bool
  | UpdateService string string bool
  | HostCapabilitiesRequest string
  | AgentConfigRequest string
  | Ping

text \<open>\<open>(msg as { requestId?: string }).requestId\<close>\<close>

fun requestId_of :: "'p NodeMessage \<Rightarrow> string option" where
  "requestId_of (ExecResponse i _) = Some i"
| "requestId_of (ExecChunk i _ _) = Some i"
| "requestId_of (ExecStreamEnd i _) = Some i"
| "requestId_of (ListDirResponse i _) = Some i"
| "requestId_of (ReadFileResponse i _) = Some i"
| "requestId_of (WriteFileResponse i) = Some i"
| "requestId_of (UploadFileResponse i) = Some i"
| "requestId_of (UploadChunkResponse i _) = Some i"
| "requestId_of (CreateDirResponse i) = Some i"
| "requestId_of (DeletePathResponse i) = Some i"
| "requestId_of (RenameResponse i) = Some i"
| "requestId_of (HttpResponse i _) = Some i"
| "requestId_of (StunResponse i _) = Some i"
| "requestId_of (ProbeInstallPathResponse i _) = Some i"
| "requestId_of (InstallServiceResponse i _) = Some i"
| "requestId_of (UpdateServiceResponse i) = Some i"
| "requestId_of (HostCapabilitiesResponse i _) = Some i"
| "requestId_of (AgentConfigResponse i _) = Some i"
| "requestId_of (ResolvePathsResponse i _) = Some i"
| "requestId_of (NodeError i _) = i"
| "requestId_of _ = None"

definition METRICS_HISTORY_MAX :: nat where
  "METRICS_HISTORY_MAX = 720"

definition AGENT_CAPABILITIES :: "string list" where
  "AGENT_CAPABILITIES = [''httpRequest'', ''stun'', ''heartbeat'', ''hostCapabilities'', ''execStream'',
     ''shellAsUser'', ''execArgv'', ''resolvePaths'', ''uploadChunk'', ''agentConfig'']"

end
