(* ===== verification/Js_Text.thy ===== *)
theory Js_Text
  imports Prelude
begin

text \<open>
  Text and numbers as the parsers of the control plane read and print them: decimal and
  hexadecimal numerals, \<open>Number(...)\<close> of a string, \<open>split\<close> at a longer separator and the
  breaking of a string at the first or last occurrence of a character.
\<close>

subsection \<open>Numerals\<close>

definition digit_char :: "nat \<Rightarrow> char" where
  "digit_char d = (if d < 10 then char_of (48 + d) else char_of (87 + d))"

definition digit_val :: "char \<Rightarrow> nat option" where
  "digit_val c =
     (let n = of_char c :: nat
      in if 48 \<le> n \<and> n \<le> 57 then Some (n - 48)
         else if 97 \<le> n \<and> n \<le> 122 then Some (n - 87)
         else if 65 \<le> n \<and> n \<le> 90 then Some (n - 55)
         else None)"

definition is_digit_of :: "nat \<Rightarrow> char \<Rightarrow> bool" where
  "is_digit_of b c \<longleftrightarrow> (case digit_val c of None \<Rightarrow> False | Some d \<Rightarrow> d < b)"

text \<open>\<open>n.toString(b)\<close> for a natural number.\<close>

fun to_radix :: "nat \<Rightarrow> nat \<Rightarrow> string" where
  "to_radix b n = (if b < 2 \<or> n < b then [digit_char n]
                   else to_radix b (n div b) @ [digit_char (n mod b)])"

declare to_radix.simps [simp del]

text \<open>The value of a non-empty run of digits.\<close>

definition of_radix :: "nat \<Rightarrow> string \<Rightarrow> nat" where
  "of_radix b s = foldl (\<lambda>a c. a * b + (case digit_val c of None \<Rightarrow> 0 | Some d \<Rightarrow> d)) 0 s"

lemma digit_val_char: "d < 16 \<Longrightarrow> digit_val (digit_char d) = Some d"
  by (simp add: digit_char_def digit_val_def Let_def of_char_of)

lemma is_digit_of_char: "d < b \<Longrightarrow> b \<le> 16 \<Longrightarrow> is_digit_of b (digit_char d)"
  by (simp add: is_digit_of_def digit_val_char)

lemma of_radix_snoc: "of_radix b (s @ [c]) = of_radix b s * b + (case digit_val c of None \<Rightarrow> 0 | Some d \<Rightarrow> d)"
  by (simp add: of_radix_def)

lemma of_radix_to_radix: "2 \<le> b \<Longrightarrow> b \<le> 16 \<Longrightarrow> of_radix b (to_radix b n) = n"
proof (induction b n rule: to_radix.induct)
  case (1 b n)
  show ?case
  proof (cases "n < b")
    case True
    with "1.prems" show ?thesis
      by (simp add: to_radix.simps [of b n] of_radix_def digit_val_char)
  next
    case False
    moreover have "n mod b < 16" using "1.prems" mod_less_divisor [of b n] by linarith
    ultimately show ?thesis
      using "1.IH" "1.prems" by (simp add: to_radix.simps [of b n] of_radix_snoc digit_val_char)
  qed
qed

lemma to_radix_digits: "2 \<le> b \<Longrightarrow> b \<le> 16 \<Longrightarrow> list_all (is_digit_of b) (to_radix b n)"
proof (induction b n rule: to_radix.induct)
  case (1 b n)
  then show ?case
    by (cases "n < b") (simp_all add: to_radix.simps [of b n] is_digit_of_char)
qed

lemma to_radix_not_Nil [simp]: "to_radix b n \<noteq> []"
  by (subst to_radix.simps) simp

lemma length_to_radix: "2 \<le> b \<Longrightarrow> n < b ^ k \<Longrightarrow> 0 < k \<Longrightarrow> length (to_radix b n) \<le> k"
proof (induction b n arbitrary: k rule: to_radix.induct)
  case (1 b n)
  show ?case
  proof (cases "n < b")
    case True
    with "1.prems" show ?thesis by (simp add: to_radix.simps [of b n])
  next
    case False
    with "1.prems" obtain j where k: "k = Suc j" "0 < j"
      by (cases k; cases "k - 1") auto
    with "1.prems" have "n div b < b ^ j" by (simp add: less_mult_imp_div_less mult.commute)
    with "1.IH" False "1.prems" k show ?thesis by (simp add: to_radix.simps [of b n])
  qed
qed

lemma digit_ne: "is_digit_of b c \<Longrightarrow> digit_val d = None \<Longrightarrow> c \<noteq> d"
  by (auto simp: is_digit_of_def)

lemma is_digit_iff: "is_digit c \<longleftrightarrow> is_digit_of 10 c"
  by (auto simp: is_digit_def is_digit_of_def digit_val_def Let_def)

lemma is_digit_of_mono: "is_digit_of b c \<Longrightarrow> b \<le> b' \<Longrightarrow> is_digit_of b' c"
  by (auto simp: is_digit_of_def split: option.splits)

subsection \<open>Number of a string\<close>

text \<open>
  \<open>Number(s)\<close> as far as \<open>Number.isInteger\<close> accepts it: \<open>Some n\<close> when the text denotes the
  integer \<open>n\<close>, \<open>None\<close> for a fraction, an infinity or no number. White space around it is
  dropped, the empty text is zero, and the prefixed forms take no sign. Decimal literals are
  read exactly; the rounding of more than fifteen significant digits is left out.
\<close>

definition js_sign :: "string \<Rightarrow> int \<times> string" where
  "js_sign s = (case s of
      CHR ''-'' # r \<Rightarrow> (-1, r)
    | CHR ''+'' # r \<Rightarrow> (1, r)
    | _ \<Rightarrow> (1, s))"

definition js_decimal :: "string \<Rightarrow> int option" where
  "js_decimal s =
     (let (sgn, t) = js_sign s;
          ip = takeWhile is_digit t; r1 = dropWhile is_digit t;
          (fp, r2) = (case r1 of CHR ''.'' # r \<Rightarrow> (takeWhile is_digit r, dropWhile is_digit r)
                              | _ \<Rightarrow> ([], r1))
      in if ip @ fp = [] then None
         else let m = sgn * int (of_radix 10 (ip @ fp))
              in case r2 of
                   [] \<Rightarrow> (if m mod 10 ^ length fp = 0 then Some (m div 10 ^ length fp) else None)
                 | e # r3 \<Rightarrow>
                     (let (esgn, ds) = js_sign r3; x = esgn * int (of_radix 10 ds) - int (length fp)
                      in if e \<notin> {CHR ''e'', CHR ''E''} \<or> ds = [] \<or> \<not> list_all is_digit ds then None
                         else if 0 \<le> x then Some (m * 10 ^ nat x)
                         else if m mod 10 ^ nat (- x) = 0 then Some (m div 10 ^ nat (- x)) else None))"

definition js_Number :: "string \<Rightarrow> int option" where
  "js_Number s =
     (let t = js_trim s; pre = map js_lower_char (take 2 t); ds = drop 2 t;
          prefixed = (\<lambda>b. if ds \<noteq> [] \<and> list_all (is_digit_of b) ds then Some (int (of_radix b ds)) else None)
      in if t = [] then Some 0
         else if pre = ''0x'' then prefixed 16
         else if pre = ''0o'' then prefixed 8
         else if pre = ''0b'' then prefixed 2
         else js_decimal t)"

subsection \<open>Splitting and breaking\<close>

text \<open>\<open>s.split(sep)\<close> at a separator of one or more characters.\<close>

fun split_str :: "string \<Rightarrow> string \<Rightarrow> string list" where
  "split_str sep [] = [[]]"
| "split_str sep (x # xs) =
     (if prefix sep (x # xs) then [] # split_str sep (drop (length sep - 1) xs)
      else case split_str sep xs of [] \<Rightarrow> [[x]] | y # ys \<Rightarrow> (x # y) # ys)"

lemma split_str_not_Nil [simp]: "split_str sep s \<noteq> []"
  by (cases s) (auto split: list.splits)

text \<open>Text before and after the first, or the last, occurrence of a character.\<close>

definition break_first :: "char \<Rightarrow> string \<Rightarrow> (string \<times> string) option" where
  "break_first c s =
     (case dropWhile (\<lambda>x. x \<noteq> c) s of [] \<Rightarrow> None | _ # r \<Rightarrow> Some (takeWhile (\<lambda>x. x \<noteq> c) s, r))"

definition break_last :: "char \<Rightarrow> string \<Rightarrow> (string \<times> string) option" where
  "break_last c s = map_option (\<lambda>(b, a). (rev a, rev b)) (break_first c (rev s))"

lemma break_first_Some: "break_first c s = Some (a, b) \<longleftrightarrow> s = a @ c # b \<and> c \<notin> set a"
proof
  assume h: "break_first c s = Some (a, b)"
  then obtain y where y: "dropWhile (\<lambda>x. x \<noteq> c) s = y # b" "a = takeWhile (\<lambda>x. x \<noteq> c) s"
    by (auto simp: break_first_def split: list.splits)
  then have "y = c" using hd_dropWhile [of "\<lambda>x. x \<noteq> c" s] by simp
  with y takeWhile_dropWhile_id [of "\<lambda>x. x \<noteq> c" s] have "s = a @ c # b" by simp
  moreover have "c \<notin> set a" using y(2) by (auto dest: set_takeWhileD)
  ultimately show "s = a @ c # b \<and> c \<notin> set a" ..
next
  assume "s = a @ c # b \<and> c \<notin> set a"
  then show "break_first c s = Some (a, b)"
    by (auto simp: break_first_def dropWhile_append takeWhile_append) 
qed

lemma break_first_None: "break_first c s = None \<longleftrightarrow> c \<notin> set s"
proof -
  have "dropWhile (\<lambda>x. x \<noteq> c) s = [] \<longleftrightarrow> c \<notin> set s" by (auto simp: dropWhile_eq_Nil_conv)
  then show ?thesis
    by (cases "dropWhile (\<lambda>x. x \<noteq> c) s") (simp_all add: break_first_def del: dropWhile_eq_Nil_conv)
qed

text \<open>Dropping one given character at either end: \<open>replace(/^x|y$/g, "")\<close>.\<close>

definition strip_ends :: "char \<Rightarrow> char \<Rightarrow> string \<Rightarrow> string" where
  "strip_ends x y s =
     (let t = (case s of [] \<Rightarrow> [] | c # r \<Rightarrow> if c = x then r else s)
      in if s \<noteq> [] \<and> last s = y \<and> t \<noteq> [] then butlast t else t)"

lemma strip_ends_id: "s \<noteq> [] \<Longrightarrow> hd s \<noteq> x \<Longrightarrow> last s \<noteq> y \<Longrightarrow> strip_ends x y s = s"
  by (cases s) (auto simp: strip_ends_def)

lemma js_trim_id:
  assumes "s \<noteq> []" "\<not> js_ws (hd s)" "\<not> js_ws (last s)"
  shows "js_trim s = s"
proof -
  have "dropWhile js_ws s = s" using assms by (cases s) auto
  moreover have "dropWhile js_ws (rev s) = rev s" using assms by (cases "rev s") (auto simp: last_rev [symmetric] hd_rev)
  ultimately show ?thesis by (simp add: js_trim_def)
qed

end
