(* ===== verification/Shell_Quote.thy ===== *)
theory Shell_Quote
  imports Js_Text
begin

text \<open>
  Command lines: an argv rendered for a shell (\<open>apps/server/src/shell-quote.ts\<close>), the output of a
  command cut into lines (\<open>exec-lines.ts\<close>), and the guarded log options (\<open>log-query.ts\<close>). The
  reading side of quoting is written out here after the POSIX rules, as the specification the
  renderer is measured against.
\<close>

subsection \<open>Rendering\<close>

definition shQuote :: "string \<Rightarrow> string" where
  "shQuote v =
     [CHR 0x27] @ concat (map (\<lambda>c. if c = CHR 0x27 then [CHR 0x27, CHR 0x5C, CHR 0x27, CHR 0x27] else [c]) v)
       @ [CHR 0x27]"

text \<open>\<open>/^[A-Za-z_][A-Za-z0-9_]*$/\<close>\<close>

definition ENV_NAME_RE :: "string \<Rightarrow> bool" where
  "ENV_NAME_RE s \<longleftrightarrow> s \<noteq> [] \<and> (is_alpha (hd s) \<or> hd s = CHR ''_'')
     \<and> list_all (\<lambda>c. is_alpha c \<or> is_digit c \<or> c = CHR ''_'') (tl s)"

datatype exec_error =
    EmptyArgv
  | BadEnvName string
  | InvalidPathPattern string
  | AgentTooOld string
  | RequestError string

record ExecOptions =
  ex_cwd :: "string option"
  ex_env :: "(string, string) jsmap option"
  ex_detach :: "string option"

definition no_options :: ExecOptions where
  "no_options = \<lparr>ex_cwd = None, ex_env = None, ex_detach = None\<rparr>"

fun env_parts :: "(string, string) jsmap \<Rightarrow> exec_error + string list" where
  "env_parts [] = Inr []"
| "env_parts ((name, val) # rest) =
     (if \<not> ENV_NAME_RE name then Inl (BadEnvName name)
      else case env_parts rest of
             Inl e \<Rightarrow> Inl e
           | Inr ps \<Rightarrow> Inr ((name @ ''='' @ shQuote val) # ps))"

definition shellCommandFor :: "string list \<Rightarrow> ExecOptions \<Rightarrow> exec_error + string" where
  "shellCommandFor argv opts =
     (if argv = [] then Inl EmptyArgv
      else case env_parts (case ex_env opts of None \<Rightarrow> [] | Some m \<Rightarrow> m) of
             Inl e \<Rightarrow> Inl e
           | Inr ps \<Rightarrow>
               (let command = join '' '' (ps @ map shQuote argv)
                in case ex_cwd opts of
                     None \<Rightarrow> Inr command
                   | Some dir \<Rightarrow> if dir = [] then Inr command
                                 else Inr (''cd '' @ shQuote dir @ '' && '' @ command)))"

subsection \<open>A POSIX reader\<close>

text \<open>
  The token rules for the operators in use here: blanks separate words, single quotes take
  everything up to the next one, a backslash takes the next character, \<open>&&\<close> is an operator, and
  every other character with a meaning to the shell is refused. A character of a word remembers
  whether it was quoted; a word that has begun is \<open>Some\<close>.
\<close>

datatype token = Word "(char \<times> bool) list" | AndIf

definition meta :: "char \<Rightarrow> bool" where
  "meta c \<longleftrightarrow> c \<in> set (''&|;<>()$`*?[#~!{}'' @ [CHR 0x0A, CHR 0x22])"

definition end_word :: "(char \<times> bool) list option \<Rightarrow> token list" where
  "end_word w = (case w of None \<Rightarrow> [] | Some cs \<Rightarrow> [Word cs])"

definition grow :: "(char \<times> bool) list option \<Rightarrow> (char \<times> bool) list \<Rightarrow> (char \<times> bool) list option" where
  "grow w cs = Some ((case w of None \<Rightarrow> [] | Some ds \<Rightarrow> ds) @ cs)"

fun read_tokens :: "bool \<Rightarrow> (char \<times> bool) list option \<Rightarrow> string \<Rightarrow> token list option" where
  "read_tokens True w [] = None"
| "read_tokens True w (c # s) =
     (if c = CHR 0x27 then read_tokens False w s else read_tokens True (grow w [(c, True)]) s)"
| "read_tokens False w [] = Some (end_word w)"
| "read_tokens False w (c # s) =
     (if c = CHR 0x27 then read_tokens True (grow w []) s
      else if c = CHR 0x5C then (case s of [] \<Rightarrow> None | d # s' \<Rightarrow> read_tokens False (grow w [(d, True)]) s')
      else if c = CHR '' '' \<or> c = CHR 0x09 then map_option ((@) (end_word w)) (read_tokens False None s)
      else if c = CHR ''&'' \<and> s \<noteq> [] \<and> hd s = CHR ''&''
        then map_option (\<lambda>ts. end_word w @ AndIf # ts) (read_tokens False None (tl s))
      else if meta c then None
      else read_tokens False (grow w [(c, False)]) s)"

text \<open>
  A simple command: leading assignments, whose name and equals sign are unquoted, then the
  words. A chain \<open>cd D && C\<close> is \<open>C\<close> run in the directory \<open>D\<close>.
\<close>

definition assignment :: "(char \<times> bool) list \<Rightarrow> (string \<times> string) option" where
  "assignment cs =
     (let name = takeWhile (\<lambda>(c, q). \<not> q \<and> c \<noteq> CHR ''='') cs; rest = drop (length name) cs
      in if rest \<noteq> [] \<and> hd rest = (CHR ''='', False) \<and> ENV_NAME_RE (map fst name)
         then Some (map fst name, map fst (tl rest)) else None)"

record sh_command =
  sh_dir :: "string option"
  sh_env :: "(string \<times> string) list"
  sh_argv :: "string list"

fun simple_command :: "token list \<Rightarrow> (string \<times> string) list \<Rightarrow> sh_command option" where
  "simple_command (Word cs # ts) env =
     (case assignment cs of
        Some a \<Rightarrow> simple_command ts (env @ [a])
      | None \<Rightarrow>
          if list_all (\<lambda>t. t \<noteq> AndIf) ts
          then Some \<lparr>sh_dir = None, sh_env = env,
            sh_argv = map fst cs # map (\<lambda>t. case t of Word ds \<Rightarrow> map fst ds | AndIf \<Rightarrow> []) ts\<rparr>
          else None)"
| "simple_command _ _ = None"

definition read_command :: "string \<Rightarrow> sh_command option" where
  "read_command s =
     (case read_tokens False None s of
        Some (Word c # Word d # AndIf # ts) \<Rightarrow>
          if c = [(CHR ''c'', False), (CHR ''d'', False)]
          then map_option (\<lambda>cmd. cmd\<lparr>sh_dir := Some (map fst d)\<rparr>) (simple_command ts [])
          else None
      | Some ts \<Rightarrow> simple_command ts []
      | None \<Rightarrow> None)"

subsection \<open>What is rendered reads back\<close>

definition quoted :: "string \<Rightarrow> (char \<times> bool) list" where
  "quoted v = map (\<lambda>c. (c, True)) v"

definition plain :: "string \<Rightarrow> (char \<times> bool) list" where
  "plain v = map (\<lambda>c. (c, False)) v"

lemma grow_grow [simp]: "grow (grow w a) b = grow w (a @ b)"
  by (simp add: grow_def)

lemma read_quoted:
  "read_tokens True (grow w [])
     (concat (map (\<lambda>c. if c = CHR 0x27 then [CHR 0x27, CHR 0x5C, CHR 0x27, CHR 0x27] else [c]) v)
        @ CHR 0x27 # rest)
     = read_tokens False (grow w (quoted v)) rest"
proof (induction v arbitrary: w)
  case (Cons c v)
  then show ?case
    using Cons [of "grow w [(c, True)]"] by (cases "c = CHR 0x27") (simp_all add: quoted_def)
qed (simp add: quoted_def)

lemma read_shQuote: "read_tokens False w (shQuote v @ rest) = read_tokens False (grow w (quoted v)) rest"
  using read_quoted [of w v rest] by (simp add: shQuote_def)

lemma read_plain:
  "list_all (\<lambda>c. \<not> meta c \<and> c \<notin> {CHR 0x27, CHR 0x5C, CHR '' '', CHR 0x09}) v \<Longrightarrow> v \<noteq> [] \<or> w \<noteq> None \<Longrightarrow>
   read_tokens False w (v @ rest) = read_tokens False (if v = [] then w else grow w (plain v)) rest"
proof (induction v arbitrary: w)
  case (Cons c v)
  have "c \<noteq> CHR ''&''" using Cons.prems(1) by (auto simp: meta_def)
  then have "read_tokens False w ((c # v) @ rest) = read_tokens False (grow w [(c, False)]) (v @ rest)"
    using Cons.prems(1) by simp
  also have "\<dots> = read_tokens False (if v = [] then grow w [(c, False)] else grow (grow w [(c, False)]) (plain v)) rest"
    by (rule Cons.IH) (use Cons.prems in \<open>auto simp: grow_def\<close>)
  finally show ?case by (simp add: plain_def)
qed simp

lemma env_name_chars: "ENV_NAME_RE s \<Longrightarrow>
    list_all (\<lambda>c. \<not> meta c \<and> c \<notin> {CHR 0x27, CHR 0x5C, CHR '' '', CHR 0x09} \<and> c \<noteq> CHR ''='') s"
  by (cases s) (auto simp: ENV_NAME_RE_def meta_def list_all_iff is_alpha_def is_lower_alpha_def is_digit_def)

definition env_word :: "string \<times> string \<Rightarrow> (char \<times> bool) list" where
  "env_word p = plain (fst p) @ (CHR ''='', False) # quoted (snd p)"

lemma read_env_part: "ENV_NAME_RE name \<Longrightarrow>
    read_tokens False None (name @ ''='' @ shQuote val @ rest)
      = read_tokens False (Some (env_word (name, val))) rest"
proof -
  assume n: "ENV_NAME_RE name"
  then have ne: "name \<noteq> []" by (simp add: ENV_NAME_RE_def)
  have "list_all (\<lambda>c. \<not> meta c \<and> c \<notin> {CHR 0x27, CHR 0x5C, CHR '' '', CHR 0x09}) (name @ ''='')"
    using env_name_chars [OF n] by (auto simp: list_all_iff meta_def)
  from read_plain [OF this, of None "shQuote val @ rest"]
  have "read_tokens False None (name @ ''='' @ shQuote val @ rest)
      = read_tokens False (grow None (plain (name @ ''=''))) (shQuote val @ rest)" by simp
  then show ?thesis by (simp only: read_shQuote) (simp add: grow_def env_word_def plain_def)
qed

text \<open>A word that has been read: its token, wherever it stands in the line.\<close>

definition reads_as :: "string \<Rightarrow> (char \<times> bool) list \<Rightarrow> bool" where
  "reads_as s cs \<longleftrightarrow> (\<forall>rest. read_tokens False None (s @ rest) = read_tokens False (Some cs) rest)"

lemma reads_shQuote: "reads_as (shQuote v) (quoted v)"
  by (simp add: reads_as_def read_shQuote) (simp add: grow_def)

lemma reads_env: "ENV_NAME_RE name \<Longrightarrow> reads_as (name @ ''='' @ shQuote val) (env_word (name, val))"
  using read_env_part by (simp add: reads_as_def)

lemma reads_join:
  "list_all2 reads_as ss css \<Longrightarrow> ss \<noteq> [] \<Longrightarrow>
   read_tokens False None (join '' '' ss) = Some (map Word css)"
proof (induction ss css rule: list_all2_induct)
  case (Cons s ss cs css)
  show ?case
  proof (cases ss)
    case Nil
    with Cons have "css = []" by simp
    then show ?thesis using Cons.hyps(1) Nil by (simp add: reads_as_def end_word_def split: list.splits)
         (metis append_Nil2 end_word_def option.simps(5) read_tokens.simps(3))
  next
    case (Cons s' ss')
    have "read_tokens False None (s @ '' '' @ join '' '' ss)
        = read_tokens False (Some cs) ('' '' @ join '' '' ss)"
      using Cons.hyps(1) by (simp add: reads_as_def)
    then show ?thesis using Cons Cons.IH by (simp add: end_word_def)
  qed
qed simp

lemma assignment_env: "ENV_NAME_RE (fst p) \<Longrightarrow> assignment (env_word p) = Some p"
proof -
  assume n: "ENV_NAME_RE (fst p)"
  have "takeWhile (\<lambda>(c, q). \<not> q \<and> c \<noteq> CHR ''='') (env_word p) = plain (fst p)"
    using env_name_chars [OF n]
    by (subst env_word_def, subst takeWhile_append2) (auto simp: plain_def list_all_iff)
  then show ?thesis using n by (simp add: assignment_def env_word_def plain_def quoted_def comp_def)
qed

lemma assignment_quoted: "assignment (quoted v) = None"
  by (cases v) (simp_all add: assignment_def quoted_def ENV_NAME_RE_def)

lemma simple_command_words:
  "list_all (\<lambda>p. ENV_NAME_RE (fst p)) env \<Longrightarrow> argv \<noteq> [] \<Longrightarrow>
   simple_command (map Word (map env_word env @ map quoted argv)) acc
     = Some \<lparr>sh_dir = None, sh_env = acc @ env, sh_argv = argv\<rparr>"
proof (induction env arbitrary: acc)
  case Nil
  then obtain a as where "argv = a # as" by (cases argv) auto
  then show ?case
    by (simp add: assignment_quoted list_all_iff comp_def) (simp add: quoted_def comp_def)
qed (simp add: assignment_env)

lemma env_parts_Inr: "env_parts env = Inr ps \<Longrightarrow>
    list_all (\<lambda>p. ENV_NAME_RE (fst p)) env \<and> list_all2 reads_as ps (map env_word env)"
  by (induction env arbitrary: ps rule: env_parts.induct) (auto simp: reads_env [simplified] split: if_splits sum.splits)

lemma read_command_words: "read_tokens False None s = Some ts \<Longrightarrow> list_all (\<lambda>t. t \<noteq> AndIf) ts \<Longrightarrow>
    read_command s = simple_command ts []"
  by (auto simp: read_command_def split: list.splits token.splits)

lemma read_cd: "read_tokens False None command = Some ts \<Longrightarrow>
    read_command (''cd '' @ shQuote dir @ '' && '' @ command)
      = map_option (\<lambda>cmd. cmd\<lparr>sh_dir := Some dir\<rparr>) (simple_command ts [])"
proof -
  assume c: "read_tokens False None command = Some ts"
  have "read_tokens False None (''cd'' @ '' '' @ shQuote dir @ '' && '' @ command)
      = read_tokens False (grow None (plain ''cd'')) ('' '' @ shQuote dir @ '' && '' @ command)"
    using read_plain [of "''cd''" None "'' '' @ shQuote dir @ '' && '' @ command"] by (simp add: meta_def)
  also have "\<dots> = Some (Word (plain ''cd'') # Word (quoted dir) # AndIf # ts)"
    using c by (simp add: grow_def end_word_def read_shQuote)
  finally show ?thesis by (simp add: read_command_def plain_def quoted_def comp_def)
qed


subsection \<open>Output by the line\<close>

text \<open>
  \<open>runStreamingLines\<close>: what is logged for the chunks of a stream, which end with the process;
  a buffer per stream holds back the line that has no end yet.
\<close>

record line_buffers =
  lb_stdout :: string
  lb_stderr :: string

definition buffer_of :: "bool \<Rightarrow> line_buffers \<Rightarrow> string" where
  "buffer_of err b = (if err then lb_stderr b else lb_stdout b)"

definition set_buffer :: "bool \<Rightarrow> string \<Rightarrow> line_buffers \<Rightarrow> line_buffers" where
  "set_buffer err s b = (if err then b\<lparr>lb_stderr := s\<rparr> else b\<lparr>lb_stdout := s\<rparr>)"

definition on_chunk :: "bool \<Rightarrow> string \<Rightarrow> line_buffers \<Rightarrow> (bool \<times> string) list \<times> line_buffers" where
  "on_chunk err data b =
     (let lines = split_on (CHR 0x0A) (buffer_of err b @ data)
      in (map (Pair err) (butlast lines), set_buffer err (last lines) b))"

fun on_chunks :: "(bool \<times> string) list \<Rightarrow> line_buffers \<Rightarrow> (bool \<times> string) list \<times> line_buffers" where
  "on_chunks [] b = ([], b)"
| "on_chunks ((err, data) # rest) b =
     (case on_chunk err data b of (out, b1) \<Rightarrow>
        (case on_chunks rest b1 of (out', b2) \<Rightarrow> (out @ out', b2)))"

definition flush_buffer :: "bool \<Rightarrow> line_buffers \<Rightarrow> (bool \<times> string) list" where
  "flush_buffer err b = (if js_trim (buffer_of err b) \<noteq> [] then [(err, buffer_of err b)] else [])"

definition runStreamingLines :: "(bool \<times> string) list \<Rightarrow> (bool \<times> string) list" where
  "runStreamingLines chunks =
     (case on_chunks chunks \<lparr>lb_stdout = [], lb_stderr = []\<rparr> of (out, b) \<Rightarrow>
        out @ flush_buffer False b @ flush_buffer True b)"

text \<open>The text of one stream, and the lines it comes to.\<close>

definition stream_text :: "bool \<Rightarrow> (bool \<times> string) list \<Rightarrow> string" where
  "stream_text err chunks = concat (map snd (filter (\<lambda>(e, _). e = err) chunks))"

definition logged_lines :: "string \<Rightarrow> string list" where
  "logged_lines s =
     (let lines = split_on (CHR 0x0A) s
      in butlast lines @ (if js_trim (last lines) \<noteq> [] then [last lines] else []))"

lemma split_on_append: "split_on c (a @ b) = butlast (split_on c a) @ split_on c (last (split_on c a) @ b)"
proof (induction a)
  case (Cons x a)
  show ?case
  proof (cases "x = c")
    case False
    obtain y ys where y: "split_on c a = y # ys" by (cases "split_on c a") (auto simp: split_on_not_Nil)
    show ?thesis
    proof (cases ys)
      case Nil
      with Cons False y show ?thesis by simp
    next
      case (Cons z zs)
      with \<open>split_on c (a @ b) = _\<close> False y show ?thesis by simp
    qed
  qed (use Cons in \<open>simp add: split_on_not_Nil\<close>)
qed simp

lemma last_split_on: "c \<notin> set (last (split_on c s))"
  by (induction c s rule: split_on.induct) (auto split: list.splits if_splits)

lemma buffer_set [simp]: "buffer_of err (set_buffer err' s b) = (if err' = err then s else buffer_of err b)"
  by (auto simp: buffer_of_def set_buffer_def)

lemma on_chunks_lines:
  "on_chunks chunks b = (out, b') \<Longrightarrow> CHR 0x0A \<notin> set (buffer_of err b) \<Longrightarrow>
   split_on (CHR 0x0A) (buffer_of err b @ stream_text err chunks)
     = map snd (filter (\<lambda>(e, _). e = err) out) @ [buffer_of err b'] \<and> CHR 0x0A \<notin> set (buffer_of err b')"
proof (induction chunks b arbitrary: out b' rule: on_chunks.induct)
  case (1 b)
  then show ?case by (auto simp: stream_text_def split_on_free)
next
  case (2 e data rest b)
  obtain o1 b1 where 1: "on_chunk e data b = (o1, b1)" by fastforce
  obtain o2 b2 where r: "on_chunks rest b1 = (o2, b2)" by fastforce
  from 2(2) 1 r have out: "out = o1 @ o2" "b' = b2" by auto
  let ?lines = "split_on (CHR 0x0A) (buffer_of e b @ data)"
  have o1: "o1 = map (Pair e) (butlast ?lines)" "b1 = set_buffer e (last ?lines) b"
    using 1 by (auto simp: on_chunk_def Let_def)
  have nl: "CHR 0x0A \<notin> set (buffer_of err b1)"
    using 2(3) last_split_on by (auto simp: o1)
  note IH = 2(1) [OF 1 [symmetric] r nl]
  show ?case
  proof (cases "e = err")
    case True
    have "split_on (CHR 0x0A) (buffer_of err b @ data @ stream_text err rest)
        = butlast ?lines @ split_on (CHR 0x0A) (last ?lines @ stream_text err rest)"
      using split_on_append [of _ "buffer_of err b @ data"] True by simp
    moreover have "map snd (filter (\<lambda>(a, _). a = err) o1) = butlast ?lines"
      using True by (simp add: o1 comp_def filter_map)
    ultimately show ?thesis using IH True out by (simp add: o1 stream_text_def)
  next
    case False
    then show ?thesis using IH out by (simp add: o1 stream_text_def filter_map comp_def)
  qed
qed

lemma streamed_lines:
  "map snd (filter (\<lambda>(e, _). e = err) (runStreamingLines chunks)) = logged_lines (stream_text err chunks)"
proof -
  obtain out b where c: "on_chunks chunks \<lparr>lb_stdout = [], lb_stderr = []\<rparr> = (out, b)" by fastforce
  have "split_on (CHR 0x0A) (stream_text err chunks) = map snd (filter (\<lambda>(e, _). e = err) out) @ [buffer_of err b]"
    using on_chunks_lines [OF c, of err] by (cases err) (simp_all add: buffer_of_def)
  moreover have "map snd (filter (\<lambda>(e, _). e = err) (flush_buffer False b @ flush_buffer True b))
      = (if js_trim (buffer_of err b) \<noteq> [] then [buffer_of err b] else [])"
    by (cases err) (auto simp: flush_buffer_def)
  ultimately show ?thesis by (simp add: runStreamingLines_def c logged_lines_def)
qed

subsection \<open>Guarded log options\<close>

definition JOURNAL_SINCE :: "(string, string) jsmap" where
  "JOURNAL_SINCE = [(''15m'', ''15 min ago''), (''1h'', ''1 hour ago''), (''6h'', ''6 hours ago''),
     (''24h'', ''24 hours ago'')]"

definition SINCE_TOKENS :: "string list" where "SINCE_TOKENS = keys JOURNAL_SINCE"

definition journalSince :: "string option \<Rightarrow> string option" where
  "journalSince since =
     (case since of None \<Rightarrow> None
      | Some s \<Rightarrow> if s \<noteq> [] \<and> s \<in> set SINCE_TOKENS then look JOURNAL_SINCE s else None)"

definition dockerSince :: "string option \<Rightarrow> string option" where
  "dockerSince since =
     (case since of None \<Rightarrow> None | Some s \<Rightarrow> if s \<noteq> [] \<and> s \<in> set SINCE_TOKENS then Some s else None)"

definition PRIORITIES :: "string list" where
  "PRIORITIES = [''emerg'', ''alert'', ''crit'', ''err'', ''warning'', ''notice'', ''info'', ''debug'']"

definition journalPriority :: "string option \<Rightarrow> string option" where
  "journalPriority p =
     (case p of None \<Rightarrow> None | Some s \<Rightarrow> if s \<noteq> [] \<and> s \<in> set PRIORITIES then Some s else None)"

definition reverseLines :: "string \<Rightarrow> string" where
  "reverseLines txt =
     (let lines = split_on (CHR 0x0A) txt
      in join [CHR 0x0A] (rev (if lines \<noteq> [] \<and> last lines = [] then butlast lines else lines)))"

end
