(* ===== verification/Host_Agent.thy ===== *)
theory Host_Agent
  imports Node_Protocol Shell_Quote
begin

text \<open>
  The control plane's handle of a host (\<open>apps/server/src/host-agent.ts\<close>): requests awaiting their
  reply, streamed commands, shells, metrics, and how an operation is phrased for an agent that
  does or does not know it. An event list records what an operation does outside the handle.
\<close>

subsection \<open>The handle\<close>

text \<open>What is to be done with the reply of a request, and which clock runs against it.\<close>

datatype pending = AwaitReply | AwaitEnd | AwaitBuffered | AwaitReport

record 'p host_agent =
  ha_id :: string
  ha_name :: string
  ha_mode :: AgentMode
  ha_remoteIp :: "string option"
  ha_capabilities :: "string list"
  ha_history :: "'p list"
  ha_info :: "SystemInfo option"
  ha_connected :: bool
  ha_active :: bool
  ha_pending :: "(string, pending) jsmap"
  ha_shells :: "string list"
  ha_execStreams :: "string list"
  ha_hostCapabilities :: HostCapabilityReport
  ha_hostCapabilitiesAt :: "ms option"

datatype 'p agent_event =
    Sent ControlMessage
  | Settled string "exec_error + 'p NodeMessage"
  | MetricsOut string 'p
  | ChunkOut string bool string
  | ShellOut string string
  | ShellExited string "int option"

definition new_host_agent :: "string \<Rightarrow> string \<Rightarrow> SystemInfo option \<Rightarrow> AgentMode \<Rightarrow> string option \<Rightarrow> string list \<Rightarrow>
    HostCapabilityReport \<Rightarrow> ms \<Rightarrow> 'p host_agent" where
  "new_host_agent nodeId name info mode remoteIp capabilities report now =
     \<lparr>ha_id = nodeId, ha_name = name, ha_mode = mode, ha_remoteIp = remoteIp,
      ha_capabilities = capabilities, ha_history = [], ha_info = info, ha_connected = True, ha_active = True,
      ha_pending = [], ha_shells = [], ha_execStreams = [], ha_hostCapabilities = report,
      ha_hostCapabilitiesAt = (if report = [] then None else Some now)\<rparr>"

definition deactivate :: "'p host_agent \<Rightarrow> 'p host_agent" where
  "deactivate a = a\<lparr>ha_active := False\<rparr>"

definition activate :: "'p host_agent \<Rightarrow> 'p host_agent" where
  "activate a = a\<lparr>ha_active := True\<rparr>"

definition setInfo :: "SystemInfo \<Rightarrow> 'p host_agent \<Rightarrow> 'p host_agent" where
  "setInfo info a = a\<lparr>ha_info := Some info\<rparr>"

record ServerStatus =
  ss_serverId :: string
  ss_online :: bool
  ss_info :: "SystemInfo option"
  ss_mode :: "AgentMode option"
  ss_remoteIp :: "string option"
  ss_lastSeenAt :: "ms option"
  ss_standbys :: "(string \<times> AgentMode \<times> string option) list option"
  ss_hostCapabilities :: "HostCapabilityReport option"
  ss_hostCapabilitiesAt :: "ms option"

definition status :: "'p host_agent \<Rightarrow> ServerStatus" where
  "status a =
     \<lparr>ss_serverId = ha_id a, ss_online = ha_connected a, ss_info = ha_info a, ss_mode = Some (ha_mode a),
      ss_remoteIp = ha_remoteIp a, ss_lastSeenAt = None, ss_standbys = None,
      ss_hostCapabilities = (if ha_hostCapabilities a = [] then None else Some (ha_hostCapabilities a)),
      ss_hostCapabilitiesAt = ha_hostCapabilitiesAt a\<rparr>"

subsection \<open>Requests and replies\<close>

definition send_request :: "string \<Rightarrow> pending \<Rightarrow> ControlMessage \<Rightarrow> 'p host_agent \<Rightarrow>
    'p host_agent \<times> 'p agent_event list" where
  "send_request rid knd msg a =
     (a\<lparr>ha_pending := put rid knd (ha_pending a),
        ha_execStreams := (if knd = AwaitEnd then ha_execStreams a @ [rid] else ha_execStreams a)\<rparr>,
      [Sent msg])"

text \<open>Settling a request runs the continuation its caller left.\<close>

definition settle :: "string \<Rightarrow> exec_error + 'p NodeMessage \<Rightarrow> ms \<Rightarrow> 'p host_agent \<Rightarrow>
    'p host_agent \<times> 'p agent_event list" where
  "settle rid outcome now a =
     (case look (ha_pending a) rid of
        None \<Rightarrow> (a, [])
      | Some knd \<Rightarrow>
          (let a1 = a\<lparr>ha_pending := del rid (ha_pending a),
                     ha_execStreams := (if knd = AwaitEnd then filter (\<lambda>i. i \<noteq> rid) (ha_execStreams a)
                                        else ha_execStreams a)\<rparr>;
               a2 = (case (knd, outcome) of
                       (AwaitReport, Inr (HostCapabilitiesResponse _ report)) \<Rightarrow>
                         a1\<lparr>ha_hostCapabilities := report, ha_hostCapabilitiesAt := Some now\<rparr>
                     | _ \<Rightarrow> a1);
               chunks = (case (knd, outcome) of
                       (AwaitBuffered, Inr (ExecResponse _ res)) \<Rightarrow>
                         (if er_stdout res = [] then [] else [ChunkOut rid False (er_stdout res)])
                         @ (if er_stderr res = [] then [] else [ChunkOut rid True (er_stderr res)])
                     | _ \<Rightarrow> [])
           in (a2, Settled rid outcome # chunks)))"

definition receive :: "ms \<Rightarrow> 'p NodeMessage \<Rightarrow> 'p host_agent \<Rightarrow> 'p host_agent \<times> 'p agent_event list" where
  "receive now msg a =
     (case msg of
        Metrics snapshot \<Rightarrow>
          if \<not> ha_active a then (a, [])
          else (let h = ha_history a @ [snapshot]
                in (a\<lparr>ha_history := (if length h > METRICS_HISTORY_MAX
                        then drop (length h - METRICS_HISTORY_MAX) h else h)\<rparr>,
                    [MetricsOut (ha_id a) snapshot]))
      | ExecChunk rid strm data \<Rightarrow>
          (a, if rid \<in> set (ha_execStreams a) then [ChunkOut rid (strm = ''stderr'') data] else [])
      | ShellData sid data \<Rightarrow> (a, if sid \<in> set (ha_shells a) then [ShellOut sid data] else [])
      | ShellExit sid code \<Rightarrow>
          if sid \<in> set (ha_shells a)
          then (a\<lparr>ha_shells := filter (\<lambda>i. i \<noteq> sid) (ha_shells a)\<rparr>, [ShellExited sid code])
          else (a, [])
      | _ \<Rightarrow>
          (case requestId_of msg of
             None \<Rightarrow> (a, [])
           | Some rid \<Rightarrow>
               if rid = [] then (a, [])
               else settle rid (case msg of NodeError _ m \<Rightarrow> Inl (RequestError m) | _ \<Rightarrow> Inr msg) now a))"

text \<open>The clock of a request runs out: for a streamed command after a silence, for others after a total.\<close>

definition expire :: "string \<Rightarrow> ms \<Rightarrow> 'p host_agent \<Rightarrow> 'p host_agent \<times> 'p agent_event list" where
  "expire rid now a =
     settle rid (Inl (RequestError
       (if look (ha_pending a) rid = Some AwaitEnd then ''Command produced no output for 120s and was abandoned''
        else ''Request '' @ rid @ '' timed out''))) now a"

fun reject_all :: "string list \<Rightarrow> ms \<Rightarrow> 'p host_agent \<Rightarrow> 'p host_agent \<times> 'p agent_event list" where
  "reject_all [] now a = (a, [])"
| "reject_all (rid # rids) now a =
     (case settle rid (Inl (RequestError ''Node disconnected'')) now a of (a1, ev) \<Rightarrow>
        (case reject_all rids now a1 of (a2, ev') \<Rightarrow> (a2, ev @ ev')))"

definition disconnect :: "ms \<Rightarrow> 'p host_agent \<Rightarrow> 'p host_agent \<times> 'p agent_event list" where
  "disconnect now a =
     (case reject_all (keys (ha_pending a)) now (a\<lparr>ha_connected := False\<rparr>) of (a1, ev) \<Rightarrow>
        (a1\<lparr>ha_pending := [], ha_shells := [], ha_execStreams := []\<rparr>,
         ev @ map (\<lambda>sid. ShellExited sid None) (ha_shells a1)))"

subsection \<open>Operations\<close>

definition has_cap :: "string \<Rightarrow> 'p host_agent \<Rightarrow> bool" where
  "has_cap c a \<longleftrightarrow> c \<in> set (ha_capabilities a)"

definition run_argv :: "string \<Rightarrow> string list \<Rightarrow> ExecOptions \<Rightarrow> 'p host_agent \<Rightarrow>
    exec_error + 'p host_agent \<times> 'p agent_event list" where
  "run_argv rid argv opts a =
     (if argv = [] then Inl EmptyArgv
      else if \<not> has_cap ''execArgv'' a then
        (case shellCommandFor argv opts of
           Inl e \<Rightarrow> Inl e
         | Inr command \<Rightarrow> Inr (send_request rid AwaitReply (ExecRequest rid
             (case ex_detach opts of
                None \<Rightarrow> command
              | Some logPath \<Rightarrow> ''nohup '' @ command @ '' >'' @ shQuote logPath @ '' 2>&1 &'')) a))
      else Inr (send_request rid AwaitReply
             (ExecArgvRequest rid argv (ex_cwd opts) (ex_env opts) (ex_detach opts)) a))"

definition execStream :: "string \<Rightarrow> string \<Rightarrow> 'p host_agent \<Rightarrow> 'p host_agent \<times> 'p agent_event list" where
  "execStream rid command a =
     (if \<not> has_cap ''execStream'' a then send_request rid AwaitBuffered (ExecRequest rid command) a
      else send_request rid AwaitEnd (ExecStreamRequest rid command) a)"

definition runStream :: "string \<Rightarrow> string list \<Rightarrow> ExecOptions \<Rightarrow> 'p host_agent \<Rightarrow>
    exec_error + 'p host_agent \<times> 'p agent_event list" where
  "runStream rid argv opts a =
     (if argv = [] then Inl EmptyArgv
      else if \<not> has_cap ''execArgv'' a then
        (case shellCommandFor argv opts of Inl e \<Rightarrow> Inl e | Inr command \<Rightarrow> Inr (execStream rid command a))
      else Inr (send_request rid AwaitEnd (ExecArgvStreamRequest rid argv (ex_cwd opts) (ex_env opts)) a))"

text \<open>\<open>/^\/[A-Za-z0-9_.\-/*?]*$/\<close>\<close>

definition SAFE_GLOB_RE :: "string \<Rightarrow> bool" where
  "SAFE_GLOB_RE p \<longleftrightarrow> p \<noteq> [] \<and> hd p = CHR ''/''
     \<and> list_all (\<lambda>c. is_alpha c \<or> is_digit c \<or> c \<in> set ''_.-/*?'') (tl p)"

definition glob_loop :: "string list \<Rightarrow> string" where
  "glob_loop patterns =
     ''for p in '' @ join '' '' patterns @ ''; do [ -e '' @ [CHR 0x22] @ ''$p'' @ [CHR 0x22] @ '' ] || continue; printf ''
     @ [CHR 0x27] @ ''%s'' @ [CHR 0x5C] @ ''t%s'' @ [CHR 0x5C] @ ''n'' @ [CHR 0x27]
     @ '' '' @ [CHR 0x22] @ ''$p'' @ [CHR 0x22] @ '' '' @ [CHR 0x22] @ ''$(readlink -f '' @ [CHR 0x22] @ ''$p''
     @ [CHR 0x22] @ '' 2>/dev/null || echo '' @ [CHR 0x22] @ ''$p'' @ [CHR 0x22] @ '')'' @ [CHR 0x22] @ ''; done''"

definition resolvePaths :: "string \<Rightarrow> string list \<Rightarrow> 'p host_agent \<Rightarrow>
    exec_error + 'p host_agent \<times> 'p agent_event list" where
  "resolvePaths rid patterns a =
     (case find (\<lambda>p. \<not> SAFE_GLOB_RE p) patterns of
        Some p \<Rightarrow> Inl (InvalidPathPattern p)
      | None \<Rightarrow>
          if \<not> has_cap ''resolvePaths'' a
          then Inr (send_request rid AwaitReply (ExecRequest rid (glob_loop patterns)) a)
          else Inr (send_request rid AwaitReply (ResolvePathsRequest rid patterns) a))"

text \<open>The operations an older agent would not answer are refused before anything is sent.\<close>

definition gated_request :: "string \<Rightarrow> string \<Rightarrow> pending \<Rightarrow> ControlMessage \<Rightarrow> 'p host_agent \<Rightarrow>
    exec_error + 'p host_agent \<times> 'p agent_event list" where
  "gated_request cap rid knd msg a =
     (if \<not> has_cap cap a then Inl (AgentTooOld cap) else Inr (send_request rid knd msg a))"

definition httpRequest :: "string \<Rightarrow> string \<Rightarrow> string \<Rightarrow> string option \<Rightarrow> string option \<Rightarrow> 'p host_agent \<Rightarrow>
    exec_error + 'p host_agent \<times> 'p agent_event list" where
  "httpRequest rid url method contentType body a =
     gated_request ''httpRequest'' rid AwaitReply (HttpRequest rid url method contentType body) a"

definition discoverStun :: "string \<Rightarrow> 'p host_agent \<Rightarrow>
    exec_error + 'p host_agent \<times> 'p agent_event list" where
  "discoverStun rid a = gated_request ''stun'' rid AwaitReply (StunRequest rid) a"

definition redetectHostCapabilities :: "string \<Rightarrow> 'p host_agent \<Rightarrow>
    exec_error + 'p host_agent \<times> 'p agent_event list" where
  "redetectHostCapabilities rid a = gated_request ''hostCapabilities'' rid AwaitReport (HostCapabilitiesRequest rid) a"

definition agentConfig :: "string \<Rightarrow> 'p host_agent \<Rightarrow>
    exec_error + 'p host_agent \<times> 'p agent_event list" where
  "agentConfig rid a = gated_request ''agentConfig'' rid AwaitReply (AgentConfigRequest rid) a"

definition openShell :: "string \<Rightarrow> int \<Rightarrow> int \<Rightarrow> string option \<Rightarrow> string option \<Rightarrow> 'p host_agent \<Rightarrow>
    exec_error + 'p host_agent \<times> 'p agent_event list" where
  "openShell sid cols rows asUser command a =
     (if asUser \<noteq> None \<and> (command = None \<or> command = Some []) \<and> \<not> has_cap ''shellAsUser'' a
      then Inl (AgentTooOld ''shellAsUser'')
      else Inr (a\<lparr>ha_shells := ha_shells a @ [sid]\<rparr>, [Sent (OpenShell sid cols rows asUser command)]))"

definition closeShell :: "string \<Rightarrow> 'p host_agent \<Rightarrow> 'p host_agent \<times> 'p agent_event list" where
  "closeShell sid a = (a\<lparr>ha_shells := filter (\<lambda>i. i \<noteq> sid) (ha_shells a)\<rparr>, [Sent (CloseShell sid)])"

subsection \<open>Every request is settled once\<close>

definition settlements :: "string \<Rightarrow> 'p agent_event list \<Rightarrow> 'p agent_event list" where
  "settlements rid log = filter (\<lambda>e. case e of Settled i _ \<Rightarrow> i = rid | _ \<Rightarrow> False) log"

text \<open>
  A run of one handle: the ids issued so far, the handle and what happened. Request ids are
  random and new; a clock runs only while its request is open.
\<close>

inductive agent_step ::
  "string list \<times> 'p host_agent \<times> 'p agent_event list \<Rightarrow> string list \<times> 'p host_agent \<times> 'p agent_event list \<Rightarrow> bool"
where
  issue: "rid \<notin> set issued \<Longrightarrow> send_request rid knd msg a = (a', ev) \<Longrightarrow>
     agent_step (issued, a, log) (issued @ [rid], a', log @ ev)"
| shell: "openShell sid cols rows asUser command a = Inr (a', ev) \<Longrightarrow>
     agent_step (issued, a, log) (issued, a', log @ ev)"
| close: "closeShell sid a = (a', ev) \<Longrightarrow> agent_step (issued, a, log) (issued, a', log @ ev)"
| message: "receive now msg a = (a', ev) \<Longrightarrow> agent_step (issued, a, log) (issued, a', log @ ev)"
| clock: "expire rid now a = (a', ev) \<Longrightarrow> agent_step (issued, a, log) (issued, a', log @ ev)"
| role: "agent_step (issued, a, log) (issued, a\<lparr>ha_active := act\<rparr>, log)"
| gone: "disconnect now a = (a', ev) \<Longrightarrow> agent_step (issued, a, log) (issued, a', log @ ev)"

definition pending_ids :: "'p host_agent \<Rightarrow> string set" where
  "pending_ids a = set (keys (ha_pending a))"

fun settled_once :: "string list \<times> 'p host_agent \<times> 'p agent_event list \<Rightarrow> bool" where
  "settled_once (issued, a, log) \<longleftrightarrow>
     unique_keys (ha_pending a) \<and> pending_ids a \<subseteq> set issued
     \<and> (\<forall>rid. length (settlements rid log) = (if rid \<in> set issued - pending_ids a then 1 else 0))"

lemma settlements_append [simp]: "settlements rid (xs @ ys) = settlements rid xs @ settlements rid ys"
  by (simp add: settlements_def)

text \<open>All that settling a request changes, and what it emits.\<close>

lemma settle_shape:
  assumes "look (ha_pending a) rid = Some knd"
  obtains streams rep t chunks where
    "settle rid outcome now a =
       (a\<lparr>ha_pending := del rid (ha_pending a), ha_execStreams := streams,
          ha_hostCapabilities := rep, ha_hostCapabilitiesAt := t\<rparr>, Settled rid outcome # chunks)"
    "\<And>i. settlements i chunks = []"
proof -
  have "\<exists>streams rep t chunks. settle rid outcome now a =
       (a\<lparr>ha_pending := del rid (ha_pending a), ha_execStreams := streams,
          ha_hostCapabilities := rep, ha_hostCapabilitiesAt := t\<rparr>, Settled rid outcome # chunks)
     \<and> (\<forall>i. settlements i chunks = [])"
  proof (cases outcome)
    case (Inl e)
    then show ?thesis using assms by (cases a; cases knd) (simp_all add: settle_def settlements_def)
  next
    case (Inr msg)
    then show ?thesis using assms
      by (cases a; cases knd; cases msg) (simp_all add: settle_def settlements_def)
  qed
  then show thesis using that by blast
qed

lemma settle_effect:
  assumes "settle rid outcome now a = (a', ev)" "unique_keys (ha_pending a)"
  shows "unique_keys (ha_pending a') \<and> pending_ids a' = pending_ids a - {rid}
    \<and> (\<forall>i. length (settlements i ev) = (if i = rid \<and> rid \<in> pending_ids a then 1 else 0))"
proof (cases "look (ha_pending a) rid")
  case None
  then have "rid \<notin> pending_ids a" by (simp add: pending_ids_def map_of_eq_None_iff)
  with assms None show ?thesis by (auto simp: settle_def settlements_def)
next
  case (Some knd)
  then have rid: "rid \<in> pending_ids a" by (auto simp: pending_ids_def dest: map_of_SomeD intro: rev_image_eqI)
  from Some show ?thesis
    by (rule settle_shape [of _ _ _ outcome now]) (use assms rid in \<open>auto simp: pending_ids_def keys_del settlements_def\<close>)
qed

lemma reject_all_effect:
  assumes "reject_all rids now a = (a', ev)" "unique_keys (ha_pending a)" "distinct rids"
  shows "unique_keys (ha_pending a') \<and> pending_ids a' = pending_ids a - set rids
    \<and> (\<forall>i. length (settlements i ev) = (if i \<in> set rids \<inter> pending_ids a then 1 else 0))"
  using assms
proof (induction rids now a arbitrary: a' ev rule: reject_all.induct)
  case (2 rid rids now a)
  obtain a1 e1 where 1: "settle rid (Inl (RequestError ''Node disconnected'')) now a = (a1, e1)" by fastforce
  obtain a2 e2 where r: "reject_all rids now a1 = (a2, e2)" by fastforce
  from 2(2) 1 r have out: "a' = a2" "ev = e1 @ e2" by auto
  note first = settle_effect [OF 1 2(3)]
  have IH: "unique_keys (ha_pending a2) \<and> pending_ids a2 = pending_ids a1 - set rids
    \<and> (\<forall>i. length (settlements i e2) = (if i \<in> set rids \<inter> pending_ids a1 then 1 else 0))"
    by (rule 2(1) [OF 1 [symmetric] r]) (use first 2(4) in auto)
  show ?case using first IH 2(4) out by auto
qed (simp add: settlements_def)

lemma settlements_exited: "settlements i (map (\<lambda>sid. ShellExited sid None) sids) = []"
  by (simp add: settlements_def filter_empty_conv)

lemma disconnect_effect:
  assumes "disconnect now a = (a', ev)" "unique_keys (ha_pending a)"
  shows "ha_pending a' = [] \<and> (\<forall>i. length (settlements i ev) = (if i \<in> pending_ids a then 1 else 0))"
proof -
  obtain a1 e1 where r: "reject_all (keys (ha_pending a)) now (a\<lparr>ha_connected := False\<rparr>) = (a1, e1)" by fastforce
  have "length (settlements i e1) = (if i \<in> pending_ids a then 1 else 0)" for i
    using reject_all_effect [OF r] assms(2) by (simp add: pending_ids_def del: set_map)
  moreover have "ev = e1 @ map (\<lambda>sid. ShellExited sid None) (ha_shells a1)" "ha_pending a' = []"
    using assms(1) r by (auto simp: disconnect_def)
  ultimately show ?thesis by (simp add: settlements_exited)
qed

lemma receive_effect:
  assumes "receive now msg a = (a', ev)" "unique_keys (ha_pending a)"
  shows "(ha_pending a' = ha_pending a \<and> (\<forall>i. settlements i ev = []))
    \<or> (\<exists>rid outcome. settle rid outcome now a = (a', ev))"
  using assms
  by (cases msg) (auto simp: receive_def settlements_def Let_def split: if_splits option.splits)

lemma step_settled_once: "agent_step x y \<Longrightarrow> settled_once x \<Longrightarrow> settled_once y"
proof (induction rule: agent_step.induct)
  case (issue rid issued knd msg a a' ev log)
  then have "ha_pending a' = put rid knd (ha_pending a)" "settlements i ev = []" for i
    by (auto simp: send_request_def settlements_def)
  moreover have "rid \<notin> pending_ids a" using issue by auto
  ultimately show ?case using issue by (auto simp: pending_ids_def keys_put)
next
  case (shell sid cols rows asUser command a a' ev issued log)
  then have "ha_pending a' = ha_pending a" "settlements i ev = []" for i
    by (auto simp: openShell_def settlements_def split: if_splits)
  then show ?case using shell by (simp add: pending_ids_def)
next
  case (close sid a a' ev issued log)
  then have "ha_pending a' = ha_pending a" "settlements i ev = []" for i
    by (auto simp: closeShell_def settlements_def)
  then show ?case using close by (simp add: pending_ids_def)
next
  case (message now msg a a' ev issued log)
  then have u: "unique_keys (ha_pending a)" by simp
  from receive_effect [OF message(1) u] show ?case
  proof
    assume "ha_pending a' = ha_pending a \<and> (\<forall>i. settlements i ev = [])"
    then show ?thesis using message by (simp add: pending_ids_def)
  next
    assume "\<exists>rid outcome. settle rid outcome now a = (a', ev)"
    then obtain rid outcome where "settle rid outcome now a = (a', ev)" by blast
    from settle_effect [OF this u] show ?thesis using message by auto
  qed
next
  case (clock rid now a a' ev issued log)
  then show ?case using settle_effect [of rid _ now a a' ev] by (auto simp: expire_def)
next
  case (role issued a log act)
  then show ?case by (simp add: pending_ids_def)
next
  case (gone now a a' ev issued log)
  then show ?case using disconnect_effect [OF gone(1)] by (auto simp: pending_ids_def)
qed

text \<open>Nothing a handle does changes whose handle it is.\<close>

definition same_host :: "'p host_agent \<Rightarrow> 'p host_agent \<Rightarrow> bool" where
  "same_host a b \<longleftrightarrow> ha_id b = ha_id a \<and> ha_mode b = ha_mode a"

text \<open>What identifies the host, its role and its connection are not touched.\<close>

lemma settle_keeps:
  assumes "settle rid out now a = (a', ev)"
  shows "same_host a a' \<and> ha_active a' = ha_active a \<and> ha_connected a' = ha_connected a"
proof (cases "look (ha_pending a) rid")
  case None
  then show ?thesis using assms by (simp add: settle_def same_host_def)
next
  case (Some knd)
  then show ?thesis
    by (rule settle_shape [of _ _ _ out now]) (use assms in \<open>auto simp: same_host_def\<close>)
qed

lemmas settle_same = settle_keeps [THEN conjunct1]

lemma reject_all_same: "same_host a (fst (reject_all rids now a))"
proof (induction rids now a rule: reject_all.induct)
  case (2 rid rids now a)
  obtain a1 e1 where 1: "settle rid (Inl (RequestError ''Node disconnected'')) now a = (a1, e1)" by fastforce
  obtain a2 e2 where r: "reject_all rids now a1 = (a2, e2)" by fastforce
  from 2 [OF 1 [symmetric]] r settle_same [OF 1] show ?case by (simp add: 1 same_host_def)
qed (simp add: same_host_def)

lemma receive_same: "receive now msg a = (a', ev) \<Longrightarrow> same_host a a'"
proof (cases "\<exists>rid out. settle rid out now a = (a', ev)")
  case False
  assume r: "receive now msg a = (a', ev)"
  have "settle rid out now a \<noteq> (a', ev)" for rid out using False by blast
  with r show "same_host a a'"
    by (cases msg) (auto simp: receive_def same_host_def Let_def split: if_splits option.splits)
qed (auto dest: settle_same)

lemma agent_step_same: "agent_step (issued, a, log) (issued', a', log') \<Longrightarrow> same_host a a'"
proof (induction "(issued, a, log)" "(issued', a', log')" rule: agent_step.induct)
  case (message now msg ev)
  then show ?case using receive_same by blast
next
  case (clock rid now ev)
  then show ?case unfolding expire_def using settle_same by blast
next
  case (gone now ev)
  then show ?case
    using reject_all_same [of "a\<lparr>ha_connected := False\<rparr>" "keys (ha_pending a)" now]
    by (auto simp: disconnect_def same_host_def split: prod.splits)
qed (auto simp: send_request_def openShell_def closeShell_def same_host_def split: if_splits)

interpretation requests: invariant_store settled_once agent_step
  by unfold_locales (rule step_settled_once)

text \<open>
  C34. Every request has exactly one outcome. In any order of sending, replies (late, repeated or
  for unknown ids), expiring clocks, demotions and disconnections, a request that was sent is
  either open or has been settled exactly once, nothing else is ever settled, and once the
  connection is lost no request stays open: each one sent has had its outcome.
\<close>

theorem requests_settle_once:
  assumes "agent_step\<^sup>*\<^sup>* ([], new_host_agent i n info mode ip caps report now, []) (issued, a, log)"
  shows "length (settlements rid log) = (if rid \<in> set issued \<and> look (ha_pending a) rid = None then 1 else 0)
    \<and> length (settlements rid (log @ snd (disconnect now' a))) = (if rid \<in> set issued then 1 else 0)"
proof -
  have "settled_once ([], new_host_agent i n info mode ip caps report now :: 'a host_agent, [])"
    by (simp add: new_host_agent_def pending_ids_def settlements_def)
  then have s: "settled_once (issued, a, log)" by (rule requests.run_inv [OF assms])
  obtain a' ev where d: "disconnect now' a = (a', ev)" by fastforce
  have "look (ha_pending a) rid = None \<longleftrightarrow> rid \<notin> pending_ids a"
    by (simp add: pending_ids_def map_of_eq_None_iff)
  with s disconnect_effect [OF d] d show ?thesis by auto
qed

definition demo_agent :: "unit host_agent" where
  "demo_agent = new_host_agent ''m1'' ''host'' None Live None [''stun''] [] 0"

theorem requests_settle_once_witness:
  "\<exists>(a :: unit host_agent) log. length (settlements ''r1'' log) = 1 \<and> length (settlements ''r2'' (log @ snd (disconnect 9 a))) = 1"
proof -
  define a1 where "a1 = fst (send_request ''r1'' AwaitReply (StunRequest ''r1'') demo_agent)"
  define a2 where "a2 = fst (send_request ''r2'' AwaitReply (StunRequest ''r2'') a1)"
  define e1 :: "unit agent_event list" where "e1 = [Sent (StunRequest ''r1'')]"
  define e2 :: "unit agent_event list" where "e2 = [Sent (StunRequest ''r2'')]"
  obtain a3 e3 where m: "receive 5 (NodeError (Some ''r1'') ''no'') a2 = (a3, e3)" by fastforce
  have "agent_step ([], demo_agent, []) ([] @ [''r1''], a1, [] @ e1)"
    by (rule agent_step.issue [of _ _ AwaitReply "StunRequest ''r1''"]) (simp_all add: a1_def e1_def send_request_def)
  moreover have "agent_step ([''r1''], a1, e1) ([''r1''] @ [''r2''], a2, e1 @ e2)"
    by (rule agent_step.issue [of _ _ AwaitReply "StunRequest ''r2''"]) (simp_all add: a2_def e2_def send_request_def)
  moreover have "agent_step ([''r1'', ''r2''], a2, e1 @ e2) ([''r1'', ''r2''], a3, (e1 @ e2) @ e3)"
    by (rule agent_step.message [OF m])
  ultimately have run: "agent_step\<^sup>*\<^sup>* ([], new_host_agent ''m1'' ''host'' None Live None [''stun''] [] 0, [])
      ([''r1'', ''r2''], a3, (e1 @ e2) @ e3)"
    by (simp add: demo_agent_def)
  have "look (ha_pending (fst (receive 5 (NodeError (Some ''r1'') ''no'') a2))) ''r1'' = None"
    unfolding a2_def a1_def by code_simp
  with m have "look (ha_pending a3) ''r1'' = None" by simp
  then show ?thesis
    using requests_settle_once [OF run, of "''r1''" 9] requests_settle_once [OF run, of "''r2''" 9]
    by (intro exI [of _ a3] exI [of _ "(e1 @ e2) @ e3"] conjI) simp_all
qed

end
