(* ===== verification/Permissions.thy ===== *)
theory Permissions
  imports Protocol
begin

text \<open>
  The authorization registry of \<open>shared/src/permissions.ts\<close>: every permission node with the
  operations, task kinds and events it gates, the three inverted lookup tables the gates read,
  wildcard matching, the seeded roles, and the checks every gate goes through. The display
  texts of a node (\<open>label\<close>, \<open>description\<close>) are left out, and of \<open>escalation\<close> its presence is
  kept, which the source calls the mark.
\<close>

subsection \<open>The registry\<close>

record PermissionDef =
  ops :: "string list"
  tasks :: "string list"
  events :: "string list"
  escalation :: bool
  sensitive :: bool

definition PANEL_PERMISSIONS_hosts :: "(permission, PermissionDef) jsmap" where
  "PANEL_PERMISSIONS_hosts =
    [
     (''panel.servers.read'', \<lparr>ops = [''servers/list'', ''servers/getMetricsHistory'',
          ''servers/redetectCapabilities'', ''servers/getAgentConfig''],
        tasks = [], events = [''init'', ''serversUpdate'', ''statusUpdate'', ''metrics''],
          escalation = False, sensitive = False\<rparr>),
     (''panel.servers.admin'', \<lparr>ops = [''servers/delete'', ''servers/generateInstallCommand'',
          ''servers/probeInstallPath'', ''servers/installService''],
        tasks = [''update_agent''], events = [], escalation = True, sensitive = False\<rparr>),
     (''panel.files.read'', \<lparr>ops = [''files/listDir'', ''files/read''],
        tasks = [], events = [], escalation = True, sensitive = False\<rparr>),
     (''panel.mounts.read'', \<lparr>ops = [''files/getMounts'', ''files/listDevices''],
        tasks = [], events = [], escalation = False, sensitive = False\<rparr>),
     (''panel.files.write'', \<lparr>ops = [''files/write'', ''files/upload'', ''files/createDir'',
          ''files/delete'', ''files/rename''],
        tasks = [], events = [], escalation = True, sensitive = False\<rparr>),
     (''panel.docker.read'', \<lparr>ops = [''docker/list'', ''docker/containerLogs'',
          ''docker/overview'', ''docker/containerInspect'', ''docker/volumeInspect'',
          ''docker/imageDefaults''],
        tasks = [], events = [], escalation = False, sensitive = False\<rparr>),
     (''panel.docker.control'', \<lparr>ops = [],
        tasks = [''docker_stack_action'', ''docker_container_action''], events = [],
          escalation = False, sensitive = False\<rparr>),
     (''panel.docker.deploy'', \<lparr>ops = [],
        tasks = [''docker_compose_action'', ''docker_image_pull''], events = [], escalation = True,
          sensitive = False\<rparr>),
     (''panel.docker.prune'', \<lparr>ops = [''docker/volumeRemove'', ''docker/imageAction''],
        tasks = [], events = [], escalation = False, sensitive = False\<rparr>),
     (''panel.docker.exec'', \<lparr>ops = [''docker/containerExec''],
        tasks = [], events = [], escalation = True, sensitive = True\<rparr>),
     (''panel.compose.read'', \<lparr>ops = [''compose/list'', ''compose/listForHost'',
          ''compose/readForHost'', ''compose/getStatus'', ''compose/getLogs'',
          ''compose/validateContent'', ''compose/detect'', ''compose/getDefaultDir''],
        tasks = [], events = [], escalation = False, sensitive = False\<rparr>),
     (''panel.compose.write'', \<lparr>ops = [''compose/create'', ''compose/import'',
          ''compose/delete'', ''compose/setDefaultDir''],
        tasks = [], events = [], escalation = True, sensitive = False\<rparr>),
     (''panel.systemd.read'', \<lparr>ops = [''systemd/list'', ''systemd/serviceLogs'',
          ''systemd/unitFile''],
        tasks = [], events = [], escalation = False, sensitive = False\<rparr>),
     (''panel.systemd.write'', \<lparr>ops = [],
        tasks = [''service_action''], events = [], escalation = False, sensitive = False\<rparr>),
     (''panel.zfs.read'', \<lparr>ops = [''zfs/getState'', ''zfs/getDatasets'', ''zfs/getSnapshots'',
          ''zfs/getBlockDevices''],
        tasks = [], events = [], escalation = False, sensitive = False\<rparr>),
     (''panel.zfs.write'', \<lparr>ops = [''zfs/setDatasetProperty''],
        tasks = [''zfs_scrub'', ''zfs_dataset_create'', ''zfs_dataset_destroy'',
          ''zfs_snapshot_create'', ''zfs_snapshot_rollback'', ''zfs_snapshot_destroy'',
          ''zfs_snapshot_clone''], events = [], escalation = False, sensitive = False\<rparr>),
     (''panel.zfs.admin'', \<lparr>ops = [],
        tasks = [''zfs_pool_create'', ''zfs_pool_destroy'', ''zfs_pool_import'', ''zfs_pool_export'',
          ''zfs_vdev_add'', ''zfs_device_replace''], events = [], escalation = True,
          sensitive = False\<rparr>),
     (''panel.network.read'', \<lparr>ops = [''network/getInfo''],
        tasks = [''find_wan_ip''], events = [], escalation = False, sensitive = False\<rparr>),
     (''panel.processes.read'', \<lparr>ops = [''processes/list''],
        tasks = [], events = [], escalation = False, sensitive = False\<rparr>),
     (''panel.terminal'', \<lparr>ops = [],
        tasks = [], events = [], escalation = True, sensitive = True\<rparr>),
     (''panel.exec'', \<lparr>ops = [],
        tasks = [''cmd'', ''exec''], events = [], escalation = True, sensitive = True\<rparr>),
     (''panel.systemUsers.read'', \<lparr>ops = [''system-users/list'', ''system-users/hostStatus''],
        tasks = [], events = [], escalation = False, sensitive = False\<rparr>),
     (''panel.systemUsers.admin'', \<lparr>ops = [''system-users/create'', ''system-users/setGroups''],
        tasks = [], events = [], escalation = True, sensitive = True\<rparr>)]"

definition PANEL_PERMISSIONS_control_plane :: "(permission, PermissionDef) jsmap" where
  "PANEL_PERMISSIONS_control_plane =
    [
     (''panel.tasks.read'', \<lparr>ops = [''tasks/list'', ''tasks/get'', ''tasks/getLogs''],
        tasks = [], events = [''taskUpdate'', ''taskLog''], escalation = False,
          sensitive = False\<rparr>),
     (''panel.tasks.run'', \<lparr>ops = [''tasks/run''],
        tasks = [], events = [], escalation = False, sensitive = False\<rparr>),
     (''panel.dashboard.read'', \<lparr>ops = [''dashboard/get'', ''dashboard/fleetSummary''],
        tasks = [], events = [], escalation = False, sensitive = False\<rparr>),
     (''panel.dashboard.write'', \<lparr>ops = [''dashboard/set'', ''dashboard/reset''],
        tasks = [], events = [], escalation = False, sensitive = False\<rparr>),
     (''panel.proxy.read'', \<lparr>ops = [''proxy/getState''],
        tasks = [], events = [], escalation = False, sensitive = False\<rparr>),
     (''panel.proxy.admin'', \<lparr>ops = [''proxy/setConfig'', ''proxy/deploy'', ''proxy/remove'',
          ''proxy/createRoute'', ''proxy/updateRoute'', ''proxy/deleteRoute'', ''proxy/applyConfig''],
        tasks = [], events = [], escalation = True, sensitive = False\<rparr>),
     (''panel.settings.read'', \<lparr>ops = [''settings/getConfig'',
          ''settings/getControlPlaneStatus''],
        tasks = [], events = [], escalation = False, sensitive = False\<rparr>),
     (''panel.settings.admin'', \<lparr>ops = [''settings/setDomain'', ''settings/setPrimaryUrl'',
          ''settings/setAllowedOrigins'', ''settings/setTrustedProxies''],
        tasks = [''update_control_plane'', ''debug_fake''], events = [], escalation = True,
          sensitive = False\<rparr>),
     (''panel.apps.read'', \<lparr>ops = [''apps/list''],
        tasks = [], events = [], escalation = False, sensitive = False\<rparr>),
     (''panel.apps.admin'', \<lparr>ops = [''apps/create'', ''apps/update'', ''apps/delete''],
        tasks = [], events = [], escalation = False, sensitive = False\<rparr>),
     (''panel.oidc.read'', \<lparr>ops = [''oidc/listClients'', ''oidc/getProviderInfo''],
        tasks = [], events = [], escalation = False, sensitive = False\<rparr>),
     (''panel.oidc.admin'', \<lparr>ops = [''oidc/createClient'', ''oidc/updateClient'',
          ''oidc/deleteClient'', ''oidc/regenerateSecret''],
        tasks = [], events = [], escalation = False, sensitive = False\<rparr>),
     (''panel.roles.read'', \<lparr>ops = [''auth/listRoles''],
        tasks = [], events = [], escalation = False, sensitive = False\<rparr>),
     (''panel.roles.admin'', \<lparr>ops = [''auth/createRole'', ''auth/updateRole'',
          ''auth/deleteRole'', ''auth/resetRole''],
        tasks = [], events = [], escalation = True, sensitive = True\<rparr>),
     (''panel.users.read'', \<lparr>ops = [''auth/listUsers'', ''auth/getUserDetail'',
          ''oidc/listGrants''],
        tasks = [], events = [], escalation = False, sensitive = False\<rparr>),
     (''panel.users.admin'', \<lparr>ops = [''auth/createUser'', ''auth/deleteUser'',
          ''auth/setUserRoles'', ''auth/revokeUserSession'', ''auth/adminSetPassword'',
          ''auth/setUserSystemUser'', ''auth/setUserPermissions'', ''auth/setUserEmail'',
          ''oidc/revokeGrant''],
        tasks = [], events = [], escalation = True, sensitive = True\<rparr>)]"

text \<open>The literal is one object in the source; it is cut in two where the host half ends.\<close>

definition DEFS :: "(permission, PermissionDef) jsmap" where
  "DEFS = PANEL_PERMISSIONS_hosts @ PANEL_PERMISSIONS_control_plane"

definition PANEL_PERMISSION_IDS :: "permission list" where
  "PANEL_PERMISSION_IDS = keys DEFS"

definition permissionDef :: "permission \<Rightarrow> PermissionDef option" where
  "permissionDef i = look DEFS i"

definition PUBLIC_OPS :: "string list" where
  "PUBLIC_OPS = [''auth/getState'', ''auth/setupOwner'', ''auth/login'']"

definition SESSION_OPS :: "string list" where
  "SESSION_OPS =
    [''auth/logout'', ''auth/me'', ''oidc/getAuthorizeRequest'', ''oidc/completeAuthorize'',
     ''oidc/getDeviceRequest'', ''oidc/approveDevice'', ''oidc/denyDevice'']"

subsection \<open>Derived lookups\<close>

datatype build_error = ClassifiedTwice string permission permission

text \<open>One node's list, entered into the table; an entry that is there already throws.\<close>

fun classify :: "permission \<Rightarrow> (string, permission) jsmap \<Rightarrow> string list \<Rightarrow>
    build_error + (string, permission) jsmap" where
  "classify i out [] = Inr out"
| "classify i out (x # xs) =
     (case look out x of
        Some prev \<Rightarrow> Inl (ClassifiedTwice x prev i)
      | None \<Rightarrow> classify i (put x i out) xs)"

fun classify_all :: "(PermissionDef \<Rightarrow> string list) \<Rightarrow> (string, permission) jsmap \<Rightarrow>
    (permission, PermissionDef) jsmap \<Rightarrow> build_error + (string, permission) jsmap" where
  "classify_all sel out [] = Inr out"
| "classify_all sel out ((i, d) # ds) =
     (case classify i out (sel d) of
        Inl e \<Rightarrow> Inl e
      | Inr out' \<Rightarrow> classify_all sel out' ds)"

definition buildOpRequirements :: "build_error + (string, permission) jsmap" where
  "buildOpRequirements =
     (let out1 = fold (\<lambda>k. put k ''public'') PUBLIC_OPS [];
          out2 = fold (\<lambda>k. put k ''authenticated'') SESSION_OPS out1
      in classify_all ops out2 DEFS)"

definition buildTaskRequirements :: "build_error + (string, permission) jsmap" where
  "buildTaskRequirements = classify_all tasks [] DEFS"

definition buildEventRequirements :: "build_error + (string, permission) jsmap" where
  "buildEventRequirements = classify_all events [] DEFS"

text \<open>
  The module constants. A throwing build would fail the module load; the table is then not
  there, which the model reads as empty (\<open>C1\<close> shows that no build throws).
\<close>

definition table_of :: "build_error + (string, permission) jsmap \<Rightarrow> (string, permission) jsmap" where
  "table_of r = (case r of Inr m \<Rightarrow> m | Inl _ \<Rightarrow> [])"

definition OP_REQUIREMENTS :: "string \<Rightarrow> permission option" where
  "OP_REQUIREMENTS = look (table_of buildOpRequirements)"

definition TASK_KIND_PERMISSIONS :: "string \<Rightarrow> permission option" where
  "TASK_KIND_PERMISSIONS = look (table_of buildTaskRequirements)"

definition EVENT_PERMISSIONS :: "string \<Rightarrow> permission option" where
  "EVENT_PERMISSIONS = look (table_of buildEventRequirements)"

definition SENSITIVE_PERMISSIONS :: "permission list" where
  "SENSITIVE_PERMISSIONS = keys (filter (\<lambda>(_, d). sensitive d) DEFS)"

subsection \<open>Matching\<close>

definition permissionMatches :: "permission \<Rightarrow> permission \<Rightarrow> bool" where
  "permissionMatches held required \<longleftrightarrow>
     (if held = required then True
      else if held = ''*'' then True
      else suffix ''.*'' held \<and> prefix (butlast held) required)"

definition hasPermission :: "permission list \<Rightarrow> permission \<Rightarrow> bool" where
  "hasPermission held required \<longleftrightarrow>
     (if required \<in> set SENSITIVE_PERMISSIONS then required \<in> set held
      else list_ex (\<lambda>h. permissionMatches h required) held)"

definition permissionOverlaps :: "permission \<Rightarrow> permission \<Rightarrow> bool" where
  "permissionOverlaps a b \<longleftrightarrow> permissionMatches a b \<or> permissionMatches b a"

definition hasAnyPermission :: "permission list \<Rightarrow> permission list \<Rightarrow> bool" where
  "hasAnyPermission held required \<longleftrightarrow>
     (if required = [] then True
      else list_ex (\<lambda>r. if r \<in> set SENSITIVE_PERMISSIONS then r \<in> set held
                         else list_ex (\<lambda>h. permissionOverlaps h r) held) required)"

text \<open>
  \<open>/^[a-z][a-z0-9]*(\.[a-z][a-z0-9]*)*(\.\*)?$/i\<close>: dot-separated segments, each a letter
  followed by letters and digits in either case, and at most a final \<open>*\<close> segment.
\<close>

definition valid_segment :: "string \<Rightarrow> bool" where
  "valid_segment s \<longleftrightarrow>
     (case s of [] \<Rightarrow> False | c # cs \<Rightarrow> is_alpha c \<and> list_all (\<lambda>d. is_alpha d \<or> is_digit d) cs)"

definition isValidPermission :: "string \<Rightarrow> bool" where
  "isValidPermission value \<longleftrightarrow>
     value = ''*'' \<or>
     (let segs = split_on CHR ''.'' value;
          body = (if last segs = ''*'' then butlast segs else segs)
      in body \<noteq> [] \<and> list_all valid_segment body)"

subsection \<open>Roles\<close>

record RoleDef =
  role_id :: string
  role_name :: string
  role_description :: string
  role_permissions :: "permission list"
  role_seeded :: "bool option"

text \<open>The shipped roles; the dash in the last description is written with two hyphens.\<close>

definition SEED_ROLES :: "RoleDef list" where
  "SEED_ROLES =
    [
     \<lparr>role_id = ''viewer'', role_name = ''Control panel viewer'',
      role_description = ''Read-only across the fleet. Can look at anything, change nothing.'',
      role_permissions = [''panel.compose.read'', ''panel.dashboard.read'', ''panel.docker.read'',
         ''panel.mounts.read'', ''panel.network.read'', ''panel.processes.read'',
         ''panel.servers.read'', ''panel.systemd.read'', ''panel.tasks.read'', ''panel.zfs.read''],
      role_seeded = Some True\<rparr>,
     \<lparr>role_id = ''operator'', role_name = ''Control panel operator'',
      role_description = ''Day-to-day operations: start and stop things, edit files, manage snapshots. No shell, no host enrolment, no settings.'',
      role_permissions = [''panel.compose.read'', ''panel.compose.write'',
         ''panel.dashboard.read'', ''panel.dashboard.write'', ''panel.docker.control'',
         ''panel.docker.deploy'', ''panel.docker.prune'', ''panel.docker.read'',
         ''panel.files.read'', ''panel.files.write'', ''panel.mounts.read'',
         ''panel.network.read'', ''panel.processes.read'', ''panel.servers.read'',
         ''panel.systemd.read'', ''panel.systemd.write'', ''panel.tasks.read'',
         ''panel.tasks.run'', ''panel.zfs.read'', ''panel.zfs.write''],
      role_seeded = Some True\<rparr>,
     \<lparr>role_id = ''admin'', role_name = ''Control panel admin'',
      role_description = ''Everything an operator can do, plus shells, host enrolment and settings. Not account or role management -- that stays with the owner.'',
      role_permissions = [''panel.compose.read'', ''panel.compose.write'',
         ''panel.dashboard.read'', ''panel.dashboard.write'', ''panel.docker.control'',
         ''panel.docker.deploy'', ''panel.docker.exec'', ''panel.docker.prune'',
         ''panel.docker.read'', ''panel.exec'', ''panel.files.read'', ''panel.files.write'',
         ''panel.mounts.read'', ''panel.network.read'', ''panel.apps.admin'', ''panel.apps.read'',
         ''panel.oidc.admin'', ''panel.oidc.read'', ''panel.processes.read'',
         ''panel.proxy.admin'', ''panel.proxy.read'', ''panel.roles.read'',
         ''panel.servers.admin'', ''panel.servers.read'', ''panel.settings.admin'',
         ''panel.settings.read'', ''panel.systemUsers.admin'', ''panel.systemUsers.read'',
         ''panel.systemd.read'', ''panel.systemd.write'', ''panel.tasks.read'',
         ''panel.tasks.run'', ''panel.terminal'', ''panel.users.read'', ''panel.zfs.read'',
         ''panel.zfs.write''],
      role_seeded = Some True\<rparr>]"

definition seedRoleFor :: "string \<Rightarrow> RoleDef option" where
  "seedRoleFor i = find (\<lambda>r. role_id r = i) SEED_ROLES"

text \<open>Permissions compare as sorted lists joined by a NUL, after their lengths.\<close>

definition roleMatchesSeed :: "RoleDef \<Rightarrow> bool" where
  "roleMatchesSeed role \<longleftrightarrow>
     (case seedRoleFor (role_id role) of
        None \<Rightarrow> False
      | Some seed \<Rightarrow>
          role_name role = role_name seed
          \<and> role_description role = role_description seed
          \<and> length (role_permissions role) = length (role_permissions seed)
          \<and> join [CHR 0x00] (sort (role_permissions role))
              = join [CHR 0x00] (sort (role_permissions seed)))"

definition unassignedPermissions :: "RoleDef list \<Rightarrow> permission list" where
  "unassignedPermissions roles =
     (let granted = concat (map role_permissions roles)
      in filter (\<lambda>i. i \<notin> set granted) PANEL_PERMISSION_IDS)"

definition effectivePermissions :: "bool \<Rightarrow> RoleDef list \<Rightarrow> permission list \<Rightarrow> permission list" where
  "effectivePermissions owner roles extra =
     push_new (if owner then [''*''] else [])
       ((if owner then [] else concat (map role_permissions roles)) @ extra)"

subsection \<open>Gates\<close>

definition userCan :: "'a PermissionSubject_scheme option \<Rightarrow> permission \<Rightarrow> bool" where
  "userCan user required \<longleftrightarrow>
     (case user of None \<Rightarrow> False
      | Some u \<Rightarrow> isOwner u \<or> hasPermission (permissions u) required)"

text \<open>
  \<open>TASK_KIND_PERMISSIONS[kind]\<close> is undefined for a kind outside the union, which the type
  rules out and the server's handler refuses first; of an undefined requirement only the owner
  bypass and a bare \<open>*\<close> are satisfied.
\<close>

definition canRunTask :: "'a PermissionSubject_scheme option \<Rightarrow> string \<Rightarrow> bool" where
  "canRunTask user k \<longleftrightarrow>
     userCan user ''panel.tasks.run'' \<and>
     (case TASK_KIND_PERMISSIONS k of
        Some p \<Rightarrow> userCan user p
      | None \<Rightarrow> (case user of None \<Rightarrow> False
                 | Some u \<Rightarrow> isOwner u \<or> ''*'' \<in> set (permissions u)))"

definition eventPermission :: "string \<Rightarrow> permission option" where
  "eventPermission k = EVENT_PERMISSIONS k"

text \<open>The nodes among \<open>permissions\<close> that carry an escalation note, in registry order.\<close>

definition escalationsIn :: "permission list \<Rightarrow> permission list" where
  "escalationsIn ps = keys (filter (\<lambda>(i, d). i \<in> set ps \<and> escalation d) DEFS)"

subsection \<open>The inverted tables\<close>

text \<open>Every pair (key, node) of the registry, in the order the build loops meet them.\<close>

definition inverted :: "(PermissionDef \<Rightarrow> string list) \<Rightarrow> (permission, PermissionDef) jsmap \<Rightarrow>
    (string, permission) jsmap" where
  "inverted sel ds = concat (map (\<lambda>(i, d). map (\<lambda>x. (x, i)) (sel d)) ds)"

lemma keys_inverted: "keys (inverted sel ds) = concat (map (sel \<circ> snd) ds)"
  by (induction ds) (auto simp: inverted_def o_def split: prod.splits)

lemma set_inverted: "(k, i) \<in> set (inverted sel ds) \<longleftrightarrow> (\<exists>d. (i, d) \<in> set ds \<and> k \<in> set (sel d))"
  by (force simp: inverted_def)

lemma classify_fresh:
  "distinct (keys out @ xs) \<Longrightarrow> classify i out xs = Inr (out @ map (\<lambda>x. (x, i)) xs)"
proof (induction xs arbitrary: out)
  case (Cons x xs)
  then have "look out x = None" by (auto simp: map_of_eq_None_iff)
  then have "put x i out = out @ [(x, i)]" by (rule put_fresh)
  with Cons \<open>look out x = None\<close> show ?case by simp
qed simp

lemma classify_all_fresh:
  "distinct (keys out @ concat (map (sel \<circ> snd) ds)) \<Longrightarrow>
   classify_all sel out ds = Inr (out @ inverted sel ds)"
proof (induction ds arbitrary: out)
  case (Cons a ds)
  obtain i d where a: "a = (i, d)" by fastforce
  from Cons.prems have "classify i out (sel d) = Inr (out @ map (\<lambda>x. (x, i)) (sel d))"
    by (intro classify_fresh) (auto simp: a)
  with Cons.IH [of "out @ map (\<lambda>x. (x, i)) (sel d)"] Cons.prems show ?case
    by (simp add: a inverted_def o_def)
qed (simp add: inverted_def)

definition op_entries :: "(string, permission) jsmap" where
  "op_entries = map (\<lambda>k. (k, ''public'')) PUBLIC_OPS
     @ map (\<lambda>k. (k, ''authenticated'')) SESSION_OPS @ inverted ops DEFS"

lemma keys_op_entries: "keys op_entries = PUBLIC_OPS @ SESSION_OPS @ concat (map (ops \<circ> snd) DEFS)"
  by (simp add: op_entries_def keys_inverted o_def)

lemma distinct_ids: "distinct PANEL_PERMISSION_IDS"
  by code_simp

lemma distinct_op_keys: "distinct (PUBLIC_OPS @ SESSION_OPS @ concat (map (ops \<circ> snd) DEFS))"
  by code_simp

lemma distinct_task_keys: "distinct (concat (map (tasks \<circ> snd) DEFS))"
  by code_simp

lemma distinct_event_keys: "distinct (concat (map (events \<circ> snd) DEFS))"
  by code_simp

lemma build_ops: "buildOpRequirements = Inr op_entries"
proof -
  have "fold (\<lambda>k. put k ''authenticated'') SESSION_OPS (fold (\<lambda>k. put k ''public'') PUBLIC_OPS [])
      = map (\<lambda>k. (k, ''public'')) PUBLIC_OPS @ map (\<lambda>k. (k, ''authenticated'')) SESSION_OPS"
    by code_simp
  with distinct_op_keys show ?thesis
    by (simp add: buildOpRequirements_def classify_all_fresh op_entries_def o_def)
qed

lemma build_tasks: "buildTaskRequirements = Inr (inverted tasks DEFS)"
  using distinct_task_keys classify_all_fresh [of "[]" tasks DEFS]
  by (simp add: buildTaskRequirements_def)

lemma build_events: "buildEventRequirements = Inr (inverted events DEFS)"
  using distinct_event_keys classify_all_fresh [of "[]" events DEFS]
  by (simp add: buildEventRequirements_def)

lemma op_requirement_iff: "OP_REQUIREMENTS k = Some r \<longleftrightarrow> (k, r) \<in> set op_entries"
  using distinct_op_keys
  by (simp add: OP_REQUIREMENTS_def build_ops table_of_def keys_op_entries)

lemma op_requirement_cases:
  "OP_REQUIREMENTS k = Some r \<longleftrightarrow>
     k \<in> set PUBLIC_OPS \<and> r = ''public'' \<or> k \<in> set SESSION_OPS \<and> r = ''authenticated''
     \<or> (\<exists>d. (r, d) \<in> set DEFS \<and> k \<in> set (ops d))"
  by (auto simp: op_requirement_iff op_entries_def set_inverted)

lemma task_requirement_iff:
  "TASK_KIND_PERMISSIONS k = Some p \<longleftrightarrow> (\<exists>d. (p, d) \<in> set DEFS \<and> k \<in> set (tasks d))"
  using distinct_task_keys
  by (simp add: TASK_KIND_PERMISSIONS_def build_tasks table_of_def keys_inverted set_inverted)

lemma event_requirement_iff:
  "EVENT_PERMISSIONS k = Some p \<longleftrightarrow> (\<exists>d. (p, d) \<in> set DEFS \<and> k \<in> set (events d))"
  using distinct_event_keys
  by (simp add: EVENT_PERMISSIONS_def build_events table_of_def keys_inverted set_inverted)

subsection \<open>Permission gates\<close>

text \<open>
  What the dispatcher, the event hub and the terminal rely on: a check \<open>can\<close> over subjects that
  the owner always passes, that an exact grant passes, that grows with the grants, and in which a
  sensitive node is never reached by anything but the owner or an exact grant.
\<close>

locale permission_gate =
  fixes can :: "'u \<Rightarrow> permission \<Rightarrow> bool"
    and owner :: "'u \<Rightarrow> bool"
    and grants :: "'u \<Rightarrow> permission list"
    and guarded :: "permission \<Rightarrow> bool"
  assumes can_owner: "owner u \<Longrightarrow> can u p"
    and can_exact: "p \<in> set (grants u) \<Longrightarrow> can u p"
    and can_guarded: "guarded p \<Longrightarrow> can u p \<Longrightarrow> owner u \<or> p \<in> set (grants u)"
    and can_mono: "set (grants u) \<subseteq> set (grants v) \<Longrightarrow> \<not> owner u \<Longrightarrow> can u p \<Longrightarrow> can v p"
    and can_nothing: "\<not> owner u \<Longrightarrow> grants u = [] \<Longrightarrow> \<not> can u p"
begin

lemma guarded_iff: "guarded p \<Longrightarrow> can u p \<longleftrightarrow> owner u \<or> p \<in> set (grants u)"
  using can_owner can_exact can_guarded by blast

lemma audience_subset:
  "set (filter (\<lambda>u. can u p) us) \<subseteq> {u \<in> set us. owner u \<or> grants u \<noteq> []}"
  using can_nothing by auto

lemma guarded_audience:
  "guarded p \<Longrightarrow> filter (\<lambda>u. can u p) us = filter (\<lambda>u. owner u \<or> p \<in> set (grants u)) us"
  by (simp add: guarded_iff cong: filter_cong)

end

lemma permissionMatches_refl [simp]: "permissionMatches p p"
  by (simp add: permissionMatches_def)

lemma hasPermission_exact: "p \<in> set held \<Longrightarrow> hasPermission held p"
  by (auto simp: hasPermission_def list_ex_iff intro: bexI [of _ p])

lemma hasPermission_mono: "set held \<subseteq> set held' \<Longrightarrow> hasPermission held p \<Longrightarrow> hasPermission held' p"
  by (auto simp: hasPermission_def list_ex_iff split: if_splits)

lemma hasPermission_Nil [simp]: "\<not> hasPermission [] p"
  by (simp add: hasPermission_def)

interpretation gate: permission_gate "\<lambda>u. userCan (Some u)" isOwner permissions
  "\<lambda>p. p \<in> set SENSITIVE_PERMISSIONS"
proof
  fix u v :: "'a PermissionSubject_scheme" and p
  show "userCan (Some u) p" if "isOwner u" using that by (simp add: userCan_def)
  show "userCan (Some u) p" if "p \<in> set (permissions u)"
    using that by (simp add: userCan_def hasPermission_exact)
  show "isOwner u \<or> p \<in> set (permissions u)"
    if "p \<in> set SENSITIVE_PERMISSIONS" "userCan (Some u) p"
    using that by (auto simp: userCan_def hasPermission_def)
  show "userCan (Some v) p" if "set (permissions u) \<subseteq> set (permissions v)" "\<not> isOwner u"
    "userCan (Some u) p" using that by (auto simp: userCan_def dest: hasPermission_mono)
  show "\<not> userCan (Some u) p" if "\<not> isOwner u" "permissions u = []"
    using that by (simp add: userCan_def)
qed

lemma userCan_None [simp]: "\<not> userCan None p"
  by (simp add: userCan_def)

subsection \<open>Shape of a node\<close>

definition concrete :: "permission \<Rightarrow> bool" where
  "concrete n \<longleftrightarrow> isValidPermission n \<and> CHR ''*'' \<notin> set n"

lemma valid_segment_chars: "valid_segment s \<Longrightarrow> CHR ''*'' \<notin> set s \<and> CHR ''.'' \<notin> set s"
  by (cases s) (auto simp: valid_segment_def is_alpha_def is_lower_alpha_def is_digit_def list_all_iff)

lemma split_on_snocD:
  assumes "split_on c s = ws @ [w]" "ws \<noteq> []"
  obtains p where "s = p @ c # w" "split_on c p = ws"
proof -
  have no: "\<forall>v \<in> set ws. c \<notin> set v"
    using assms(1) split_on_no_sep [of _ c s] by auto
  have "join [c] (ws @ [w]) = join [c] ws @ c # w"
    using assms(2) by (induction "[c]" ws rule: join.induct) auto
  then have "s = join [c] ws @ c # w" using join_split_on [of c s] assms(1) by simp
  then show ?thesis using that split_on_join [OF assms(2) no] by blast
qed

lemma segments_no_star:
  assumes "list_all valid_segment (split_on CHR ''.'' s)"
  shows "CHR ''*'' \<notin> set s"
proof
  assume "CHR ''*'' \<in> set s"
  from in_split_on [OF this, of "CHR ''.''"]
  obtain w where "w \<in> set (split_on CHR ''.'' s)" "CHR ''*'' \<in> set w" by auto
  with assms valid_segment_chars [of w] show False by (auto simp: list_all_iff)
qed

lemma concrete_iff: "concrete n \<longleftrightarrow> list_all valid_segment (split_on CHR ''.'' n)"
proof
  assume c: "concrete n"
  have "last (split_on CHR ''.'' n) \<noteq> ''*''"
  proof
    assume "last (split_on CHR ''.'' n) = ''*''"
    then have "''*'' \<in> set (split_on CHR ''.'' n)" by (metis last_in_set split_on_not_Nil)
    from split_on_subset [OF this] c show False by (simp add: concrete_def)
  qed
  with c show "list_all valid_segment (split_on CHR ''.'' n)"
    by (auto simp: concrete_def isValidPermission_def Let_def)
next
  assume v: "list_all valid_segment (split_on CHR ''.'' n)"
  have "last (split_on CHR ''.'' n) \<noteq> ''*''"
  proof
    assume "last (split_on CHR ''.'' n) = ''*''"
    then have "''*'' \<in> set (split_on CHR ''.'' n)" by (metis last_in_set split_on_not_Nil)
    with v have "valid_segment ''*''" by (auto simp: list_all_iff)
    then show False by (auto dest: valid_segment_chars)
  qed
  with v segments_no_star [OF v] show "concrete n"
    by (simp add: concrete_def isValidPermission_def Let_def)
qed

lemma valid_cases:
  assumes "isValidPermission a"
  obtains (star) "a = ''*''" | (node) "concrete a" | (wild) p where "a = p @ ''.*''" "concrete p"
proof (cases "last (split_on CHR ''.'' a) = ''*'' \<and> a \<noteq> ''*''")
  case True
  let ?w = "butlast (split_on CHR ''.'' a)"
  from True assms have w: "?w \<noteq> []" "list_all valid_segment ?w"
    by (auto simp: isValidPermission_def Let_def)
  have "split_on CHR ''.'' a = ?w @ [''*'']"
    using True by (metis append_butlast_last_id split_on_not_Nil)
  from split_on_snocD [OF this w(1)] w(2) wild show ?thesis
    by (metis concrete_iff)
next
  case False
  then show ?thesis using assms node star
    by (auto simp: isValidPermission_def Let_def concrete_iff)
qed

lemma concrete_snoc: "concrete p \<Longrightarrow> concrete (p @ ''.x'')"
  using split_on_append_sep [of "CHR ''.''" p "''x''"]
  by (simp add: concrete_iff valid_segment_def is_alpha_def is_lower_alpha_def)

lemma concrete_no_star: "concrete n \<Longrightarrow> CHR ''*'' \<notin> set n"
  by (simp add: concrete_def)

lemma matches_wild:
  "permissionMatches (p @ ''.*'') n \<longleftrightarrow> n = p @ ''.*'' \<or> prefix (p @ ''.'') n"
proof -
  have "p @ ''.*'' \<noteq> ''*''" by (metis append_is_Nil_conv append_self_conv2 butlast.simps(2)
      butlast_append list.distinct(1) not_Cons_self2)
  then show ?thesis
    by (auto simp: permissionMatches_def butlast_append suffix_def)
qed

lemma matches_concrete: "concrete n \<Longrightarrow> permissionMatches n m \<longleftrightarrow> m = n"
  by (auto simp: permissionMatches_def suffix_def dest: concrete_no_star)

lemma matches_star [simp]: "permissionMatches ''*'' n"
  by (simp add: permissionMatches_def)

lemma matched_node:
  assumes "isValidPermission a"
  shows "\<exists>n. concrete n \<and> permissionMatches a n"
  using assms
proof (cases rule: valid_cases)
  case star
  moreover have "concrete ''x''" by code_simp
  ultimately show ?thesis by auto
next
  case (wild p)
  then show ?thesis using concrete_snoc [of p] by (auto simp: matches_wild intro!: exI [of _ "p @ ''.x''"])
qed (auto simp: matches_concrete)

lemma wild_overlap:
  assumes "concrete p" "concrete q"
  shows "permissionOverlaps (p @ ''.*'') (q @ ''.*'') \<longleftrightarrow>
    (\<exists>n. concrete n \<and> permissionMatches (p @ ''.*'') n \<and> permissionMatches (q @ ''.*'') n)"
proof -
  have node: "\<exists>n. concrete n \<and> permissionMatches (r @ ''.*'') n \<and> permissionMatches (t @ ''.*'') n"
    if "concrete t" "permissionMatches (r @ ''.*'') (t @ ''.*'')" for r t
  proof -
    have "prefix (r @ ''.'') (t @ ''.'')"
      using that(2) prefix_snoc [of "r @ ''.''" "t @ ''.''" "CHR ''*''"] by (auto simp: matches_wild)
    then have "prefix (r @ ''.'') (t @ ''.x'')"
      by (metis append_Cons append_Nil append_assoc prefix_prefix)
    with concrete_snoc [OF that(1)] show ?thesis
      by (auto simp: matches_wild intro!: exI [of _ "t @ ''.x''"])
  qed
  have "permissionMatches (p @ ''.*'') (q @ ''.*'') \<or> permissionMatches (q @ ''.*'') (p @ ''.*'')"
    if "concrete n" "permissionMatches (p @ ''.*'') n" "permissionMatches (q @ ''.*'') n" for n
  proof -
    have "prefix (p @ ''.'') n" "prefix (q @ ''.'') n"
      using that concrete_no_star [OF that(1)] by (auto simp: matches_wild)
    then have "prefix (p @ ''.'') (q @ ''.'') \<or> prefix (q @ ''.'') (p @ ''.'')"
      by (metis prefix_same_cases)
    then show ?thesis
      by (metis append_Cons append_Nil append_assoc matches_wild prefix_prefix)
  qed
  then show ?thesis using node [OF assms(2), of p] node [OF assms(1), of q]
    unfolding permissionOverlaps_def by blast
qed

lemma overlap_concrete:
  assumes "isValidPermission a" "concrete b"
  shows "permissionOverlaps a b \<longleftrightarrow>
    (\<exists>n. concrete n \<and> permissionMatches a n \<and> permissionMatches b n)"
  using assms(1)
proof (cases rule: valid_cases)
  case star
  then show ?thesis using assms(2) by (auto simp: permissionOverlaps_def matches_concrete)
next
  case node
  then show ?thesis using assms(2) by (auto simp: permissionOverlaps_def matches_concrete)
next
  case (wild p)
  have "a \<noteq> b" using wild concrete_no_star [OF assms(2)] by auto
  then show ?thesis using assms(2) by (auto simp: permissionOverlaps_def matches_concrete)
qed

lemma permissionOverlaps_sym: "permissionOverlaps a b \<longleftrightarrow> permissionOverlaps b a"
  by (auto simp: permissionOverlaps_def)

lemma permissionOverlaps_common:
  assumes "isValidPermission a" "isValidPermission b"
  shows "permissionOverlaps a b \<longleftrightarrow>
    (\<exists>n. concrete n \<and> permissionMatches a n \<and> permissionMatches b n)"
  using assms(2)
proof (cases rule: valid_cases)
  case star
  then show ?thesis using matched_node [OF assms(1)] by (auto simp: permissionOverlaps_def)
next
  case node
  then show ?thesis using overlap_concrete assms(1) by blast
next
  case b: (wild q)
  from assms(1) show ?thesis
  proof (cases rule: valid_cases)
    case star
    then show ?thesis using matched_node [OF assms(2)] by (auto simp: permissionOverlaps_def)
  next
    case node
    then show ?thesis using overlap_concrete [OF assms(2)] permissionOverlaps_sym [of a b] by blast
  next
    case (wild p)
    then show ?thesis using wild_overlap b by simp
  qed
qed

subsection \<open>Roles and effective grants\<close>

lemma set_effectivePermissions:
  "set (effectivePermissions owner roles extra) =
     (if owner then {''*''} else \<Union> (set ` role_permissions ` set roles)) \<union> set extra"
  by (auto simp: effectivePermissions_def)

lemma distinct_effectivePermissions: "distinct (effectivePermissions owner roles extra)"
  by (simp add: effectivePermissions_def)

lemma hasPermission_star:
  "p \<notin> set SENSITIVE_PERMISSIONS \<Longrightarrow> ''*'' \<in> set held \<Longrightarrow> hasPermission held p"
  by (auto simp: hasPermission_def list_ex_iff intro: bexI [of _ "''*''"])

lemma join_nul_eq:
  assumes "\<forall>p \<in> set xs \<union> set ys. c \<notin> set p" "length xs = length ys"
  shows "join [c] xs = join [c] ys \<longleftrightarrow> xs = ys"
proof (cases "xs = []")
  case False
  with assms(2) have "ys \<noteq> []" by auto
  with False show ?thesis
    using split_on_join [of xs c] split_on_join [of ys c] assms(1) by (metis UnI1 UnI2)
qed (use assms in auto)

lemma seedRoleFor_Some: "seedRoleFor i = Some r \<Longrightarrow> r \<in> set SEED_ROLES \<and> role_id r = i"
  by (auto simp: seedRoleFor_def find_Some_iff)

lemma seed_nodes_registered:
  "list_all (\<lambda>r. list_all (\<lambda>p. p \<in> set PANEL_PERMISSION_IDS) (role_permissions r)
      \<and> distinct (role_permissions r)) SEED_ROLES"
  by code_simp

lemma ids_no_nul: "list_all (\<lambda>p. CHR 0x00 \<notin> set p) PANEL_PERMISSION_IDS"
  by code_simp

lemma seed_permissions_no_nul:
  "seedRoleFor i = Some r \<Longrightarrow> p \<in> set (role_permissions r) \<Longrightarrow> CHR 0x00 \<notin> set p"
  using seed_nodes_registered ids_no_nul seedRoleFor_Some [of i r] by (fastforce simp: list_all_iff)

lemma op_public_iff: "OP_REQUIREMENTS k = Some ''public'' \<longleftrightarrow> k \<in> set PUBLIC_OPS"
proof -
  have "list_all (\<lambda>i. i \<noteq> ''public'') PANEL_PERMISSION_IDS" by code_simp
  then have "(''public'', d) \<notin> set DEFS" for d
    by (force simp: PANEL_PERMISSION_IDS_def list_all_iff)
  then show ?thesis by (auto simp: op_requirement_cases)
qed

lemma task_kinds_cover: "set (concat (map (tasks \<circ> snd) DEFS)) = range kind"
proof -
  let ?kinds = "concat (map (tasks \<circ> snd) DEFS)"
  have "list_all (\<lambda>k. k \<in> set ?kinds) TaskKind" "list_all (\<lambda>k. k \<in> set TaskKind) ?kinds"
    by code_simp+
  then show ?thesis unfolding range_kind by (rule list_all_set_eq)
qed

subsection \<open>Properties\<close>

text \<open>
  C20. The three inverted tables are built without a double classification, they are total and
  nothing more: an operation of the protocol has a requirement and nothing else has one, the
  task kinds of the table are the kinds of the specifications, the events those of the protocol,
  and an operation that needs no session is one of the three listed as public.
\<close>

theorem registry_classifies_everything:
  "buildOpRequirements \<in> range Inr \<and> buildTaskRequirements \<in> range Inr
   \<and> buildEventRequirements \<in> range Inr
   \<and> {k. OP_REQUIREMENTS k \<noteq> None} = set ApiOperation
   \<and> {k. TASK_KIND_PERMISSIONS k \<noteq> None} = range kind
   \<and> {k. EVENT_PERMISSIONS k \<noteq> None} = set ApiEvent_kinds
   \<and> {k. OP_REQUIREMENTS k = Some ''public''} = set PUBLIC_OPS"
proof -
  let ?ops = "PUBLIC_OPS @ SESSION_OPS @ concat (map (ops \<circ> snd) DEFS)"
  have dom: "{k. look m k \<noteq> None} = set (keys m)" for m :: "(string, permission) jsmap"
    by (auto simp: map_of_eq_None_iff)
  have "list_all is_ApiOperation ?ops" by code_simp
  then have "set ?ops \<subseteq> set ApiOperation" unfolding list_all_iff using is_ApiOperation_sound by blast
  moreover have "length ApiOperation = length ?ops" by code_simp
  ultimately have ops: "set ?ops = set ApiOperation"
    by (rule distinct_subset_set_eq [OF distinct_op_keys])
  have "list_all (\<lambda>k. k \<in> set (concat (map (events \<circ> snd) DEFS))) ApiEvent_kinds"
    "list_all (\<lambda>k. k \<in> set ApiEvent_kinds) (concat (map (events \<circ> snd) DEFS))"
    by code_simp+
  then have evs: "set (concat (map (events \<circ> snd) DEFS)) = set ApiEvent_kinds"
    by (rule list_all_set_eq)
  have "{k. OP_REQUIREMENTS k = Some ''public''} = set PUBLIC_OPS"
    by (auto simp: op_public_iff)
  moreover have "{k. OP_REQUIREMENTS k \<noteq> None} = set ApiOperation"
    unfolding OP_REQUIREMENTS_def build_ops table_of_def sum.case dom keys_op_entries by (rule ops)
  moreover have "{k. TASK_KIND_PERMISSIONS k \<noteq> None} = range kind"
    unfolding TASK_KIND_PERMISSIONS_def build_tasks table_of_def sum.case dom keys_inverted
    by (rule task_kinds_cover)
  moreover have "{k. EVENT_PERMISSIONS k \<noteq> None} = set ApiEvent_kinds"
    unfolding EVENT_PERMISSIONS_def build_events table_of_def sum.case dom keys_inverted
    by (rule evs)
  ultimately show ?thesis by (simp add: build_ops build_tasks build_events)
qed



text \<open>
  C21. On well-shaped nodes, two patterns overlap exactly when some concrete node is matched by
  both of them, which is what the gate-style check promises.
\<close>

theorem overlap_iff_common_node:
  assumes "isValidPermission a" "isValidPermission b"
  shows "permissionOverlaps a b \<longleftrightarrow>
    (\<exists>n. isValidPermission n \<and> CHR ''*'' \<notin> set n \<and> permissionMatches a n \<and> permissionMatches b n)"
  using permissionOverlaps_common [OF assms] by (simp add: concrete_def conj_assoc)

theorem overlap_iff_common_node_witness:
  "permissionOverlaps ''app.immich.*'' ''app.immich.admin''
   \<and> (\<exists>n. isValidPermission n \<and> CHR ''*'' \<notin> set n \<and> permissionMatches ''app.immich.*'' n
        \<and> permissionMatches ''app.immich.admin'' n)"
proof -
  have v: "isValidPermission ''app.immich.*''" "isValidPermission ''app.immich.admin''"
    by code_simp+
  have "permissionOverlaps ''app.immich.*'' ''app.immich.admin''" by code_simp
  with overlap_iff_common_node [OF v] show ?thesis by simp
qed

text \<open>
  A user's effective grants are, without repetition, the union of the roles held and the
  ad-hoc grants; the owner's are the marker \<open>*\<close> and the ad-hoc grants, whatever the roles.
\<close>

theorem effective_grants_are_the_union:
  "set (effectivePermissions owner roles extra) =
     (if owner then {''*''} else \<Union> (set ` role_permissions ` set roles)) \<union> set extra
   \<and> distinct (effectivePermissions owner roles extra)"
  by (rule conjI [OF set_effectivePermissions distinct_effectivePermissions])

text \<open>
  The shipped roles form a chain of strictly growing grants. The viewer holds nothing that
  escalates to root and can start no task; the operator reaches no shell, no host command and no
  settings; and no shipped role reaches account or role administration.
\<close>

theorem seeded_roles_chain:
  "\<exists>viewer operator admin. map Some [viewer, operator, admin]
       = map seedRoleFor [''viewer'', ''operator'', ''admin'']
     \<and> set (role_permissions viewer) \<subset> set (role_permissions operator)
     \<and> set (role_permissions operator) \<subset> set (role_permissions admin)
     \<and> escalationsIn (role_permissions viewer) = []
     \<and> \<not> hasPermission (role_permissions viewer) ''panel.tasks.run''
     \<and> \<not> hasPermission (role_permissions operator) ''panel.terminal''
     \<and> \<not> hasPermission (role_permissions operator) ''panel.exec''
     \<and> \<not> hasPermission (role_permissions operator) ''panel.docker.exec''
     \<and> \<not> hasPermission (role_permissions operator) ''panel.servers.admin''
     \<and> \<not> hasPermission (role_permissions operator) ''panel.settings.admin''
     \<and> \<not> hasPermission (role_permissions admin) ''panel.users.admin''
     \<and> \<not> hasPermission (role_permissions admin) ''panel.roles.admin''"
proof -
  let ?v = "SEED_ROLES ! 0" and ?o = "SEED_ROLES ! 1" and ?a = "SEED_ROLES ! 2"
  have "map Some [?v, ?o, ?a] = map seedRoleFor [''viewer'', ''operator'', ''admin'']"
    by (simp add: seedRoleFor_def SEED_ROLES_def)
  moreover have "set (role_permissions ?v) \<subset> set (role_permissions ?o)"
    "set (role_permissions ?o) \<subset> set (role_permissions ?a)"
    by (rule list_all_psubset; code_simp)+
  moreover have "escalationsIn (role_permissions ?v) = []" by code_simp
  moreover have "\<not> hasPermission (role_permissions ?v) ''panel.tasks.run''"
    "\<not> hasPermission (role_permissions ?o) ''panel.terminal''"
    "\<not> hasPermission (role_permissions ?o) ''panel.exec''"
    "\<not> hasPermission (role_permissions ?o) ''panel.docker.exec''"
    "\<not> hasPermission (role_permissions ?o) ''panel.servers.admin''"
    "\<not> hasPermission (role_permissions ?o) ''panel.settings.admin''"
    "\<not> hasPermission (role_permissions ?a) ''panel.users.admin''"
    "\<not> hasPermission (role_permissions ?a) ''panel.roles.admin''"
    by code_simp+
  ultimately show ?thesis by blast
qed

text \<open>
  A role matches its shipped default exactly when the texts agree and the grants agree up to
  order, for grants in which no NUL occurs (no valid node has one).
\<close>

theorem matches_seed_up_to_order:
  assumes "seedRoleFor (role_id r) = Some seed"
    and "\<forall>p \<in> set (role_permissions r). CHR 0x00 \<notin> set p"
  shows "roleMatchesSeed r \<longleftrightarrow>
    role_name r = role_name seed \<and> role_description r = role_description seed
    \<and> mset (role_permissions r) = mset (role_permissions seed)"
proof -
  let ?p = "role_permissions r" and ?q = "role_permissions seed"
  have "join [CHR 0x00] (sort ?p) = join [CHR 0x00] (sort ?q) \<longleftrightarrow> sort ?p = sort ?q"
    if "length ?p = length ?q"
    using that assms(2) seed_permissions_no_nul [OF assms(1)] by (intro join_nul_eq) auto
  moreover have "length ?p = length ?q" if "mset ?p = mset ?q" using that by (rule mset_eq_length)
  moreover have "sort ?p = sort ?q \<longleftrightarrow> mset ?p = mset ?q"
    by (metis mset_sort properties_for_sort sorted_sort)
  ultimately show ?thesis using assms(1) by (auto simp: roleMatchesSeed_def)
qed

theorem matches_seed_up_to_order_witness:
  "roleMatchesSeed ((SEED_ROLES ! 0)\<lparr>role_permissions := rev (role_permissions (SEED_ROLES ! 0))\<rparr>)"
proof -
  let ?r = "(SEED_ROLES ! 0)\<lparr>role_permissions := rev (role_permissions (SEED_ROLES ! 0))\<rparr>"
  have s: "seedRoleFor (role_id ?r) = Some (SEED_ROLES ! 0)"
    by (simp add: seedRoleFor_def SEED_ROLES_def)
  have n: "\<forall>p \<in> set (role_permissions ?r). CHR 0x00 \<notin> set p"
    by (simp add: SEED_ROLES_def)
  show ?thesis using matches_seed_up_to_order [OF s n] by simp
qed

end
