(* ===== verification/System_Users.thy ===== *)
theory System_Users
  imports Permissions
begin

text \<open>
  The account-name guard and the shell identity rule of
  \<open>apps/server/src/features/system-users/system-users.ts\<close>.
\<close>

datatype shell_error = InvalidSystemUsername string | NoSystemUserMapped

text \<open>\<open>/^[a-z_][a-z0-9_-]{0,31}\$?$/\<close>\<close>

definition name_start :: "char \<Rightarrow> bool" where
  "name_start c \<longleftrightarrow> is_lower_alpha c \<or> c = CHR ''_''"

definition name_char :: "char \<Rightarrow> bool" where
  "name_char c \<longleftrightarrow> is_lower_alpha c \<or> is_digit c \<or> c = CHR ''_'' \<or> c = CHR ''-''"

definition SYSTEM_USERNAME_RE :: "string \<Rightarrow> bool" where
  "SYSTEM_USERNAME_RE s \<longleftrightarrow>
     (let body = (if s \<noteq> [] \<and> last s = CHR ''$'' then butlast s else s)
      in body \<noteq> [] \<and> length body \<le> 32 \<and> name_start (hd body) \<and> list_all name_char (tl body))"

definition assertSystemUsername :: "string \<Rightarrow> shell_error + unit" where
  "assertSystemUsername name =
     (if SYSTEM_USERNAME_RE name then Inr () else Inl (InvalidSystemUsername name))"

text \<open>
  \<open>Inr None\<close> is the agent's own user, which is root. An empty mapping is falsy and counts as
  none.
\<close>

definition resolveShellUser :: "UserInfo \<Rightarrow> shell_error + string option" where
  "resolveShellUser user =
     (case user_systemUser user of
        Some name \<Rightarrow>
          if name \<noteq> [] then Inr (Some name)
          else if userCan (Some user) ''panel.exec'' then Inr None else Inl NoSystemUserMapped
      | None \<Rightarrow>
          if userCan (Some user) ''panel.exec'' then Inr None else Inl NoSystemUserMapped)"

text \<open>Characters a POSIX shell gives a meaning to, none of which an accepted name contains.\<close>

definition shell_special :: "char list" where
  "shell_special = '' ;&|<>()*?[]#~=%!{}/'' @ [CHR 0x09, CHR 0x0A, CHR 0x22, CHR 0x27, CHR 0x5C, CHR 0x60]"

lemma name_char_plain: "name_char c \<Longrightarrow> c \<notin> set shell_special"
  by (auto simp: name_char_def shell_special_def is_lower_alpha_def is_digit_def)

lemma name_start_char: "name_start c \<Longrightarrow> name_char c"
  by (auto simp: name_start_def name_char_def)

lemma system_username_plain:
  assumes "SYSTEM_USERNAME_RE s"
  shows "s \<noteq> [] \<and> length s \<le> 33 \<and> set s \<inter> set shell_special = {} \<and> hd s \<noteq> CHR ''-''"
proof -
  define body where "body = (if s \<noteq> [] \<and> last s = CHR ''$'' then butlast s else s)"
  from assms have b: "body \<noteq> []" "length body \<le> 32" "name_start (hd body)"
    "list_all name_char (tl body)"
    by (auto simp: SYSTEM_USERNAME_RE_def body_def Let_def)
  have s: "s = body \<or> s = body @ [CHR ''$'']"
    unfolding body_def by (metis append_butlast_last_id)
  have "list_all name_char body"
    using b by (cases body) (auto simp: name_start_char)
  then have "set body \<inter> set shell_special = {}"
    using name_char_plain by (auto simp: list_all_iff)
  moreover have "CHR ''$'' \<notin> set shell_special" by code_simp
  moreover have "hd s = hd body" using s b(1) by auto
  moreover have "hd body \<noteq> CHR ''-''"
    using b(3) by (auto simp: name_start_def is_lower_alpha_def)
  ultimately show ?thesis using s b by auto
qed

end
