(* ===== verification/Agent_Files.thy ===== *)
theory Agent_Files
  imports Host_Agent System_Users "HOL-Library.Product_Lexorder"
begin

text \<open>
  File operations of the agent on its host (\<open>apps/server/src/agent/agent.ts\<close>): paths, writing,
  creating, deleting and moving, listing and reading, glob expansion and the argv of a shell.
  The host's file system is an association of absolute paths to nodes; what differs between hosts
  (where mounts lie, where links lead) is an argument.
\<close>

subsection \<open>Paths\<close>

text \<open>\<open>path.resolve("/", p || "/")\<close>: empty and \<open>.\<close> segments go, \<open>..\<close> takes one segment back.\<close>

definition seg_step :: "string list \<Rightarrow> string \<Rightarrow> string list" where
  "seg_step acc seg =
     (if seg = [] \<or> seg = ''.'' then acc else if seg = ''..'' then butlast acc else acc @ [seg])"

definition path_segs :: "string \<Rightarrow> string list" where
  "path_segs p = foldl seg_step [] (split_on (CHR ''/'') p)"

definition abs_path :: "string list \<Rightarrow> string" where
  "abs_path segs = CHR ''/'' # join ''/'' segs"

definition normalizePath :: "string \<Rightarrow> string" where
  "normalizePath p = abs_path (path_segs p)"

text \<open>Segments of a resolved path.\<close>

definition clean :: "string list \<Rightarrow> bool" where
  "clean segs \<longleftrightarrow> (\<forall>s\<in>set segs. s \<noteq> [] \<and> s \<noteq> ''.'' \<and> s \<noteq> ''..'' \<and> CHR ''/'' \<notin> set s)"

lemma clean_step: "clean acc \<Longrightarrow> CHR ''/'' \<notin> set seg \<Longrightarrow> clean (seg_step acc seg)"
  unfolding clean_def seg_step_def using in_set_butlastD [of _ acc] by (simp split: if_split)

lemma clean_segs: "clean (path_segs p)"
proof -
  have fold: "clean (foldl seg_step acc segs)" if "clean acc" "\<forall>s\<in>set segs. CHR ''/'' \<notin> set s" for acc segs
    using that by (induction segs arbitrary: acc) (simp_all add: clean_step)
  show ?thesis
    unfolding path_segs_def
    by (rule fold) (use split_on_no_sep in \<open>auto simp: clean_def\<close>)
qed

lemma foldl_clean: "clean segs \<Longrightarrow> foldl seg_step acc segs = acc @ segs"
  by (induction segs arbitrary: acc) (auto simp: clean_def seg_step_def)

lemma path_segs_abs: "clean segs \<Longrightarrow> path_segs (abs_path segs) = segs"
proof (cases "segs = []")
  case False
  assume c: "clean segs"
  then have "split_on (CHR ''/'') (join ''/'' segs) = segs"
    using False by (intro split_on_join) (auto simp: clean_def)
  then show ?thesis using foldl_clean [OF c] by (simp add: path_segs_def abs_path_def seg_step_def)
qed (simp add: path_segs_def abs_path_def seg_step_def)

lemma normalizePath_idem [simp]: "normalizePath (normalizePath p) = normalizePath p"
  by (simp add: normalizePath_def path_segs_abs clean_segs)

lemma abs_path_inject: "clean a \<Longrightarrow> clean b \<Longrightarrow> abs_path a = abs_path b \<longleftrightarrow> a = b"
  by (metis path_segs_abs)

lemma normalizePath_root: "normalizePath p = ''/'' \<longleftrightarrow> path_segs p = []"
  using abs_path_inject [OF clean_segs, of "[]" p] by (simp add: normalizePath_def abs_path_def clean_def)

text \<open>The directory a path is in, the name it has there, and lying under a directory.\<close>

definition dirname :: "string \<Rightarrow> string" where
  "dirname p = (case break_last (CHR ''/'') p of None \<Rightarrow> ''/'' | Some (d, _) \<Rightarrow> if d = [] then ''/'' else d)"

definition basename :: "string \<Rightarrow> string" where
  "basename p = (case break_last (CHR ''/'') p of None \<Rightarrow> p | Some (_, b) \<Rightarrow> b)"

definition below :: "string \<Rightarrow> string \<Rightarrow> bool" where
  "below d q \<longleftrightarrow> (if d = ''/'' then q \<noteq> ''/'' else prefix (d @ ''/'') q)"

subsection \<open>The file system\<close>

datatype node = File "char list" | Dir | Symlink string | Other

type_synonym files = "(string, node) jsmap"

datatype fs_error = ENOENT | EEXIST | ENOTDIR | EISDIR | ENOTEMPTY | EINVAL | EXDEV | HostIO

text \<open>
  Which device a directory is on, where links lead (\<open>None\<close>: nowhere), whether an operation hits an
  I/O error, and the size, modification time and mode of an entry.
\<close>

record host_env =
  he_dev :: "string \<Rightarrow> nat"
  he_real :: "string \<Rightarrow> string option"
  he_io :: "string \<Rightarrow> bool"
  he_stat :: "string \<Rightarrow> (nat \<times> ms \<times> nat) option"

definition is_dir :: "files \<Rightarrow> string \<Rightarrow> bool" where
  "is_dir fs d \<longleftrightarrow> d = ''/'' \<or> look fs d = Some Dir"

definition real_of :: "host_env \<Rightarrow> string \<Rightarrow> string" where
  "real_of env p = (case he_real env p of None \<Rightarrow> p | Some q \<Rightarrow> q)"

definition in_tree :: "string \<Rightarrow> string \<Rightarrow> bool" where
  "in_tree d q \<longleftrightarrow> q = d \<or> below d q"

text \<open>\<open>fs.writeFile\<close>: through links, creating or replacing a regular file.\<close>

definition fs_writeFile :: "host_env \<Rightarrow> string \<Rightarrow> char list \<Rightarrow> files \<Rightarrow> (fs_error + unit) \<times> files" where
  "fs_writeFile env p d fs =
     (let q = real_of env p
      in if look fs q = Some Dir \<or> q = ''/'' then (Inl EISDIR, fs)
         else if \<not> is_dir fs (dirname q) then (Inl ENOENT, fs)
         else if he_io env q then (Inl HostIO, fs)
         else (Inr (), put q (File d) fs))"

text \<open>\<open>fs.rm(p, {recursive})\<close> and \<open>fs.rm(p, {force})\<close> of a file.\<close>

definition fs_rm_tree :: "host_env \<Rightarrow> string \<Rightarrow> files \<Rightarrow> (fs_error + unit) \<times> files" where
  "fs_rm_tree env p fs =
     (if look fs p = None then (Inl ENOENT, fs)
      else if he_io env p then (Inl HostIO, fs)
      else (Inr (), filter (\<lambda>(q, _). \<not> in_tree p q) fs))"

definition fs_rm_file :: "string \<Rightarrow> files \<Rightarrow> files" where
  "fs_rm_file p fs = (if look fs p = Some Dir then fs else del p fs)"

text \<open>\<open>rename(2)\<close>.\<close>

definition moved :: "string \<Rightarrow> string \<Rightarrow> string \<Rightarrow> string" where
  "moved src dest q = dest @ drop (length src) q"

definition rename_error :: "host_env \<Rightarrow> string \<Rightarrow> string \<Rightarrow> files \<Rightarrow> fs_error option" where
  "rename_error env src dest fs =
     (if look fs src = None \<or> \<not> is_dir fs (dirname dest) then Some ENOENT
      else if he_dev env (dirname src) \<noteq> he_dev env (dirname dest) then Some EXDEV
      else if below src dest then Some EINVAL
      else if dest = ''/'' \<or> look fs src \<noteq> Some Dir \<and> look fs dest = Some Dir then Some EISDIR
      else if look fs src = Some Dir \<and> look fs dest \<noteq> None \<and> look fs dest \<noteq> Some Dir then Some ENOTDIR
      else if look fs dest = Some Dir \<and> src \<noteq> dest \<and> (\<exists>(q, _)\<in>set fs. below dest q) then Some ENOTEMPTY
      else if he_io env src then Some HostIO
      else None)"

definition fs_rename :: "host_env \<Rightarrow> string \<Rightarrow> string \<Rightarrow> files \<Rightarrow> (fs_error + unit) \<times> files" where
  "fs_rename env src dest fs =
     (case rename_error env src dest fs of
        Some e \<Rightarrow> (Inl e, fs)
      | None \<Rightarrow>
          if src = dest then (Inr (), fs)
          else (Inr (), map (\<lambda>(q, n). (if in_tree src q then moved src dest q else q, n))
                          (filter (\<lambda>(q, _). q \<noteq> dest) fs)))"

text \<open>
  \<open>fs.cp(src, dest, {recursive, force, verbatimSymlinks})\<close>: entry by entry, merging into a
  directory that is there and replacing what is not a directory; the first clash or I/O error ends
  it with what was copied so far in place.
\<close>

fun copy_entries :: "host_env \<Rightarrow> (string \<times> node) list \<Rightarrow> files \<Rightarrow> (fs_error + unit) \<times> files" where
  "copy_entries env [] fs = (Inr (), fs)"
| "copy_entries env ((p, n) # es) fs =
     (if he_io env p then (Inl HostIO, fs)
      else if n = Dir \<and> look fs p = Some Dir then copy_entries env es fs
      else if n = Dir \<and> look fs p \<noteq> None then (Inl ENOTDIR, fs)
      else if n \<noteq> Dir \<and> look fs p = Some Dir then (Inl EISDIR, fs)
      else copy_entries env es (put p n fs))"

definition fs_cp :: "host_env \<Rightarrow> string \<Rightarrow> string \<Rightarrow> files \<Rightarrow> (fs_error + unit) \<times> files" where
  "fs_cp env src dest fs =
     (if look fs src = None then (Inl ENOENT, fs)
      else if src = dest \<or> below src dest then (Inl EINVAL, fs)
      else copy_entries env (map (\<lambda>(q, n). (moved src dest q, n)) (filter (\<lambda>(q, _). in_tree src q) fs)) fs)"

subsection \<open>Operations\<close>

datatype file_error = Fs fs_error | RefusingRoot

definition fs_result :: "(fs_error + unit) \<times> files \<Rightarrow> (file_error + unit) \<times> files" where
  "fs_result r = (case r of (Inl e, fs) \<Rightarrow> (Inl (Fs e), fs) | (Inr u, fs) \<Rightarrow> (Inr u, fs))"

definition runWriteFile :: "host_env \<Rightarrow> string \<Rightarrow> char list \<Rightarrow> files \<Rightarrow> (file_error + unit) \<times> files" where
  "runWriteFile env p content fs = fs_result (fs_writeFile env (normalizePath p) content fs)"

text \<open>\<open>fs.mkdir(p, {recursive: true})\<close>: every directory on the way that is missing.\<close>

fun fs_mkdirs :: "string list \<Rightarrow> string list \<Rightarrow> files \<Rightarrow> (fs_error + unit) \<times> files" where
  "fs_mkdirs done [] fs = (Inr (), fs)"
| "fs_mkdirs done (s # rest) fs =
     (let p = abs_path (done @ [s])
      in case look fs p of
           None \<Rightarrow> fs_mkdirs (done @ [s]) rest (put p Dir fs)
         | Some Dir \<Rightarrow> fs_mkdirs (done @ [s]) rest fs
         | Some _ \<Rightarrow> (Inl (if rest = [] then EEXIST else ENOTDIR), fs))"

definition runCreateDir :: "string \<Rightarrow> files \<Rightarrow> (file_error + unit) \<times> files" where
  "runCreateDir p fs = fs_result (fs_mkdirs [] (path_segs p) fs)"

definition runDeletePath :: "host_env \<Rightarrow> string \<Rightarrow> files \<Rightarrow> (file_error + unit) \<times> files" where
  "runDeletePath env p fs =
     (let target = normalizePath p
      in if target = ''/'' then (Inl RefusingRoot, fs) else fs_result (fs_rm_tree env target fs))"

definition runRenamePath :: "host_env \<Rightarrow> string \<Rightarrow> string \<Rightarrow> files \<Rightarrow> (file_error + unit) \<times> files" where
  "runRenamePath env from to fs =
     (let src = normalizePath from; dest = normalizePath to
      in case fs_rename env src dest fs of
           (Inr u, fs1) \<Rightarrow> (Inr u, fs1)
         | (Inl e, fs1) \<Rightarrow>
             if e \<noteq> EXDEV then (Inl (Fs e), fs1)
             else (case fs_cp env src dest fs1 of
                 (Inl e', fs2) \<Rightarrow> (Inl (Fs e'), fs2)
               | (Inr _, fs2) \<Rightarrow> fs_result (fs_rm_tree env src fs2)))"

subsection \<open>Where an operation reaches\<close>

text \<open>A tree: no path twice, no entry for the root, and directories above everything.\<close>

definition tree_ok :: "files \<Rightarrow> bool" where
  "tree_ok fs \<longleftrightarrow> unique_keys fs \<and> look fs ''/'' = None
     \<and> (\<forall>q\<in>set (keys fs). \<forall>d. normalizePath d = d \<longrightarrow> below d q \<longrightarrow> is_dir fs d)"

lemma look_filter_key: "look (filter (\<lambda>(q, _). p q) m) x = (if p x then look m x else None)"
  by (induction m) auto

lemma look_map_key:
  "(\<And>q. q \<in> set (keys m) \<Longrightarrow> g q = g x \<Longrightarrow> q = x) \<Longrightarrow> look (map (\<lambda>(q, n). (g q, n)) m) (g x) = look m x"
proof (induction m)
  case (Cons e m)
  have IH: "look (map (\<lambda>(q, n). (g q, n)) m) (g x) = look m x" by (rule Cons.IH) (use Cons.prems in simp)
  have "g (fst e) = g x \<longleftrightarrow> fst e = x" using Cons.prems [of "fst e"] by auto
  then show ?case using IH by (cases e) auto
qed simp

lemma look_map_key_None: "(\<And>q. q \<in> set (keys m) \<Longrightarrow> g q \<noteq> x) \<Longrightarrow> look (map (\<lambda>(q, n). (g q, n)) m) x = None"
proof (induction m)
  case (Cons e m)
  have "look (map (\<lambda>(q, n). (g q, n)) m) x = None" by (rule Cons.IH) (use Cons.prems in simp)
  moreover have "g (fst e) \<noteq> x" using Cons.prems [of "fst e"] by simp
  ultimately show ?case by (cases e) simp
qed simp

lemma look_in_keys: "look m q \<noteq> None \<longleftrightarrow> q \<in> set (keys m)"
  by (simp add: map_of_eq_None_iff)

lemma in_tree_root: "d \<noteq> ''/'' \<Longrightarrow> in_tree d q \<longleftrightarrow> (\<exists>t. q = d @ t \<and> (t = [] \<or> hd t = CHR ''/''))"
proof -
  assume d: "d \<noteq> ''/''"
  have "prefix (d @ ''/'') q \<longleftrightarrow> (\<exists>t. q = d @ t \<and> t \<noteq> [] \<and> hd t = CHR ''/'')"
    by (auto simp: prefix_def) (metis hd_Cons_tl)
  with d show ?thesis by (auto simp: in_tree_def below_def)
qed

lemma trees_apart:
  assumes "src \<noteq> ''/''" "dest \<noteq> ''/''" "src \<noteq> dest" "\<not> below src dest" "\<not> below dest src" "in_tree src q"
  shows "\<not> in_tree dest q"
proof
  assume "in_tree dest q"
  then have "q = dest \<or> prefix (dest @ ''/'') q" "q = src \<or> prefix (src @ ''/'') q"
    using assms by (auto simp: in_tree_def below_def)
  moreover have False if "prefix (a @ ''/'') q" "prefix (b @ ''/'') q" "a \<noteq> b" "\<not> prefix (a @ ''/'') b" "\<not> prefix (b @ ''/'') a" for a b
    using prefix_same_cases [OF that(1,2)] that(3-5) by (auto simp: prefix_snoc)
  ultimately show False using assms by (metis below_def)
qed

lemma moved_in: "dest \<noteq> ''/'' \<Longrightarrow> src \<noteq> ''/'' \<Longrightarrow> in_tree src q \<Longrightarrow> in_tree dest (moved src dest q)"
  by (auto simp: in_tree_root moved_def)

lemma moved_back: "src \<noteq> ''/'' \<Longrightarrow> in_tree src q \<Longrightarrow> moved dest src (moved src dest q) = q"
  by (auto simp: in_tree_root moved_def)

text \<open>A successful rename, and the copy.\<close>

lemma rename_look:
  assumes ok: "tree_ok fs" and nr: "src \<noteq> ''/''" "dest \<noteq> ''/''" "normalizePath dest = dest"
    and ne: "src \<noteq> dest" "\<not> below dest src" and r: "rename_error env src dest fs = None"
  shows "look (snd (fs_rename env src dest fs)) x =
    (if in_tree dest x then look fs (moved dest src x) else if in_tree src x then None else look fs x)"
proof -
  define g where "g q = (if in_tree src q then moved src dest q else q)" for q
  define m where "m = filter (\<lambda>(q, _). q \<noteq> dest) fs"
  have nb: "\<not> below src dest" using r by (simp add: rename_error_def split: if_splits)
  note apart = trees_apart [OF nr(1,2) ne(1) nb ne(2)]
  have res: "snd (fs_rename env src dest fs) = map (\<lambda>(q, n). (g q, n)) m"
    using r ne(1) by (simp add: fs_rename_def g_def m_def)
  have none: "\<not> below dest q" if "q \<in> set (keys fs)" for q
  proof
    assume b: "below dest q"
    then have "look fs dest = Some Dir" using ok that nr(2,3) unfolding tree_ok_def is_dir_def by blast
    with b that ne(1) r show False by (auto simp: rename_error_def split: if_splits)
  qed
  have gone: "\<not> in_tree dest q" if "q \<in> set (keys m)" for q
    using that none [of q] by (auto simp: m_def in_tree_def)
  consider (d) "in_tree dest x" | (s) "in_tree src x" "\<not> in_tree dest x" | (o) "\<not> in_tree src x" "\<not> in_tree dest x" by blast
  then show ?thesis
  proof cases
    case d
    define y where "y = moved dest src x"
    have y: "in_tree src y" "g y = x"
      using moved_in [OF nr(1,2) d] moved_back [OF nr(2) d] by (simp_all add: y_def g_def)
    have "q = y" if "q \<in> set (keys m)" "g q = g y" for q
    proof -
      have "in_tree src q" using that gone d y by (auto simp: g_def split: if_splits)
      then show "q = y" using that(2) y moved_back [OF nr(1)] by (metis g_def)
    qed
    then have "look (map (\<lambda>(q, n). (g q, n)) m) (g y) = look m y" by (rule look_map_key)
    moreover have "y \<noteq> dest" using apart [OF y(1)] by (auto simp: in_tree_def)
    ultimately show ?thesis using d y by (simp add: res y_def [symmetric] m_def look_filter_key)
  next
    case s
    have "g q \<noteq> x" if "q \<in> set (keys m)" for q
      using s moved_in [OF nr(2,1)] by (auto simp: g_def)
    then have "look (map (\<lambda>(q, n). (g q, n)) m) x = None" by (rule look_map_key_None)
    then show ?thesis using s by (simp add: res)
  next
    case o
    then have "g x = x" by (simp add: g_def)
    moreover have "q = x" if "g q = g x" for q
      using that o moved_in [OF nr(2,1), of q] by (auto simp: g_def split: if_splits)
    ultimately have "look (map (\<lambda>(q, n). (g q, n)) m) x = look m x" using look_map_key [of m g x] by simp
    then show ?thesis using o by (auto simp: res m_def look_filter_key in_tree_def)
  qed
qed

lemma copy_frame: "copy_entries env es fs = (r, fs') \<Longrightarrow> p \<notin> set (keys es) \<Longrightarrow> look fs' p = look fs p"
  by (induction env es fs arbitrary: r fs' rule: copy_entries.induct) (auto split: if_splits)

lemma copy_whole:
  "copy_entries env es fs = (Inr (), fs') \<Longrightarrow> unique_keys es \<Longrightarrow> look es p = Some n \<Longrightarrow> look fs' p = Some n"
proof (induction env es fs arbitrary: fs' rule: copy_entries.induct)
  case (2 env q m es fs)
  show ?case
  proof (cases "q = p")
    case True
    then have "n = m" "p \<notin> set (keys es)" using 2(4,5) by auto
    moreover obtain fs1 where "copy_entries env es fs1 = (Inr (), fs')" "look fs1 p = Some m"
      using 2(3) True by (auto split: if_splits)
    ultimately show ?thesis using copy_frame by metis
  next
    case False
    then show ?thesis using 2 by (auto split: if_splits)
  qed
qed simp

lemma delete_look:
  assumes "runDeletePath env p fs = (r, fs')"
  shows "look fs' q = (if r = Inr () \<and> in_tree (normalizePath p) q then None else look fs q)"
proof (cases "normalizePath p = ''/''")
  case False
  then have "fs_result (fs_rm_tree env (normalizePath p) fs) = (r, fs')" using assms by (simp add: runDeletePath_def Let_def)
  then show ?thesis by (auto simp: fs_rm_tree_def fs_result_def look_filter_key split: if_splits)
qed (use assms in \<open>auto simp: runDeletePath_def\<close>)

text \<open>A copy across mounts, then the removal of the source.\<close>

lemma copy_look:
  assumes ok: "tree_ok fs" and nr: "src \<noteq> ''/''" "dest \<noteq> ''/''" and ne: "src \<noteq> dest" "\<not> below src dest" "\<not> below dest src"
    and cp: "fs_cp env src dest fs = (r, fs')"
  shows "\<not> in_tree dest q \<Longrightarrow> look fs' q = look fs q"
    and "r = Inr () \<Longrightarrow> in_tree src q \<Longrightarrow> look fs q = Some n \<Longrightarrow> look fs' (moved src dest q) = Some n"
proof -
  define here where "here = filter (\<lambda>(q, _). in_tree src q) fs"
  define es where "es = map (\<lambda>(q, n). (moved src dest q, n)) here"
  have src: "in_tree src x" if "x \<in> set (keys here)" for x using that by (auto simp: here_def)
  have run: "copy_entries env es fs = (r, fs')" if "look fs src \<noteq> None"
    using cp that ne by (simp add: fs_cp_def es_def here_def)
  show "look fs' q = look fs q" if "\<not> in_tree dest q"
  proof (cases "look fs src")
    case None
    then show ?thesis using cp by (simp add: fs_cp_def)
  next
    case (Some n)
    have "q \<notin> set (keys es)"
    proof
      assume "q \<in> set (keys es)"
      then obtain e where "e \<in> set here" "q = moved src dest (fst e)" by (auto simp: es_def)
      then show False using that src [of "fst e"] moved_in [OF nr(2,1), of "fst e"] by simp
    qed
    then show ?thesis using copy_frame run Some by (metis option.distinct(1))
  qed
  have inj: "x = y" if "in_tree src x" "in_tree src y" "moved src dest x = moved src dest y" for x y
    using that moved_back [OF nr(1)] by metis
  assume "r = Inr ()" "in_tree src q" "look fs q = Some n"
  moreover from this have "copy_entries env es fs = (Inr (), fs')" using cp run by (auto simp: fs_cp_def split: if_splits)
  moreover have "unique_keys es"
  proof -
    have d: "unique_keys here" using ok by (simp add: here_def tree_ok_def unique_keys_filter)
    have "distinct (map (moved src dest) (keys here))"
      by (intro distinct_map [THEN iffD2] conjI inj_onI d) (rule inj, blast intro: src, blast intro: src)
    moreover have "keys es = map (moved src dest) (keys here)" by (auto simp: es_def)
    ultimately show ?thesis by (simp only:)
  qed
  moreover have "look es (moved src dest q) = Some n"
  proof -
    have "look es (moved src dest q) = look here q"
      unfolding es_def by (rule look_map_key) (use src inj \<open>in_tree src q\<close> in blast)
    then show ?thesis using \<open>in_tree src q\<close> \<open>look fs q = Some n\<close> by (simp add: here_def look_filter_key)
  qed
  ultimately show "look fs' (moved src dest q) = Some n" using copy_whole by metis
qed

text \<open>What a move has done, by its outcome.\<close>

definition move_kept :: "string \<Rightarrow> string \<Rightarrow> bool \<Rightarrow> files \<Rightarrow> files \<Rightarrow> string \<Rightarrow> bool" where
  "move_kept src dest success fs fs' q \<longleftrightarrow>
     (\<not> in_tree src q \<and> \<not> in_tree dest q \<longrightarrow> look fs' q = look fs q)
     \<and> (in_tree src q \<and> \<not> success \<longrightarrow> look fs' q = look fs q)
     \<and> (in_tree src q \<and> success \<longrightarrow>
          (look fs q \<noteq> None \<longrightarrow> look fs' (moved src dest q) = look fs q)
          \<and> (src \<noteq> dest \<longrightarrow> look fs' q = None))"

lemma move_look:
  assumes ok: "tree_ok fs" and n: "normalizePath src = src" "normalizePath dest = dest"
    and apart: "\<not> below dest src" and mv: "runRenamePath env src dest fs = (r, fs')"
  shows "move_kept src dest (r = Inr ()) fs fs' q"
proof (cases "rename_error env src dest fs")
  case None
  show ?thesis
  proof (cases "src = dest")
    case True
    have "src \<noteq> ''/''" using None ok by (auto simp: rename_error_def tree_ok_def split: if_splits)
    then have "in_tree src q \<Longrightarrow> moved src src q = q" by (auto simp: in_tree_root moved_def)
    then show ?thesis using mv None n True by (simp add: runRenamePath_def fs_rename_def move_kept_def)
  next
    case False
    have "look fs src \<noteq> None" "dest \<noteq> ''/''" "\<not> below src dest" using None by (auto simp: rename_error_def split: if_splits)
    then have nr: "src \<noteq> ''/''" "dest \<noteq> ''/''" using ok by (auto simp: tree_ok_def)
    note apart = trees_apart [OF nr False \<open>\<not> below src dest\<close> apart]
    have out: "r = Inr ()" "fs' = snd (fs_rename env src dest fs)"
      using mv None n False by (auto simp: runRenamePath_def fs_rename_def)
    note look = rename_look [OF ok nr n(2) False \<open>\<not> below dest src\<close> None]
    show ?thesis
      using apart [of q] moved_in [OF nr(2,1), of q] moved_back [OF nr(1), of q dest] False
      by (auto simp: move_kept_def out look)
  qed
next
  case (Some e)
  note err = this
  have ren: "fs_rename env src dest fs = (Inl e, fs)" using Some by (simp add: fs_rename_def)
  show ?thesis
  proof (cases "e = EXDEV")
    case False
    then show ?thesis using mv ren n by (auto simp: runRenamePath_def move_kept_def)
  next
    case True
    have s: "look fs src \<noteq> None" and dev: "he_dev env (dirname src) \<noteq> he_dev env (dirname dest)"
      using Some True by (auto simp: rename_error_def split: if_splits)
    then have nr: "src \<noteq> ''/''" and ne: "src \<noteq> dest" using ok by (auto simp: tree_ok_def)
    obtain r1 fs1 where cp: "fs_cp env src dest fs = (r1, fs1)" by fastforce
    show ?thesis
    proof (cases "below src dest")
      case True
      then show ?thesis using mv ren \<open>e = EXDEV\<close> cp s n by (auto simp: runRenamePath_def fs_cp_def move_kept_def)
    next
      case nb: False
      have nd: "dest \<noteq> ''/''" using apart nr by (auto simp: below_def)
      note look = copy_look [OF ok nr nd ne nb apart cp]
      note away = trees_apart [OF nr nd ne nb apart]
      show ?thesis
      proof (cases "r1 = Inr ()")
        case False
        then have "fs' = fs1" "r \<noteq> Inr ()"
          using mv ren True cp n by (auto simp: runRenamePath_def split: sum.splits)
        then show ?thesis using look(1) away [of q] by (auto simp: move_kept_def)
      next
        case copied: True
        then have rm: "fs_result (fs_rm_tree env src fs1) = (r, fs')"
          using mv ren \<open>e = EXDEV\<close> cp n by (simp add: runRenamePath_def)
        then have out: "look fs' x = (if r = Inr () \<and> in_tree src x then None else look fs1 x)" for x
          by (auto simp: fs_rm_tree_def fs_result_def look_filter_key split: if_splits)
        have home: "\<not> in_tree src x" if "in_tree dest x" for x
          using trees_apart [OF nd nr ne [symmetric] apart nb] that by blast
        show ?thesis
          using look away [of q] copied moved_in [OF nd nr, of q] home [of "moved src dest q"] ne
          by (auto simp: move_kept_def out)
      qed
    qed
  qed
qed


definition demo_files :: files where
  "demo_files = [(''/m'', Dir), (''/a'', Dir), (''/a/f'', File ''x'')]"

definition demo_host_env :: host_env where
  "demo_host_env = \<lparr>he_dev = (\<lambda>d. if d = ''/m'' then 1 else 0), he_real = Some, he_io = (\<lambda>_. False), he_stat = (\<lambda>_. None)\<rparr>"

lemma demo_tree: "tree_ok demo_files"
proof -
  have dirs: "d = ''/'' \<or> d = ''/a''" if "below d q" "q \<in> {''/m'', ''/a'', ''/a/f''}" "normalizePath d = d" for d q
  proof (cases "d = ''/''")
    case False
    have "d \<noteq> []" using that(3) by (auto simp: normalizePath_def abs_path_def)
    have "prefix (d @ ''/'') q" using that(1) False by (simp add: below_def)
    then obtain t where "q = d @ CHR ''/'' # t" by (auto simp: prefix_def)
    then show ?thesis using that(2) \<open>d \<noteq> []\<close> by (auto simp: append_eq_Cons_conv)
  qed simp
  have "is_dir demo_files d" if "q \<in> set (keys demo_files)" "normalizePath d = d" "below d q" for q d
    using dirs [OF that(3) _ that(2)] that(1) by (auto simp: demo_files_def is_dir_def)
  then show ?thesis by (auto simp: tree_ok_def demo_files_def)
qed


subsection \<open>Listing, reading and expanding\<close>

record DirEntry =
  de_name :: string
  de_type :: string
  de_sizeBytes :: nat
  de_modifiedAt :: ms
  de_permissions :: string

definition permString :: "nat \<Rightarrow> string" where
  "permString mode = map (\<lambda>i. if odd (mode div 2 ^ (8 - i)) then ''rwx'' ! (i mod 3) else CHR ''-'') [0..<9]"

definition readdir :: "host_env \<Rightarrow> files \<Rightarrow> string \<Rightarrow> string list option" where
  "readdir env fs d =
     (if is_dir fs (real_of env d)
      then Some (map basename (filter (\<lambda>q. dirname q = real_of env d) (keys fs))) else None)"

definition entry_type :: "node option \<Rightarrow> string" where
  "entry_type n = (case n of Some (Symlink _) \<Rightarrow> ''symlink'' | Some Dir \<Rightarrow> ''dir'' | Some (File _) \<Rightarrow> ''file'' | _ \<Rightarrow> ''other'')"

definition path_join :: "string \<Rightarrow> string \<Rightarrow> string" where
  "path_join d n = (if d = ''/'' then CHR ''/'' # n else d @ ''/'' @ n)"

definition dir_entry :: "host_env \<Rightarrow> files \<Rightarrow> string \<Rightarrow> string \<Rightarrow> DirEntry" where
  "dir_entry env fs d n =
     (let t = entry_type (look fs (path_join (real_of env d) n))
      in case he_stat env (path_join d n) of
           None \<Rightarrow> \<lparr>de_name = n, de_type = t, de_sizeBytes = 0, de_modifiedAt = 0, de_permissions = []\<rparr>
         | Some (bytes, mtime, mode) \<Rightarrow>
             \<lparr>de_name = n, de_type = t, de_sizeBytes = bytes, de_modifiedAt = mtime, de_permissions = permString mode\<rparr>)"

text \<open>\<open>collate\<close> is the order of \<open>localeCompare\<close>.\<close>

definition runListDir :: "(string \<Rightarrow> 'k :: linorder) \<Rightarrow> host_env \<Rightarrow> string \<Rightarrow> files \<Rightarrow>
    file_error + string \<times> DirEntry list" where
  "runListDir collate env p fs =
     (let target = normalizePath p
      in case readdir env fs target of
           None \<Rightarrow> Inl (Fs (if look fs (real_of env target) = None then ENOENT else ENOTDIR))
         | Some names \<Rightarrow> Inr (target, sort_key (\<lambda>e. (de_type e \<noteq> ''dir'', collate (de_name e)))
                          (map (dir_entry env fs target) names)))"

definition MAX_FILE_BYTES :: nat where "MAX_FILE_BYTES = 1024 * 1024"

definition MAX_IMAGE_BYTES :: nat where "MAX_IMAGE_BYTES = 16 * 1024 * 1024"

definition IMAGE_MIME :: "(string, string) jsmap" where
  "IMAGE_MIME = [(''.png'', ''image/png''), (''.jpg'', ''image/jpeg''), (''.jpeg'', ''image/jpeg''),
     (''.gif'', ''image/gif''), (''.webp'', ''image/webp''), (''.bmp'', ''image/bmp''), (''.ico'', ''image/x-icon''),
     (''.svg'', ''image/svg+xml''), (''.avif'', ''image/avif'')]"

text \<open>\<open>path.extname\<close>\<close>

definition extname :: "string \<Rightarrow> string" where
  "extname p = (case break_last (CHR ''.'') (basename p) of
     None \<Rightarrow> [] | Some (b, e) \<Rightarrow> if b = [] then [] else CHR ''.'' # e)"

text \<open>The content is the bytes read; \<open>fc_encoding\<close> says that they travel as base64.\<close>

record FileContent =
  fc_path :: string
  fc_content :: "char list"
  fc_sizeBytes :: nat
  fc_truncated :: bool
  fc_binary :: bool
  fc_encoding :: "string option"
  fc_mimeType :: "string option"

definition read_text :: "string \<Rightarrow> char list \<Rightarrow> FileContent" where
  "read_text target d =
     (let data = take MAX_FILE_BYTES d; binary = CHR 0x00 \<in> set data
      in \<lparr>fc_path = target, fc_content = (if binary then [] else data), fc_sizeBytes = length d,
          fc_truncated = length d > MAX_FILE_BYTES, fc_binary = binary, fc_encoding = None, fc_mimeType = None\<rparr>)"

definition runReadFile :: "host_env \<Rightarrow> string \<Rightarrow> files \<Rightarrow> file_error + FileContent" where
  "runReadFile env p fs =
     (let target = normalizePath p
      in case look fs (real_of env target) of
           None \<Rightarrow> Inl (Fs (if real_of env target = ''/'' then EISDIR else ENOENT))
         | Some (File d) \<Rightarrow>
             (case look IMAGE_MIME (js_lower (extname target)) of
                Some mime \<Rightarrow>
                  if length d \<le> MAX_IMAGE_BYTES
                  then Inr \<lparr>fc_path = target, fc_content = d, fc_sizeBytes = length d, fc_truncated = False,
                            fc_binary = True, fc_encoding = Some ''base64'', fc_mimeType = Some mime\<rparr>
                  else Inr (read_text target d)
              | None \<Rightarrow> Inr (read_text target d))
         | Some _ \<Rightarrow> Inl (Fs EISDIR))"

text \<open>One segment of a glob: \<open>*\<close> and \<open>?\<close> stand for what is not a slash, the rest for itself.\<close>

fun glob :: "string \<Rightarrow> string \<Rightarrow> bool" where
  "glob [] s \<longleftrightarrow> s = []"
| "glob (c # p) [] \<longleftrightarrow> c = CHR ''*'' \<and> glob p []"
| "glob (c # p) (x # s) \<longleftrightarrow>
     (if c = CHR ''*'' then glob p (x # s) \<or> x \<noteq> CHR ''/'' \<and> glob (c # p) s
      else if c = CHR ''?'' then x \<noteq> CHR ''/'' \<and> glob p s
      else x = c \<and> glob p s)"

definition segmentMatcher :: "string \<Rightarrow> string \<Rightarrow> bool" where
  "segmentMatcher segment = glob segment"

text \<open>The paths one pattern contributes, before duplicates go.\<close>

definition pattern_paths :: "host_env \<Rightarrow> files \<Rightarrow> string \<Rightarrow> string list" where
  "pattern_paths env fs pattern =
     (let (d, leaf) = (case break_last (CHR ''/'') pattern of None \<Rightarrow> (butlast pattern, pattern) | Some dl \<Rightarrow> dl);
          dir = (if d = [] then ''/'' else d)
      in if CHR ''*'' \<notin> set leaf \<and> CHR ''?'' \<notin> set leaf
         then (if look fs (real_of env pattern) \<noteq> None \<or> real_of env pattern = ''/'' then [pattern] else [])
         else map (\<lambda>n. dir @ ''/'' @ n)
                (sort (filter (segmentMatcher leaf) (case readdir env fs dir of None \<Rightarrow> [] | Some ns \<Rightarrow> ns))))"

definition add_path :: "host_env \<Rightarrow> ResolvedPath list \<Rightarrow> string \<Rightarrow> ResolvedPath list" where
  "add_path env out p =
     (if p \<in> rv_path ` set out then out else out @ [\<lparr>rv_path = p, rv_realPath = real_of env p\<rparr>])"

definition runResolvePaths :: "host_env \<Rightarrow> files \<Rightarrow> string list \<Rightarrow> ResolvedPath list" where
  "runResolvePaths env fs patterns =
     foldl (\<lambda>out pattern. foldl (add_path env) out (pattern_paths env fs pattern)) [] patterns"

lemma foldl_add_path:
  "map rv_path (foldl (add_path env) out ps) = push_new (map rv_path out) ps"
proof (induction ps arbitrary: out)
  case (Cons p ps)
  have "map rv_path (add_path env out p) = (if p \<in> set (map rv_path out) then map rv_path out else map rv_path out @ [p])"
    by (simp add: add_path_def)
  then show ?case using Cons by simp
qed simp

lemma push_new_append: "push_new out (xs @ ys) = push_new (push_new out xs) ys"
  by (induction out xs rule: push_new.induct) simp_all

text \<open>Each path once, in the order of the patterns and sorted within each.\<close>

lemma resolved_paths:
  "map rv_path (runResolvePaths env fs patterns) = push_new [] (concat (map (pattern_paths env fs) patterns))"
proof -
  have "map rv_path (foldl (\<lambda>out pattern. foldl (add_path env) out (pattern_paths env fs pattern)) out ps)
      = push_new (map rv_path out) (concat (map (pattern_paths env fs) ps))" for out ps
    by (induction ps arbitrary: out) (simp_all add: foldl_add_path push_new_append)
  from this [of "[]" patterns] show ?thesis by (simp add: runResolvePaths_def)
qed

lemma glob_no_slash: "glob p s \<Longrightarrow> CHR ''/'' \<notin> set p \<Longrightarrow> CHR ''/'' \<notin> set s"
  by (induction p s rule: glob.induct) (auto split: if_splits)

subsection \<open>The shell of a terminal\<close>

datatype argv_error = BadShellUser string | NotRoot string string

text \<open>\<open>me\<close> is the account the agent runs as; an empty string counts as absent.\<close>

definition shellArgv :: "string \<Rightarrow> string option \<Rightarrow> string option \<Rightarrow> string option \<Rightarrow> argv_error + string list" where
  "shellArgv me shell runuser asUser =
     (case asUser of
        None \<Rightarrow> Inr [case shell of Some s \<Rightarrow> if s = [] then ''bash'' else s | None \<Rightarrow> ''bash'', ''-l'']
      | Some u \<Rightarrow>
          if u = [] \<or> u = me
          then Inr [case shell of Some s \<Rightarrow> if s = [] then ''bash'' else s | None \<Rightarrow> ''bash'', ''-l'']
          else if \<not> SYSTEM_USERNAME_RE u then Inl (BadShellUser u)
          else if me \<noteq> ''root'' then Inl (NotRoot me u)
          else Inr (case runuser of Some r \<Rightarrow> [r, ''-l'', u] | None \<Rightarrow> [''su'', ''-'', u]))"

end
