(* ===== verification/Apps.thy ===== *)
theory Apps
  imports Prelude
begin

text \<open>
  The App registry (\<open>apps/server/src/features/apps/store.ts\<close>, class \<open>AppStore\<close>; the record is
  \<open>App\<close> of \<open>shared/src/domain/apps.ts\<close>). \<open>uuid\<close> is \<open>randomUUID()\<close>, \<open>now\<close> is \<open>Date.now()\<close>; the
  order of \<open>localeCompare\<close> is the order of a collation key \<open>collate\<close>.
\<close>

datatype app_error =
    AppNameRequired
  | InvalidAppId string
  | InvalidRoleName string
  | SlugTaken string
  | AppNotFound
  | StillReferenced nat

record App =
  a_id :: string
  a_slug :: string
  a_name :: string
  a_roles :: "string list"
  a_requireRole :: "bool option"   \<comment> \<open>absent in records written before the field existed\<close>
  a_createdAt :: ms

record app_store =
  apps :: "(string, App) jsmap"
  appsFile :: "(string, App) jsmap option"

definition appRoleNode :: "App \<Rightarrow> string \<Rightarrow> string" where
  "appRoleNode app role = ''app.'' @ a_slug app @ ''.'' @ role"

definition persistApps :: "app_store \<Rightarrow> app_store" where
  "persistApps st = st\<lparr>appsFile := Some (apps st)\<rparr>"

definition init_apps :: "(string, App) jsmap option \<Rightarrow> app_store" where
  "init_apps file = \<lparr>apps = read_file file, appsFile = file\<rparr>"

text \<open>\<open>requireRole === true\<close>: an absent field reads as false.\<close>

definition read_app :: "App \<Rightarrow> App" where
  "read_app rec = rec\<lparr>a_requireRole := Some (a_requireRole rec = Some True)\<rparr>"

definition list_apps :: "(string \<Rightarrow> 'k :: linorder) \<Rightarrow> app_store \<Rightarrow> App list" where
  "list_apps collate st = sort_key (\<lambda>a. collate (a_name a)) (map read_app (vals (apps st)))"

definition get_app :: "string \<Rightarrow> app_store \<Rightarrow> App option" where
  "get_app i st = map_option read_app (look (apps st) i)"

text \<open>A null or empty id has no slug.\<close>

definition slugFor :: "string option \<Rightarrow> app_store \<Rightarrow> string option" where
  "slugFor i st = (case i of None \<Rightarrow> None
     | Some a \<Rightarrow> if a = [] then None else map_option a_slug (look (apps st) a))"

definition assertAppName :: "string \<Rightarrow> app_error + string" where
  "assertAppName name = (let t = js_trim name in if t = [] then Inl AppNameRequired else Inr t)"

text \<open>\<open>/^[a-z0-9][a-z0-9_-]*$/\<close>\<close>

definition segment :: "string \<Rightarrow> bool" where
  "segment s \<longleftrightarrow> (case s of [] \<Rightarrow> False
     | c # cs \<Rightarrow> (is_lower_alpha c \<or> is_digit c)
         \<and> list_all (\<lambda>c. is_lower_alpha c \<or> is_digit c \<or> c = CHR ''_'' \<or> c = CHR ''-'') cs)"

definition assertSlug :: "string \<Rightarrow> app_error + string" where
  "assertSlug slug = (let v = js_lower (js_trim slug) in if segment v then Inr v else Inl (InvalidAppId slug))"

fun roles_loop :: "string list \<Rightarrow> string list \<Rightarrow> app_error + string list" where
  "roles_loop out [] = Inr out"
| "roles_loop out (raw # rest) =
     (let role = js_lower (js_trim raw)
      in if role = [] then roles_loop out rest
         else if \<not> segment role then Inl (InvalidRoleName raw)
         else roles_loop (if role \<in> set out then out else out @ [role]) rest)"

definition assertRoles :: "string list \<Rightarrow> app_error + string list" where
  "assertRoles roles = roles_loop [] roles"

definition assertSlugFree :: "string \<Rightarrow> string option \<Rightarrow> app_store \<Rightarrow> app_error + unit" where
  "assertSlugFree slug exceptId st =
     (if list_ex (\<lambda>a. Some (a_id a) \<noteq> exceptId \<and> a_slug a = slug) (vals (apps st))
      then Inl (SlugTaken slug) else Inr ())"

definition create_app :: "string \<Rightarrow> ms \<Rightarrow> string \<Rightarrow> string \<Rightarrow> string list \<Rightarrow> bool \<Rightarrow> app_store \<Rightarrow>
    (app_error, App, app_store) result" where
  "create_app uuid now name slug roles req st =
     (case assertAppName name of Inl e \<Rightarrow> (Inl e, st) | Inr n \<Rightarrow>
      (case assertSlug slug of Inl e \<Rightarrow> (Inl e, st) | Inr s \<Rightarrow>
       (case assertRoles roles of Inl e \<Rightarrow> (Inl e, st) | Inr rs \<Rightarrow>
        (case assertSlugFree s None st of Inl e \<Rightarrow> (Inl e, st) | Inr _ \<Rightarrow>
          (let app = \<lparr>a_id = uuid, a_slug = s, a_name = n, a_roles = rs, a_requireRole = Some req,
                      a_createdAt = now\<rparr>
           in (Inr app, persistApps (st\<lparr>apps := put uuid app (apps st)\<rparr>)))))))"

definition update_app :: "App \<Rightarrow> app_store \<Rightarrow> (app_error, unit, app_store) result" where
  "update_app nxt st =
     (case look (apps st) (a_id nxt) of None \<Rightarrow> (Inl AppNotFound, st) | Some existing \<Rightarrow>
      (case assertSlug (a_slug nxt) of Inl e \<Rightarrow> (Inl e, st) | Inr s \<Rightarrow>
       (case assertSlugFree s (Some (a_id nxt)) st of Inl e \<Rightarrow> (Inl e, st) | Inr _ \<Rightarrow>
        (case assertAppName (a_name nxt) of Inl e \<Rightarrow> (Inl e, st) | Inr n \<Rightarrow>
         (case assertRoles (a_roles nxt) of Inl e \<Rightarrow> (Inl e, st) | Inr rs \<Rightarrow>
           (Inr (), persistApps (st\<lparr>apps := put (a_id nxt)
              (existing\<lparr>a_name := n, a_slug := s, a_roles := rs,
                        a_requireRole := Some (a_requireRole nxt = Some True)\<rparr>) (apps st)\<rparr>)))))))"

definition delete_app :: "string \<Rightarrow> nat \<Rightarrow> app_store \<Rightarrow> (app_error, unit, app_store) result" where
  "delete_app i referenceCount st =
     (case look (apps st) i of None \<Rightarrow> (Inr (), st) | Some _ \<Rightarrow>
        if referenceCount > 0 then (Inl (StillReferenced referenceCount), st)
        else (Inr (), persistApps (st\<lparr>apps := del i (apps st)\<rparr>)))"

inductive app_step :: "app_store \<Rightarrow> app_store \<Rightarrow> bool" where
  create: "look (apps st) uuid = None \<Longrightarrow> app_step st (snd (create_app uuid now name slug roles req st))"
| update: "app_step st (snd (update_app nxt st))"
| delete: "app_step st (snd (delete_app i n st))"

subsection \<open>The registry's invariant\<close>

definition app_ok :: "string \<Rightarrow> App \<Rightarrow> bool" where
  "app_ok k a \<longleftrightarrow> a_id a = k \<and> a_name a \<noteq> [] \<and> segment (a_slug a)
     \<and> distinct (a_roles a) \<and> list_all segment (a_roles a)"

definition app_inv :: "app_store \<Rightarrow> bool" where
  "app_inv st \<longleftrightarrow> each app_ok (apps st) \<and> distinct (map a_slug (vals (apps st)))
     \<and> read_file (appsFile st) = apps st"

lemma persistApps_simps [simp]: "apps (persistApps st) = apps st" "appsFile (persistApps st) = Some (apps st)"
  by (simp_all add: persistApps_def)

lemma assertAppName_ok: "assertAppName n = Inr m \<Longrightarrow> m \<noteq> []"
  by (auto simp: assertAppName_def Let_def split: if_splits)

lemma assertSlug_ok: "assertSlug s = Inr v \<Longrightarrow> segment v"
  by (auto simp: assertSlug_def Let_def split: if_splits)

lemma assertRoles_ok: "assertRoles rs = Inr out \<Longrightarrow> distinct out \<and> list_all segment out"
proof -
  have "distinct acc \<Longrightarrow> list_all segment acc \<Longrightarrow> roles_loop acc rs = Inr out \<Longrightarrow>
      distinct out \<and> list_all segment out" for acc
    by (induction acc rs rule: roles_loop.induct) (auto simp: Let_def split: if_splits)
  from this [of "[]"] show "assertRoles rs = Inr out \<Longrightarrow> ?thesis" by (simp add: assertRoles_def)
qed

lemma app_inv_create [inv_intros]:
  assumes "app_inv st" "look (apps st) uuid = None"
  shows "app_inv (snd (create_app uuid now name slug roles req st))"
  using assms
  by (auto simp: create_app_def app_inv_def app_ok_def assertSlugFree_def list_ex_iff Let_def
      put_fresh [OF assms(2)] each_def map_of_eq_None_iff split: sum.split
      dest: assertAppName_ok assertSlug_ok assertRoles_ok)

lemma app_inv_put:
  assumes inv: "app_inv st" and old: "look (apps st) k = Some a" and "app_ok k b"
    and free: "assertSlugFree (a_slug b) (Some k) st = Inr ()"
  shows "app_inv (persistApps (st\<lparr>apps := put k b (apps st)\<rparr>))"
proof -
  from old obtain xs ys where m: "apps st = xs @ (k, a) # ys" and k: "k \<notin> set (keys xs)"
    by (rule look_split)
  have each: "each app_ok (apps st)" using inv by (simp add: app_inv_def)
  then have ids: "a_id c = j" if "(j, c) \<in> set (apps st)" for j c
    using that by (auto simp: each_def app_ok_def)
  have "k \<notin> set (keys ys)" using each by (auto simp: each_def m)
  have "a_slug c \<noteq> a_slug b" if jc: "(j, c) \<in> set (xs @ ys)" for j c
  proof -
    have "j \<noteq> k" using jc k \<open>k \<notin> set (keys ys)\<close> by force
    then have "a_id c \<noteq> k" using ids [of j c] jc by (auto simp: m)
    moreover have "c \<in> set (vals (apps st))" using jc by (force simp: m)
    ultimately show ?thesis using free
      by (auto simp: assertSlugFree_def list_ex_iff simp del: set_map split: if_splits)
  qed
  then have "a_slug b \<notin> a_slug ` set (vals (xs @ ys))" by fastforce
  then have "distinct (map a_slug (vals (xs @ (k, b) # ys)))"
    using inv unfolding app_inv_def m by auto
  moreover have "put k b (apps st) = xs @ (k, b) # ys" using m k by (simp add: put_split)
  moreover have "each app_ok (put k b (apps st))" using each assms(3) by blast
  ultimately show ?thesis by (simp add: app_inv_def)
qed

lemma app_inv_update [inv_intros]:
  assumes "app_inv st"
  shows "app_inv (snd (update_app nxt st))"
proof (cases "look (apps st) (a_id nxt)")
  case (Some a)
  have "a_id a = a_id nxt" using each_look [OF _ Some, of app_ok] assms by (auto simp: app_inv_def app_ok_def)
  then show ?thesis
    using assms Some
    by (auto simp: update_app_def app_ok_def split: sum.split intro!: app_inv_put [OF assms Some]
        dest: assertAppName_ok assertSlug_ok assertRoles_ok)
qed (use assms in \<open>simp add: update_app_def\<close>)

lemma app_inv_delete [inv_intros]:
  assumes "app_inv st"
  shows "app_inv (snd (delete_app i n st))"
proof (cases "look (apps st) i")
  case (Some a)
  then obtain xs ys where m: "apps st = xs @ (i, a) # ys" and k: "i \<notin> set (keys xs)"
    by (rule look_split)
  moreover have "i \<notin> set (keys ys)" using assms by (auto simp: app_inv_def each_def m)
  ultimately have "del i (apps st) = xs @ ys" by (simp add: del_split)
  moreover have "each app_ok (del i (apps st))" using assms by (auto simp: app_inv_def)
  ultimately show ?thesis using assms unfolding delete_app_def Some app_inv_def
    by (auto simp: m)
qed (use assms in \<open>simp add: delete_app_def\<close>)

interpretation app_registry: invariant_store app_inv app_step
proof
  fix s s' assume "app_step s s'" "app_inv s"
  then show "app_inv s'" by (induction rule: app_step.induct) (auto intro: inv_intros)
qed

lemma app_inv_init: "app_inv (init_apps None)"
  by (simp add: app_inv_def init_apps_def)

text \<open>A segment has no dot, so a namespace is not a prefix of another.\<close>

lemma segment_no_dot: "segment s \<Longrightarrow> CHR ''.'' \<notin> set s"
  by (auto simp: segment_def list_all_iff is_lower_alpha_def is_digit_def split: list.splits)

lemma namespace_of:
  assumes "p = h @ s \<or> prefix (h @ s @ [c]) p" "c \<notin> set s"
  shows "takeWhile (\<lambda>x. x \<noteq> c) (drop (length h) p) = s"
  using assms(1)
proof
  assume "p = h @ s"
  with assms(2) show ?thesis by (auto simp: takeWhile_eq_all_conv)
next
  assume "prefix (h @ s @ [c]) p"
  then obtain y where "p = h @ s @ c # y" by (auto simp: prefix_def)
  moreover have "takeWhile (\<lambda>x. x \<noteq> c) (s @ c # y) = s @ takeWhile (\<lambda>x. x \<noteq> c) (c # y)"
    using assms(2) by (intro takeWhile_append2) auto
  ultimately show ?thesis by simp
qed

lemma namespaces_apart:
  assumes "s \<noteq> t" "c \<notin> set s" "c \<notin> set t"
  shows "\<not> ((p = h @ s \<or> prefix (h @ s @ [c]) p) \<and> (p = h @ t \<or> prefix (h @ t @ [c]) p))"
  using namespace_of [of p h s c] namespace_of [of p h t c] assms by metis

subsection \<open>Properties\<close>



end
