(* ===== verification/Roles.thy ===== *)
theory Roles
  imports Permissions
begin

text \<open>
  The role store (\<open>apps/server/src/roles.ts\<close>): role definitions by id, seeded on first run,
  written to \<open>roles.json\<close> after every change. \<open>rs_file\<close> is the content of that file; the JSON
  round trip of plain records is the identity and a write does not fail.
\<close>

datatype role_error =
    RoleNameRequired
  | InvalidPermissionNode string
  | UnknownPermissionNode string
  | RoleNotFound
  | StillHeld nat
  | NoDefaultToReset

record role_store =
  rs_roles :: "(string, RoleDef) jsmap"
  rs_file :: "(string, RoleDef) jsmap option"

definition persist :: "role_store \<Rightarrow> role_store" where
  "persist st = st\<lparr>rs_file := Some (rs_roles st)\<rparr>"

definition requireName :: "string \<Rightarrow> role_error + string" where
  "requireName name = (let t = js_trim name in if t = [] then Inl RoleNameRequired else Inr t)"

fun validate_loop :: "permission list \<Rightarrow> permission list \<Rightarrow> role_error + permission list" where
  "validate_loop out [] = Inr out"
| "validate_loop out (raw # rest) =
     (let node = js_trim raw
      in if node = [] then validate_loop out rest
         else if \<not> isValidPermission node then Inl (InvalidPermissionNode node)
         else if prefix ''panel.'' node \<and> \<not> suffix ''.*'' node \<and> node \<notin> set PANEL_PERMISSION_IDS
           then Inl (UnknownPermissionNode node)
         else validate_loop (if node \<in> set out then out else out @ [node]) rest)"

definition validatePermissions :: "permission list \<Rightarrow> role_error + permission list" where
  "validatePermissions ps = validate_loop [] ps"

text \<open>\<open>init\<close>: read the file, and seed an empty store.\<close>

definition init_roles :: "(string, RoleDef) jsmap option \<Rightarrow> role_store" where
  "init_roles file =
     (let st = \<lparr>rs_roles = read_file file, rs_file = file\<rparr>
      in if rs_roles st = []
         then persist (st\<lparr>rs_roles := fold (\<lambda>seed. put (role_id seed) seed) SEED_ROLES []\<rparr>)
         else st)"

definition list_roles :: "role_store \<Rightarrow> RoleDef list" where
  "list_roles st = vals (rs_roles st)"

definition get_role :: "role_store \<Rightarrow> string \<Rightarrow> RoleDef option" where
  "get_role st i = look (rs_roles st) i"

text \<open>Ids that no longer exist are skipped.\<close>

definition resolve :: "role_store \<Rightarrow> string list \<Rightarrow> RoleDef list" where
  "resolve st ids = List.map_filter (look (rs_roles st)) ids"

text \<open>\<open>uuid\<close> is the \<open>randomUUID()\<close> of the call.\<close>

definition create_role :: "string \<Rightarrow> string \<Rightarrow> string \<Rightarrow> permission list \<Rightarrow> role_store \<Rightarrow>
    (role_error, RoleDef, role_store) result" where
  "create_role uuid name description ps st =
     (case requireName name of
        Inl e \<Rightarrow> (Inl e, st)
      | Inr n \<Rightarrow>
          (case validatePermissions ps of
             Inl e \<Rightarrow> (Inl e, st)
           | Inr qs \<Rightarrow>
               (let role = \<lparr>role_id = uuid, role_name = n, role_description = js_trim description,
                            role_permissions = qs, role_seeded = None\<rparr>
                in (Inr role, persist (st\<lparr>rs_roles := put uuid role (rs_roles st)\<rparr>)))))"

definition update_role :: "RoleDef \<Rightarrow> role_store \<Rightarrow> (role_error, unit, role_store) result" where
  "update_role role st =
     (case look (rs_roles st) (role_id role) of
        None \<Rightarrow> (Inl RoleNotFound, st)
      | Some existing \<Rightarrow>
          (case requireName (role_name role) of
             Inl e \<Rightarrow> (Inl e, st)
           | Inr n \<Rightarrow>
               (case validatePermissions (role_permissions role) of
                  Inl e \<Rightarrow> (Inl e, st)
                | Inr qs \<Rightarrow>
                    (Inr (), persist (st\<lparr>rs_roles := put (role_id role)
                       (existing\<lparr>role_name := n, role_description := js_trim (role_description role),
                                 role_permissions := qs\<rparr>) (rs_roles st)\<rparr>)))))"

definition delete_role :: "string \<Rightarrow> nat \<Rightarrow> role_store \<Rightarrow> (role_error, unit, role_store) result" where
  "delete_role i heldBy st =
     (case look (rs_roles st) i of
        None \<Rightarrow> (Inr (), st)
      | Some _ \<Rightarrow>
          if heldBy > 0 then (Inl (StillHeld heldBy), st)
          else (Inr (), persist (st\<lparr>rs_roles := del i (rs_roles st)\<rparr>)))"

definition resetToSeed :: "string \<Rightarrow> role_store \<Rightarrow> (role_error, RoleDef, role_store) result" where
  "resetToSeed i st =
     (case seedRoleFor i of
        None \<Rightarrow> (Inl NoDefaultToReset, st)
      | Some seed \<Rightarrow>
          (Inr seed, persist (st\<lparr>rs_roles := put (role_id seed) seed (rs_roles st)\<rparr>)))"

text \<open>The store's operations as one step relation; a throwing call is a step too.\<close>

inductive role_step :: "role_store \<Rightarrow> role_store \<Rightarrow> bool" where
  create: "look (rs_roles st) uuid = None \<Longrightarrow>
     role_step st (snd (create_role uuid name description ps st))"
| update: "role_step st (snd (update_role role st))"
| delete: "role_step st (snd (delete_role i heldBy st))"
| reset: "role_step st (snd (resetToSeed i st))"

subsection \<open>What a stored role looks like\<close>

definition node_ok :: "permission \<Rightarrow> bool" where
  "node_ok p \<longleftrightarrow> isValidPermission p
     \<and> (prefix ''panel.'' p \<and> \<not> suffix ''.*'' p \<longrightarrow> p \<in> set PANEL_PERMISSION_IDS)"

definition role_ok :: "string \<Rightarrow> RoleDef \<Rightarrow> bool" where
  "role_ok k r \<longleftrightarrow> role_id r = k \<and> role_name r \<noteq> []
     \<and> distinct (role_permissions r) \<and> list_all node_ok (role_permissions r)"

definition role_inv :: "role_store \<Rightarrow> bool" where
  "role_inv st \<longleftrightarrow> each role_ok (rs_roles st)"

lemma validate_loop_ok:
  "validate_loop out ps = Inr qs \<Longrightarrow> distinct out \<Longrightarrow> list_all node_ok out \<Longrightarrow>
   distinct qs \<and> list_all node_ok qs"
  by (induction out ps rule: validate_loop.induct)
     (auto simp: Let_def node_ok_def split: if_splits)

lemma validatePermissions_ok:
  "validatePermissions ps = Inr qs \<Longrightarrow> distinct qs \<and> list_all node_ok qs"
  unfolding validatePermissions_def by (rule validate_loop_ok) auto

lemma requireName_ok: "requireName n = Inr m \<Longrightarrow> m \<noteq> [] \<and> m = js_trim n"
  by (auto simp: requireName_def Let_def split: if_splits)

lemma list_roles_persist [simp]: "rs_roles (persist st) = rs_roles st"
  "rs_file (persist st) = Some (rs_roles st)"
  by (simp_all add: persist_def)

lemma seed_shapes: "list_all (\<lambda>r. role_name r \<noteq> [] \<and> list_all isValidPermission (role_permissions r)) SEED_ROLES"
  by code_simp

lemma seeds_ok: "list_all (\<lambda>r. role_ok (role_id r) r) SEED_ROLES"
  using seed_shapes seed_nodes_registered by (auto simp: list_all_iff role_ok_def node_ok_def)

lemma create_inv [inv_intros]: "role_inv st \<Longrightarrow> role_inv (snd (create_role uuid n d ps st))"
  by (auto simp: create_role_def role_inv_def role_ok_def Let_def split: sum.splits
      dest: validatePermissions_ok requireName_ok intro!: each_put)

lemma update_inv [inv_intros]:
  assumes "role_inv st"
  shows "role_inv (snd (update_role role st))"
proof (cases "look (rs_roles st) (role_id role)")
  case (Some old)
  from each_look [of role_ok, OF _ Some] assms have old: "role_id old = role_id role"
    by (simp add: role_inv_def role_ok_def)
  show ?thesis
    using assms Some validatePermissions_ok [of "role_permissions role"]
      requireName_ok [of "role_name role"]
    by (auto simp: update_role_def role_inv_def role_ok_def old split: sum.splits intro!: each_put)
qed (use assms in \<open>simp add: update_role_def\<close>)

lemma delete_inv [inv_intros]: "role_inv st \<Longrightarrow> role_inv (snd (delete_role i h st))"
  by (auto simp: delete_role_def role_inv_def split: option.splits)

lemma reset_inv [inv_intros]: "role_inv st \<Longrightarrow> role_inv (snd (resetToSeed i st))"
  using seeds_ok
  by (auto simp: resetToSeed_def role_inv_def list_all_iff split: option.splits
      dest: seedRoleFor_Some)

interpretation roles: invariant_store role_inv role_step
proof
  fix s s' assume "role_step s s'" "role_inv s"
  then show "role_inv s'" by (induction rule: role_step.induct) (auto intro: inv_intros)
qed

definition role_disk :: "role_store \<Rightarrow> (string, RoleDef) jsmap" where
  "role_disk st = read_file (rs_file st)"

interpretation role_files: persisted_store rs_roles role_disk role_step
proof
  fix s s' assume "role_step s s'" "rs_roles s = role_disk s"
  then show "rs_roles s' = role_disk s'"
    by (induction rule: role_step.induct)
       (auto simp: role_disk_def create_role_def update_role_def delete_role_def resetToSeed_def
         Let_def split: sum.splits option.splits)
qed

lemma init_inv: "role_inv (init_roles None)"
proof -
  have "each role_ok (fold (\<lambda>seed. put (role_id seed) seed) rs m)"
    if "list_all (\<lambda>r. role_ok (role_id r) r) rs" "each role_ok m" for rs m
    using that by (induction rs arbitrary: m) auto
  from this [OF seeds_ok] show ?thesis by (simp add: init_roles_def role_inv_def Let_def)
qed

lemma init_synced: "rs_roles (init_roles f) = role_disk (init_roles f)"
  by (auto simp: init_roles_def role_disk_def Let_def)

lemma set_resolve: "set (resolve st ids) = {r. \<exists>i \<in> set ids. look (rs_roles st) i = Some r}"
  by (force simp: resolve_def map_filter_def)

subsection \<open>Properties\<close>



end
