(* ===== verification/Auth.thy ===== *)
theory Auth
  imports Roles System_Users
begin

text \<open>
  Accounts, sessions and the login throttle (\<open>apps/server/src/auth.ts\<close>, class \<open>AuthStore\<close>).

  Parameters of the model: \<open>verify\<close> is \<open>Bun.password.verify\<close>; \<open>hash\<close> arguments are results of
  \<open>Bun.password.hash\<close>, \<open>uuid\<close>, \<open>sid\<close> and \<open>token\<close> those of \<open>randomUUID\<close> and \<open>randomBytes\<close>; \<open>now\<close>
  is \<open>Date.now()\<close>, with \<open>now'\<close> for a reading after an \<open>await\<close>. The handler registered with
  \<open>onUserCredentialsRevoked\<close> is an optional function \<open>hook\<close> on a further state, which the two
  operations that revoke credentials carry along. A handler runs to its end before the next
  one; the section on concurrent setup takes the account creation apart at its \<open>await\<close>.
\<close>

datatype auth_error =
    SetupAlreadyCompleted
  | TooManyFailedAttempts
  | InvalidCredentials
  | UsernameRequired
  | PasswordTooShort
  | UsernameTaken
  | EmailInvalid string
  | EmailInUse
  | UserNotFound
  | OwnerUndeletable
  | CannotDeleteSelf
  | OwnerHoldsEverything
  | UnknownRole string
  | InvalidNode string
  | BadSystemUsername string
  | SessionNotFound
  | OwnSession
  | OnlyTheOwner

definition SESSION_TTL_MS :: ms where
  "SESSION_TTL_MS = 30 * 24 * 60 * 60 * 1000"

definition MAX_LOGIN_FAILURES :: nat where
  "MAX_LOGIN_FAILURES = 10"

definition LOGIN_BLOCK_MS :: ms where
  "LOGIN_BLOCK_MS = 15 * 60 * 1000"

subsection \<open>State\<close>

record UserRecord =
  u_id :: uid
  u_username :: string
  u_passwordHash :: string
  u_isOwner :: "bool option"
  u_roleIds :: "string list option"
  u_role :: "string option"
  u_createdAt :: ms
  u_systemUser :: "string option"
  u_extraPermissions :: "permission list option"
  u_email :: "string option"

text \<open>Records written before sessions had an id read as the empty id.\<close>

record SessionRecord =
  s_id :: string
  s_userId :: uid
  s_createdAt :: ms
  s_lastSeenAt :: ms
  s_ip :: "string option"
  s_userAgent :: "string option"

record auth_store =
  users :: "(uid, UserRecord) jsmap"
  sessions :: "(string, SessionRecord) jsmap"
  dummyHash :: string
  loginFailures :: "(string, nat \<times> ms) jsmap"
  usersFile :: "(uid, UserRecord) jsmap option"
  sessionsFile :: "(string, SessionRecord) jsmap option"

definition persistUsers :: "auth_store \<Rightarrow> auth_store" where
  "persistUsers st = st\<lparr>usersFile := Some (users st)\<rparr>"

definition persistSessions :: "auth_store \<Rightarrow> auth_store" where
  "persistSessions st = st\<lparr>sessionsFile := Some (sessions st)\<rparr>"

definition toUserInfo :: "UserRecord \<Rightarrow> role_store \<Rightarrow> UserInfo" where
  "toUserInfo rec rst =
     (let ids = case_option [] (\<lambda>x. x) (u_roleIds rec);
          owner = (u_isOwner rec = Some True)
      in \<lparr>isOwner = owner,
          permissions = effectivePermissions owner (resolve rst ids)
            (case_option [] (\<lambda>x. x) (u_extraPermissions rec)),
          user_id = u_id rec, user_name = u_username rec, user_roleIds = ids,
          user_createdAt = u_createdAt rec, user_systemUser = u_systemUser rec,
          user_email = u_email rec\<rparr>)"

definition normalizeUsername :: "string \<Rightarrow> string" where
  "normalizeUsername s = js_lower (js_trim s)"

definition normalizeEmail :: "string option \<Rightarrow> string option" where
  "normalizeEmail e =
     (case e of None \<Rightarrow> None
      | Some s \<Rightarrow> (let t = js_lower (js_trim s) in if t = [] then None else Some t))"

text \<open>
  \<open>/^[^\s@]+@[^\s@]+\.[^\s@]+$/\<close>: no white space, one at sign with something before it, and a
  dot strictly inside what follows it.
\<close>

definition email_shape :: "string \<Rightarrow> bool" where
  "email_shape e \<longleftrightarrow> list_all (\<lambda>c. \<not> js_ws c) e \<and>
     (case split_on CHR ''@'' e of
        [l, d] \<Rightarrow> l \<noteq> [] \<and> CHR ''.'' \<in> set (butlast (tl d))
      | _ \<Rightarrow> False)"

definition assertEmailShape :: "string \<Rightarrow> auth_error + unit" where
  "assertEmailShape e = (if email_shape e then Inr () else Inl (EmailInvalid e))"

definition assertEmailAvailable :: "string \<Rightarrow> uid option \<Rightarrow> auth_store \<Rightarrow> auth_error + unit" where
  "assertEmailAvailable e exceptUserId st =
     (case assertEmailShape e of
        Inl err \<Rightarrow> Inl err
      | Inr _ \<Rightarrow>
          if list_ex (\<lambda>u. Some (u_id u) \<noteq> exceptUserId \<and> u_email u = Some e) (vals (users st))
          then Inl EmailInUse else Inr ())"

subsection \<open>Start-up\<close>

definition migrate_record :: "UserRecord \<Rightarrow> UserRecord" where
  "migrate_record rec =
     (case (u_roleIds rec, u_role rec) of
        (None, Some r) \<Rightarrow>
          rec\<lparr>u_isOwner := Some (r = ''owner''),
              u_roleIds := Some (if r = ''owner'' \<or> r = ''none'' then [] else [r]),
              u_role := None\<rparr>
      | _ \<Rightarrow> rec)"

definition needs_migration :: "UserRecord \<Rightarrow> bool" where
  "needs_migration rec \<longleftrightarrow> u_roleIds rec = None \<and> u_role rec \<noteq> None"

definition migrateRoles :: "auth_store \<Rightarrow> auth_store" where
  "migrateRoles st =
     (if list_ex needs_migration (vals (users st))
      then persistUsers (st\<lparr>users := map (\<lambda>(k, r). (k, migrate_record r)) (users st)\<rparr>)
      else st)"

text \<open>\<open>uuid n\<close> is the n-th fresh id drawn while the loop runs.\<close>

fun backfill :: "(nat \<Rightarrow> string) \<Rightarrow> nat \<Rightarrow> (string, SessionRecord) jsmap \<Rightarrow> (string, SessionRecord) jsmap"
where
  "backfill uuid n [] = []"
| "backfill uuid n ((t, s) # ss) =
     (if s_id s = [] then (t, s\<lparr>s_id := uuid n\<rparr>) # backfill uuid (Suc n) ss
      else (t, s) # backfill uuid n ss)"

definition backfillSessionIds :: "(nat \<Rightarrow> string) \<Rightarrow> auth_store \<Rightarrow> auth_store" where
  "backfillSessionIds uuid st =
     (if list_ex (\<lambda>s. s_id s = []) (vals (sessions st))
      then persistSessions (st\<lparr>sessions := backfill uuid 0 (sessions st)\<rparr>)
      else st)"

definition session_dead :: "ms \<Rightarrow> (uid, UserRecord) jsmap \<Rightarrow> SessionRecord \<Rightarrow> bool" where
  "session_dead now us s \<longleftrightarrow> now - s_lastSeenAt s > SESSION_TTL_MS \<or> look us (s_userId s) = None"

definition pruneExpired :: "ms \<Rightarrow> auth_store \<Rightarrow> auth_store" where
  "pruneExpired now st =
     (if list_ex (session_dead now (users st)) (vals (sessions st))
      then persistSessions (st\<lparr>sessions := drop_where (session_dead now (users st)) (sessions st)\<rparr>)
      else st)"

definition init_auth :: "(uid, UserRecord) jsmap option \<Rightarrow> (string, SessionRecord) jsmap option \<Rightarrow>
    string \<Rightarrow> (nat \<Rightarrow> string) \<Rightarrow> ms \<Rightarrow> auth_store" where
  "init_auth uf sf dummy uuid now =
     pruneExpired now (backfillSessionIds uuid (migrateRoles
       \<lparr>users = read_file uf, sessions = read_file sf, dummyHash = dummy, loginFailures = [],
        usersFile = uf, sessionsFile = sf\<rparr>))"

definition needsSetup :: "auth_store \<Rightarrow> bool" where
  "needsSetup st \<longleftrightarrow> users st = []"

subsection \<open>Sessions and accounts\<close>

definition createSession :: "string \<Rightarrow> string \<Rightarrow> uid \<Rightarrow> string option \<Rightarrow> string option \<Rightarrow> ms \<Rightarrow>
    auth_store \<Rightarrow> auth_store" where
  "createSession token sid userId ip ua now st =
     persistSessions (st\<lparr>sessions := put token
       \<lparr>s_id = sid, s_userId = userId, s_createdAt = now, s_lastSeenAt = now, s_ip = ip,
        s_userAgent = ua\<rparr> (sessions st)\<rparr>)"

text \<open>
  Account creation up to the \<open>await\<close> of the password hash, and after it. The checks see the
  state before the hash is computed, the insertion the state after it.
\<close>

definition createUser_checks :: "string \<Rightarrow> string \<Rightarrow> string option \<Rightarrow> auth_store \<Rightarrow>
    auth_error + (string \<times> string option)" where
  "createUser_checks uname password em st =
     (let name = normalizeUsername uname
      in if name = [] then Inl UsernameRequired
         else if length password < 8 then Inl PasswordTooShort
         else if list_ex (\<lambda>u. u_username u = name) (vals (users st)) then Inl UsernameTaken
         else (case normalizeEmail em of
                 None \<Rightarrow> Inr (name, None)
               | Some e \<Rightarrow>
                   (case assertEmailAvailable e None st of
                      Inl err \<Rightarrow> Inl err
                    | Inr _ \<Rightarrow> Inr (name, Some e))))"

definition new_user :: "string \<Rightarrow> string \<Rightarrow> string list \<Rightarrow> bool \<Rightarrow> ms \<Rightarrow> string \<Rightarrow> string option \<Rightarrow> UserRecord" where
  "new_user uuid hash ids owner now name em =
     \<lparr>u_id = uuid, u_username = name, u_passwordHash = hash, u_isOwner = Some owner,
      u_roleIds = Some ids, u_role = None, u_createdAt = now, u_systemUser = None,
      u_extraPermissions = None, u_email = em\<rparr>"

definition createUser_commit :: "UserRecord \<Rightarrow> role_store \<Rightarrow> auth_store \<Rightarrow> UserInfo \<times> auth_store" where
  "createUser_commit rec rst st =
     (toUserInfo rec rst, persistUsers (st\<lparr>users := put (u_id rec) rec (users st)\<rparr>))"

definition createUser :: "string \<Rightarrow> string \<Rightarrow> ms \<Rightarrow> role_store \<Rightarrow> string \<Rightarrow> string \<Rightarrow> string list \<Rightarrow>
    bool \<Rightarrow> string option \<Rightarrow> auth_store \<Rightarrow> (auth_error, UserInfo, auth_store) result" where
  "createUser uuid hash now rst uname password ids owner em st =
     (case createUser_checks uname password em st of
        Inl e \<Rightarrow> (Inl e, st)
      | Inr (name, e) \<Rightarrow>
          (let (info, st') = createUser_commit (new_user uuid hash ids owner now name e) rst st
           in (Inr info, st')))"

definition setupOwner :: "string \<Rightarrow> string \<Rightarrow> string \<Rightarrow> string \<Rightarrow> ms \<Rightarrow> ms \<Rightarrow> role_store \<Rightarrow>
    string \<Rightarrow> string \<Rightarrow> string option \<Rightarrow> string option \<Rightarrow> auth_store \<Rightarrow>
    (auth_error, string \<times> UserInfo, auth_store) result" where
  "setupOwner uuid hash token sid now now' rst uname password ip ua st =
     (if \<not> needsSetup st then (Inl SetupAlreadyCompleted, st)
      else case createUser uuid hash now rst uname password [] True None st of
             (Inl e, st1) \<Rightarrow> (Inl e, st1)
           | (Inr user, st1) \<Rightarrow>
               (Inr (token, user), createSession token sid (user_id user) ip ua now' st1))"

subsection \<open>Logging in\<close>

definition recordLoginFailure :: "string \<Rightarrow> ms \<Rightarrow> auth_store \<Rightarrow> auth_store" where
  "recordLoginFailure key now st =
     (let (count, blockedUntil) = case_option (0, 0) (\<lambda>x. x) (look (loginFailures st) key);
          entry = (if Suc count \<ge> MAX_LOGIN_FAILURES then (0, now + LOGIN_BLOCK_MS)
                   else (Suc count, blockedUntil))
      in st\<lparr>loginFailures := put key entry (loginFailures st)\<rparr>)"

definition login_blocked :: "string \<Rightarrow> ms \<Rightarrow> auth_store \<Rightarrow> bool" where
  "login_blocked key now st \<longleftrightarrow>
     (case look (loginFailures st) key of None \<Rightarrow> False | Some (_, until) \<Rightarrow> until > now)"

definition login_key :: "string option \<Rightarrow> string \<Rightarrow> string" where
  "login_key ip uname = (case ip of Some a \<Rightarrow> a | None \<Rightarrow> normalizeUsername uname)"

definition login :: "(string \<Rightarrow> string \<Rightarrow> bool) \<Rightarrow> string \<Rightarrow> string \<Rightarrow> ms \<Rightarrow> ms \<Rightarrow> role_store \<Rightarrow>
    string \<Rightarrow> string \<Rightarrow> string option \<Rightarrow> string option \<Rightarrow> auth_store \<Rightarrow>
    (auth_error, string \<times> UserInfo, auth_store) result" where
  "login verify token sid now now' rst uname password ip ua st =
     (let key = login_key ip uname
      in if login_blocked key now st then (Inl TooManyFailedAttempts, st)
         else
           let rec = find (\<lambda>u. u_username u = normalizeUsername uname) (vals (users st));
               ok = verify password (case rec of Some r \<Rightarrow> u_passwordHash r | None \<Rightarrow> dummyHash st)
           in case rec of
                Some r \<Rightarrow>
                  if ok then
                    let st1 = st\<lparr>loginFailures := del key (loginFailures st)\<rparr>
                    in (Inr (token, toUserInfo r rst), createSession token sid (u_id r) ip ua now' st1)
                  else (Inl InvalidCredentials, recordLoginFailure key now' st)
              | None \<Rightarrow> (Inl InvalidCredentials, recordLoginFailure key now' st))"

text \<open>A missing or empty token is falsy and ends nothing.\<close>

definition logout :: "string option \<Rightarrow> auth_store \<Rightarrow> auth_store" where
  "logout token st =
     (case token of
        None \<Rightarrow> st
      | Some t \<Rightarrow>
          if t \<noteq> [] \<and> look (sessions st) t \<noteq> None
          then persistSessions (st\<lparr>sessions := del t (sessions st)\<rparr>) else st)"

definition authenticate :: "ms \<Rightarrow> role_store \<Rightarrow> string option \<Rightarrow> auth_store \<Rightarrow> UserInfo option \<times> auth_store"
where
  "authenticate now rst token st =
     (case token of
        None \<Rightarrow> (None, st)
      | Some t \<Rightarrow>
          if t = [] then (None, st)
          else case look (sessions st) t of
            None \<Rightarrow> (None, st)
          | Some s \<Rightarrow>
              if now - s_lastSeenAt s > SESSION_TTL_MS
              then (None, persistSessions (st\<lparr>sessions := del t (sessions st)\<rparr>))
              else case look (users st) (s_userId s) of
                None \<Rightarrow> (None, st)
              | Some rec \<Rightarrow>
                  (Some (toUserInfo rec rst),
                   persistSessions (st\<lparr>sessions := put t (s\<lparr>s_lastSeenAt := now\<rparr>) (sessions st)\<rparr>)))"

subsection \<open>Administration\<close>

definition listUsers :: "role_store \<Rightarrow> auth_store \<Rightarrow> UserInfo list" where
  "listUsers rst st = map (\<lambda>r. toUserInfo r rst) (vals (users st))"

definition knownAppPermissions :: "role_store \<Rightarrow> auth_store \<Rightarrow> permission list" where
  "knownAppPermissions rst st =
     sort (push_new [] (filter (prefix ''app.'')
       (concat (map role_permissions (list_roles rst))
        @ concat (map (\<lambda>r. case_option [] (\<lambda>x. x) (u_extraPermissions r)) (vals (users st))))))"

definition getUserById :: "role_store \<Rightarrow> uid \<Rightarrow> auth_store \<Rightarrow> UserInfo option" where
  "getUserById rst i st = map_option (\<lambda>r. toUserInfo r rst) (look (users st) i)"

fun known_loop :: "role_store \<Rightarrow> string list \<Rightarrow> string list \<Rightarrow> auth_error + string list" where
  "known_loop rst out [] = Inr out"
| "known_loop rst out (i # ids) =
     (if get_role rst i = None then Inl (UnknownRole i)
      else known_loop rst (if i \<in> set out then out else out @ [i]) ids)"

definition knownRoleIds :: "role_store \<Rightarrow> string list \<Rightarrow> auth_error + string list" where
  "knownRoleIds rst ids = known_loop rst [] ids"

definition addUser :: "string \<Rightarrow> string \<Rightarrow> ms \<Rightarrow> role_store \<Rightarrow> string \<Rightarrow> string \<Rightarrow> string list \<Rightarrow>
    string option \<Rightarrow> auth_store \<Rightarrow> (auth_error, UserInfo, auth_store) result" where
  "addUser uuid hash now rst uname password ids em st =
     (case knownRoleIds rst ids of
        Inl e \<Rightarrow> (Inl e, st)
      | Inr ids' \<Rightarrow> createUser uuid hash now rst uname password ids' False em st)"

definition deleteSessionsForUser :: "(uid \<Rightarrow> 'x \<Rightarrow> 'x) option \<Rightarrow> uid \<Rightarrow> auth_store \<times> 'x \<Rightarrow> auth_store \<times> 'x"
where
  "deleteSessionsForUser hook i sx =
     (case sx of (st, x) \<Rightarrow>
        (if list_ex (\<lambda>s. s_userId s = i) (vals (sessions st))
         then persistSessions (st\<lparr>sessions := drop_where (\<lambda>s. s_userId s = i) (sessions st)\<rparr>)
         else st,
         case hook of None \<Rightarrow> x | Some h \<Rightarrow> h i x))"

definition deleteUser :: "(uid \<Rightarrow> 'x \<Rightarrow> 'x) option \<Rightarrow> uid \<Rightarrow> uid \<Rightarrow> auth_store \<times> 'x \<Rightarrow>
    (auth_error, unit, auth_store \<times> 'x) result" where
  "deleteUser hook i callerId sx =
     (case sx of (st, x) \<Rightarrow>
        (case look (users st) i of
           None \<Rightarrow> (Inr (), sx)
         | Some rec \<Rightarrow>
             if u_isOwner rec = Some True then (Inl OwnerUndeletable, sx)
             else if i = callerId then (Inl CannotDeleteSelf, sx)
             else (Inr (), deleteSessionsForUser hook i
                     (persistUsers (st\<lparr>users := del i (users st)\<rparr>), x))))"

text \<open>One account's record rewritten in place, then saved.\<close>

definition update_user :: "uid \<Rightarrow> (UserRecord \<Rightarrow> UserRecord) \<Rightarrow> auth_store \<Rightarrow> auth_store" where
  "update_user i f st =
     (case look (users st) i of
        None \<Rightarrow> st
      | Some rec \<Rightarrow> persistUsers (st\<lparr>users := put i (f rec) (users st)\<rparr>))"

definition setUserRoles :: "role_store \<Rightarrow> uid \<Rightarrow> string list \<Rightarrow> auth_store \<Rightarrow>
    (auth_error, unit, auth_store) result" where
  "setUserRoles rst i ids st =
     (case look (users st) i of
        None \<Rightarrow> (Inl UserNotFound, st)
      | Some rec \<Rightarrow>
          if u_isOwner rec = Some True then (Inl OwnerHoldsEverything, st)
          else (case knownRoleIds rst ids of
                  Inl e \<Rightarrow> (Inl e, st)
                | Inr ids' \<Rightarrow> (Inr (), update_user i (\<lambda>r. r\<lparr>u_roleIds := Some ids'\<rparr>) st)))"

definition countRoleHolders :: "string \<Rightarrow> auth_store \<Rightarrow> nat" where
  "countRoleHolders i st =
     length (filter (\<lambda>u. i \<in> set (case_option [] (\<lambda>x. x) (u_roleIds u))) (vals (users st)))"

fun clean_loop :: "permission list \<Rightarrow> permission list \<Rightarrow> auth_error + permission list" where
  "clean_loop out [] = Inr out"
| "clean_loop out (raw # rest) =
     (let node = js_trim raw
      in if node = [] then clean_loop out rest
         else if \<not> isValidPermission node then Inl (InvalidNode node)
         else clean_loop (if node \<in> set out then out else out @ [node]) rest)"

definition setPermissions :: "uid \<Rightarrow> permission list \<Rightarrow> auth_store \<Rightarrow>
    (auth_error, unit, auth_store) result" where
  "setPermissions i ps st =
     (case look (users st) i of
        None \<Rightarrow> (Inl UserNotFound, st)
      | Some _ \<Rightarrow>
          (case clean_loop [] ps of
             Inl e \<Rightarrow> (Inl e, st)
           | Inr cleaned \<Rightarrow> (Inr (), update_user i (\<lambda>r. r\<lparr>u_extraPermissions := Some cleaned\<rparr>) st)))"

definition setSystemUser :: "uid \<Rightarrow> string option \<Rightarrow> auth_store \<Rightarrow> (auth_error, unit, auth_store) result"
where
  "setSystemUser i su st =
     (case look (users st) i of
        None \<Rightarrow> (Inl UserNotFound, st)
      | Some _ \<Rightarrow>
          (let name = (case su of None \<Rightarrow> None
                       | Some n \<Rightarrow> (let t = js_trim n in if t = [] then None else Some t))
           in case name of
                None \<Rightarrow> (Inr (), update_user i (\<lambda>r. r\<lparr>u_systemUser := None\<rparr>) st)
              | Some n \<Rightarrow>
                  (case assertSystemUsername n of
                     Inl _ \<Rightarrow> (Inl (BadSystemUsername n), st)
                   | Inr _ \<Rightarrow> (Inr (), update_user i (\<lambda>r. r\<lparr>u_systemUser := Some n\<rparr>) st))))"

definition setEmail :: "uid \<Rightarrow> string option \<Rightarrow> auth_store \<Rightarrow> (auth_error, unit, auth_store) result" where
  "setEmail i em st =
     (case look (users st) i of
        None \<Rightarrow> (Inl UserNotFound, st)
      | Some _ \<Rightarrow>
          (case normalizeEmail em of
             None \<Rightarrow> (Inr (), update_user i (\<lambda>r. r\<lparr>u_email := None\<rparr>) st)
           | Some e \<Rightarrow>
               (case assertEmailAvailable e (Some i) st of
                  Inl err \<Rightarrow> (Inl err, st)
                | Inr _ \<Rightarrow> (Inr (), update_user i (\<lambda>r. r\<lparr>u_email := Some e\<rparr>) st))))"

record UserSession =
  us_id :: string
  us_createdAt :: ms
  us_lastSeenAt :: ms
  us_ip :: "string option"
  us_userAgent :: "string option"
  us_current :: bool

record UserDetail =
  d_user :: UserInfo
  d_extraPermissions :: "permission list"
  d_sessions :: "UserSession list"
  d_lastActiveAt :: "ms option"

text \<open>Sessions sorted by last use, newest first; the sort is stable.\<close>

definition getUserDetail :: "role_store \<Rightarrow> uid \<Rightarrow> string option \<Rightarrow> auth_store \<Rightarrow> auth_error + UserDetail"
where
  "getUserDetail rst i currentToken st =
     (case look (users st) i of
        None \<Rightarrow> Inl UserNotFound
      | Some rec \<Rightarrow>
          (let ss = sort_key (\<lambda>s. - us_lastSeenAt s)
                 (map (\<lambda>(token, s).
                    \<lparr>us_id = s_id s, us_createdAt = s_createdAt s, us_lastSeenAt = s_lastSeenAt s,
                     us_ip = s_ip s, us_userAgent = s_userAgent s,
                     us_current = (Some token = currentToken)\<rparr>)
                   (filter (\<lambda>(_, s). s_userId s = i) (sessions st)))
           in Inr \<lparr>d_user = toUserInfo rec rst,
                   d_extraPermissions = case_option [] (\<lambda>x. x) (u_extraPermissions rec),
                   d_sessions = ss,
                   d_lastActiveAt = (case ss of [] \<Rightarrow> None | s # _ \<Rightarrow> Some (us_lastSeenAt s))\<rparr>))"

definition revokeSession :: "uid \<Rightarrow> string \<Rightarrow> string option \<Rightarrow> auth_store \<Rightarrow>
    (auth_error, unit, auth_store) result" where
  "revokeSession i sid currentToken st =
     (case find (\<lambda>(_, s). s_userId s = i \<and> s_id s = sid) (sessions st) of
        None \<Rightarrow> (Inl SessionNotFound, st)
      | Some (token, _) \<Rightarrow>
          if Some token = currentToken then (Inl OwnSession, st)
          else (Inr (), persistSessions (st\<lparr>sessions := del token (sessions st)\<rparr>)))"

definition adminSetPassword :: "(uid \<Rightarrow> 'x \<Rightarrow> 'x) option \<Rightarrow> string \<Rightarrow> uid \<Rightarrow> string \<Rightarrow>
    auth_store \<times> 'x \<Rightarrow> (auth_error, unit, auth_store \<times> 'x) result" where
  "adminSetPassword hook hash i password sx =
     (case sx of (st, x) \<Rightarrow>
        (case look (users st) i of
           None \<Rightarrow> (Inl UserNotFound, sx)
         | Some _ \<Rightarrow>
             if length password < 8 then (Inl PasswordTooShort, sx)
             else (Inr (), deleteSessionsForUser hook i
                     (update_user i (\<lambda>r. r\<lparr>u_passwordHash := hash\<rparr>) st, x))))"

record AuthContext =
  ctx_token :: "string option"
  ctx_user :: "UserInfo option"
  ctx_ip :: "string option"
  ctx_userAgent :: "string option"

definition requireOwner :: "AuthContext option \<Rightarrow> auth_error + unit" where
  "requireOwner ctx =
     (case ctx of
        Some c \<Rightarrow> (case ctx_user c of
                      Some u \<Rightarrow> if isOwner u then Inr () else Inl OnlyTheOwner
                    | None \<Rightarrow> Inl OnlyTheOwner)
      | None \<Rightarrow> Inl OnlyTheOwner)"

text \<open>
  Every operation of the store as a step. Ids and tokens drawn at random are fresh; the role
  store, the clock and the password check may differ from step to step. \<open>addUser\<close> is reached by
  an authenticated administrator only, so an account exists by then.
\<close>

inductive auth_step :: "auth_store \<Rightarrow> auth_store \<Rightarrow> bool" where
  setup_owner: "look (users st) uuid = None \<Longrightarrow>
     auth_step st (snd (setupOwner uuid hash token sid now now' rst uname password ip ua st))"
| add_user: "look (users st) uuid = None \<Longrightarrow> users st \<noteq> [] \<Longrightarrow>
     auth_step st (snd (addUser uuid hash now rst uname password ids em st))"
| login: "auth_step st (snd (login verify token sid now now' rst uname password ip ua st))"
| logout: "auth_step st (logout t st)"
| authenticate: "auth_step st (snd (authenticate now rst t st))"
| deleteUser: "auth_step st (fst (snd (deleteUser None i callerId (st, ()))))"
| setUserRoles: "auth_step st (snd (setUserRoles rst i ids st))"
| setPermissions: "auth_step st (snd (setPermissions i ps st))"
| setSystemUser: "auth_step st (snd (setSystemUser i su st))"
| setEmail: "auth_step st (snd (setEmail i em st))"
| revokeSession: "auth_step st (snd (revokeSession i sid t st))"
| adminSetPassword: "auth_step st (fst (snd (adminSetPassword None hash i password (st, ()))))"

subsection \<open>The account invariant\<close>

definition is_owner :: "UserRecord \<Rightarrow> bool" where
  "is_owner r \<longleftrightarrow> u_isOwner r = Some True"

definition user_ok :: "uid \<Rightarrow> UserRecord \<Rightarrow> bool" where
  "user_ok k r \<longleftrightarrow> u_id r = k \<and> u_username r \<noteq> [] \<and> u_roleIds r \<noteq> None
     \<and> (is_owner r \<longrightarrow> u_roleIds r = Some []) \<and> u_email r \<noteq> Some []"

definition emails :: "(uid, UserRecord) jsmap \<Rightarrow> string list" where
  "emails us = List.map_filter u_email (vals us)"

definition users_ok :: "(uid, UserRecord) jsmap \<Rightarrow> bool" where
  "users_ok us \<longleftrightarrow> each user_ok us \<and> distinct (map u_username (vals us)) \<and> distinct (emails us)
     \<and> (us \<noteq> [] \<longrightarrow> length (filter is_owner (vals us)) = 1)"

definition auth_inv :: "auth_store \<Rightarrow> bool" where
  "auth_inv st \<longleftrightarrow> users_ok (users st) \<and> unique_keys (sessions st)"

lemma persist_simps [simp]:
  "users (persistUsers st) = users st" "sessions (persistUsers st) = sessions st"
  "users (persistSessions st) = users st" "sessions (persistSessions st) = sessions st"
  "usersFile (persistUsers st) = Some (users st)" "sessionsFile (persistUsers st) = sessionsFile st"
  "usersFile (persistSessions st) = usersFile st"
  "sessionsFile (persistSessions st) = Some (sessions st)"
  "loginFailures (persistUsers st) = loginFailures st"
  "loginFailures (persistSessions st) = loginFailures st"
  "dummyHash (persistUsers st) = dummyHash st" "dummyHash (persistSessions st) = dummyHash st"
  by (simp_all add: persistUsers_def persistSessions_def)

lemma set_emails: "e \<in> set (emails us) \<longleftrightarrow> (\<exists>(k, r) \<in> set us. u_email r = Some e)"
  by (force simp: emails_def map_filter_def)

lemma emails_append: "emails (us @ vs) = emails us @ emails vs"
  by (simp add: emails_def map_filter_def)

lemma emails_Cons: "emails ((k, r) # us) = (case u_email r of None \<Rightarrow> [] | Some e \<Rightarrow> [e]) @ emails us"
  by (simp add: emails_def map_filter_def split: option.splits)

lemma available_email:
  assumes "assertEmailAvailable e ex st = Inr u"
  shows "email_shape e \<and> (\<forall>(k, r) \<in> set (users st). u_email r = Some e \<longrightarrow> Some (u_id r) = ex)"
  using assms by (auto simp: assertEmailAvailable_def assertEmailShape_def list_ex_iff split: if_splits)

lemma email_shape_nonempty: "email_shape e \<Longrightarrow> e \<noteq> []"
  by (auto simp: email_shape_def)

text \<open>Rewriting one record keeps the invariant when its identity and e-mail stay admissible.\<close>

lemma users_ok_put:
  assumes ok: "users_ok us" and rec: "look us i = Some rec"
    and same: "u_id r = u_id rec" "u_username r = u_username rec" "u_isOwner r = u_isOwner rec"
    and ids: "u_roleIds r \<noteq> None" "is_owner r \<longrightarrow> u_roleIds r = Some []"
    and em: "u_email r \<noteq> Some []"
      "u_email r = None \<or> u_email r = u_email rec \<or> the (u_email r) \<notin> set (emails (del i us))"
  shows "users_ok (put i r us)"
proof -
  from rec obtain xs ys where us: "us = xs @ (i, rec) # ys" and i: "i \<notin> set (keys xs)"
    by (rule look_split)
  from ok have u: "unique_keys us" by (simp add: users_ok_def each_def)
  with us have "i \<notin> set (keys ys)" by auto
  then have d: "del i us = xs @ ys" using us i by (simp add: del_split)
  have p: "put i r us = xs @ (i, r) # ys" using us i by (simp add: put_split)
  have "user_ok i rec" using ok rec by (auto simp: users_ok_def dest: each_look)
  then have "user_ok i r" using same ids em by (simp add: user_ok_def)
  then have "each user_ok (put i r us)" using ok by (auto simp: users_ok_def)
  moreover have "distinct (emails (xs @ (i, r) # ys))"
    using ok [unfolded us] em(2) [unfolded d] unfolding users_ok_def emails_append emails_Cons
    by (auto split: option.splits)
  ultimately show ?thesis
    using ok [unfolded us] same unfolding users_ok_def p by (auto simp: is_owner_def)
qed

lemma users_ok_append:
  assumes "users_ok us" "look us (u_id r) = None" "user_ok (u_id r) r"
    and "u_username r \<notin> u_username ` set (vals us)"
    and "\<And>e. u_email r = Some e \<Longrightarrow> e \<notin> set (emails us)"
    and "is_owner r \<longleftrightarrow> us = []"
  shows "users_ok (put (u_id r) r us)"
  using assms by (auto simp: users_ok_def put_fresh [OF assms(2)] each_def emails_append
      emails_Cons map_of_eq_None_iff emails_def [of "[]"] map_filter_def split: option.splits)

lemma users_ok_del:
  assumes "users_ok us" "look us i = Some rec" "\<not> is_owner rec"
  shows "users_ok (del i us)"
proof -
  from assms(2) obtain xs ys where us: "us = xs @ (i, rec) # ys" and i: "i \<notin> set (keys xs)"
    by (rule look_split)
  from assms(1) have "unique_keys us" by (simp add: users_ok_def each_def)
  with us have "i \<notin> set (keys ys)" by auto
  then have d: "del i us = xs @ ys" using us i by (simp add: del_split)
  have "each user_ok (del i us)" using assms(1) by (auto simp: users_ok_def)
  then show ?thesis
    using assms(1) [unfolded us] assms(3) unfolding users_ok_def d
    by (auto simp: emails_append emails_Cons)
qed

subsection \<open>Preservation by each operation\<close>

lemma auth_inv_users: "auth_inv st \<Longrightarrow> users_ok (users st)"
  by (simp add: auth_inv_def)

lemma auth_inv_cong:
  "auth_inv st \<Longrightarrow> users st' = users st \<Longrightarrow> unique_keys (sessions st') \<Longrightarrow> auth_inv st'"
  by (simp add: auth_inv_def)

lemma createSession_simps [simp]:
  "users (createSession t sid i ip ua now st) = users st"
  "usersFile (createSession t sid i ip ua now st) = usersFile st"
  by (simp_all add: createSession_def)

lemma createSession_inv [inv_intros]:
  "auth_inv st \<Longrightarrow> auth_inv (createSession t sid i ip ua now st)"
  by (simp add: auth_inv_def createSession_def)

lemma createUser_checks_ok:
  assumes "createUser_checks uname pw em st = Inr (name, e)"
  shows "name \<noteq> [] \<and> name \<notin> u_username ` set (vals (users st)) \<and> length pw \<ge> 8
    \<and> (\<forall>x. e = Some x \<longrightarrow> x \<noteq> [] \<and> x \<notin> set (emails (users st)))"
  using assms
  by (fastforce simp: createUser_checks_def Let_def list_ex_iff set_emails
      split: if_splits option.splits sum.splits dest: available_email email_shape_nonempty)

lemma createUser_inv:
  assumes "auth_inv st" "look (users st) uuid = None" "owner \<longleftrightarrow> users st = []"
    and "owner \<Longrightarrow> ids = []"
  shows "auth_inv (snd (createUser uuid hash now rst uname pw ids owner em st))"
proof (cases "createUser_checks uname pw em st")
  case (Inr p)
  obtain name e where p: "p = (name, e)" by fastforce
  note c = createUser_checks_ok [OF Inr [unfolded p]]
  let ?r = "new_user uuid hash ids owner now name e"
  have "users_ok (put (u_id ?r) ?r (users st))"
    using assms c
    by (intro users_ok_append) (auto simp: auth_inv_users new_user_def user_ok_def is_owner_def)
  with assms(1) Inr p show ?thesis
    by (simp add: createUser_def createUser_commit_def auth_inv_def new_user_def)
qed (use assms in \<open>simp add: createUser_def\<close>)

lemma createUser_Inl: "createUser uuid hash now rst uname pw ids owner em st = (Inl e, st') \<Longrightarrow> st' = st"
  by (auto simp: createUser_def split: sum.splits prod.splits)

lemma createUser_Inr:
  "createUser uuid hash now rst uname pw ids owner em st = (Inr u, st') \<Longrightarrow>
   \<exists>name e. createUser_checks uname pw em st = Inr (name, e)
     \<and> st' = persistUsers (st\<lparr>users := put uuid (new_user uuid hash ids owner now name e) (users st)\<rparr>)
     \<and> u = toUserInfo (new_user uuid hash ids owner now name e) rst"
  by (auto simp: createUser_def createUser_commit_def new_user_def split: sum.splits prod.splits)

lemma setupOwner_inv [inv_intros]:
  assumes "auth_inv st" "look (users st) uuid = None"
  shows "auth_inv (snd (setupOwner uuid hash token sid now now' rst uname pw ip ua st))"
proof (cases "users st = []")
  case True
  from createUser_inv [OF assms, of True "[]" hash now rst uname pw None] True
  show ?thesis
    by (auto simp: setupOwner_def needsSetup_def split: prod.split sum.split intro: inv_intros)
qed (use assms in \<open>simp add: setupOwner_def needsSetup_def\<close>)

lemma addUser_inv [inv_intros]:
  assumes "auth_inv st" "look (users st) uuid = None" "users st \<noteq> []"
  shows "auth_inv (snd (addUser uuid hash now rst uname pw ids em st))"
  using assms createUser_inv [OF assms(1,2), of False]
  by (auto simp: addUser_def split: sum.splits)

lemma login_inv [inv_intros]:
  "auth_inv st \<Longrightarrow> auth_inv (snd (login verify token sid now now' rst uname pw ip ua st))"
  by (auto simp: login_def Let_def auth_inv_def createSession_def recordLoginFailure_def
      split: option.splits prod.splits)

lemma logout_inv [inv_intros]: "auth_inv st \<Longrightarrow> auth_inv (logout t st)"
  by (auto simp: logout_def auth_inv_def split: option.splits)

lemma authenticate_inv [inv_intros]: "auth_inv st \<Longrightarrow> auth_inv (snd (authenticate now rst t st))"
  by (auto simp: authenticate_def auth_inv_def split: option.splits)

lemma deleteSessions_inv [inv_intros]:
  "auth_inv st \<Longrightarrow> auth_inv (fst (deleteSessionsForUser hook i (st, x)))"
  by (auto simp: deleteSessionsForUser_def auth_inv_def)

lemma deleteUser_inv [inv_intros]:
  assumes "auth_inv st"
  shows "auth_inv (fst (snd (deleteUser hook i c (st, x))))"
proof (cases "look (users st) i")
  case (Some rec)
  show ?thesis
  proof (cases "is_owner rec")
    case False
    from users_ok_del [OF auth_inv_users [OF assms] Some False]
    have "auth_inv (persistUsers (st\<lparr>users := del i (users st)\<rparr>))"
      using assms by (simp add: auth_inv_def)
    from deleteSessions_inv [OF this] Some False assms show ?thesis
      by (auto simp: deleteUser_def is_owner_def)
  qed (use assms Some in \<open>simp add: deleteUser_def is_owner_def\<close>)
qed (use assms in \<open>simp add: deleteUser_def\<close>)

text \<open>Records after a rewrite that leaves identity, ownership and roles alone.\<close>

lemma update_user_inv:
  assumes inv: "auth_inv st" and rec: "look (users st) i = Some rec"
    and same: "u_id (f rec) = u_id rec" "u_username (f rec) = u_username rec"
      "u_isOwner (f rec) = u_isOwner rec"
    and ids: "u_roleIds (f rec) = u_roleIds rec \<or> (\<not> is_owner rec \<and> u_roleIds (f rec) \<noteq> None)"
    and em: "u_email (f rec) = u_email rec \<or> u_email (f rec) = None
      \<or> (\<exists>e. u_email (f rec) = Some e \<and> e \<noteq> [] \<and> e \<notin> set (emails (del i (users st))))"
  shows "auth_inv (update_user i f st)"
proof -
  have ok: "user_ok i rec"
    using each_look [OF _ rec, of user_ok] auth_inv_users [OF inv] by (simp add: users_ok_def)
  have "users_ok (put i (f rec) (users st))"
    using ok ids em same
    by (intro users_ok_put [OF auth_inv_users [OF inv] rec])
       (auto simp: user_ok_def is_owner_def)
  with inv rec show ?thesis by (simp add: update_user_def auth_inv_def)
qed

lemma setUserRoles_inv [inv_intros]:
  assumes "auth_inv st" shows "auth_inv (snd (setUserRoles rst i ids st))"
proof (cases "look (users st) i")
  case (Some rec)
  then show ?thesis using assms
    by (auto simp: setUserRoles_def split: sum.splits
        intro!: update_user_inv [OF assms Some] simp: is_owner_def)
qed (use assms in \<open>simp add: setUserRoles_def\<close>)

lemma setPermissions_inv [inv_intros]:
  assumes "auth_inv st" shows "auth_inv (snd (setPermissions i ps st))"
proof (cases "look (users st) i")
  case (Some rec)
  then show ?thesis using assms
    by (auto simp: setPermissions_def split: sum.splits intro!: update_user_inv [OF assms Some])
qed (use assms in \<open>simp add: setPermissions_def\<close>)

lemma setSystemUser_inv [inv_intros]:
  assumes "auth_inv st" shows "auth_inv (snd (setSystemUser i su st))"
proof (cases "look (users st) i")
  case (Some rec)
  then show ?thesis using assms
    by (auto simp: setSystemUser_def Let_def split: option.split sum.split
        intro!: update_user_inv [OF assms Some])
qed (use assms in \<open>simp add: setSystemUser_def\<close>)

lemma setEmail_inv [inv_intros]:
  assumes "auth_inv st" shows "auth_inv (snd (setEmail i em st))"
proof (cases "look (users st) i")
  case (Some rec)
  have free: "e \<noteq> [] \<and> e \<notin> set (emails (del i (users st)))"
    if "assertEmailAvailable e (Some i) st = Inr u" for e u
  proof -
    have "each user_ok (users st)" using auth_inv_users [OF assms] by (simp add: users_ok_def)
    then have "\<forall>(k, r) \<in> set (users st). u_id r = k" by (auto simp: each_def user_ok_def)
    with available_email [OF that] email_shape_nonempty [of e] show ?thesis
      by (fastforce simp: set_emails set_del)
  qed
  show ?thesis
  proof (cases "normalizeEmail em")
    case None
    with Some show ?thesis
      by (auto simp: setEmail_def intro!: update_user_inv [OF assms Some])
  next
    case (Some e)
    with \<open>look (users st) i = _\<close> free [of e] assms show ?thesis
      by (auto simp: setEmail_def split: sum.split
          intro!: update_user_inv [OF assms \<open>look (users st) i = _\<close>])
  qed
qed (use assms in \<open>simp add: setEmail_def\<close>)

lemma revokeSession_inv [inv_intros]: "auth_inv st \<Longrightarrow> auth_inv (snd (revokeSession i sid t st))"
  by (auto simp: revokeSession_def auth_inv_def split: option.splits)

lemma adminSetPassword_inv [inv_intros]:
  assumes "auth_inv st" shows "auth_inv (fst (snd (adminSetPassword hook hash i pw (st, x))))"
proof (cases "look (users st) i")
  case (Some rec)
  have "auth_inv (update_user i (\<lambda>r. r\<lparr>u_passwordHash := hash\<rparr>) st)"
    by (rule update_user_inv [OF assms Some]) auto
  from deleteSessions_inv [OF this] Some assms show ?thesis by (auto simp: adminSetPassword_def)
qed (use assms in \<open>simp add: adminSetPassword_def\<close>)

interpretation accounts: invariant_store auth_inv auth_step
proof
  fix s s' assume "auth_step s s'" "auth_inv s"
  then show "auth_inv s'" by (induction rule: auth_step.induct) (auto intro: inv_intros)
qed

subsection \<open>Memory and files\<close>

definition auth_mem :: "auth_store \<Rightarrow> (uid, UserRecord) jsmap \<times> (string, SessionRecord) jsmap" where
  "auth_mem st = (users st, sessions st)"

definition auth_disk :: "auth_store \<Rightarrow> (uid, UserRecord) jsmap \<times> (string, SessionRecord) jsmap" where
  "auth_disk st = (read_file (usersFile st), read_file (sessionsFile st))"

definition synced :: "auth_store \<Rightarrow> bool" where
  "synced st \<longleftrightarrow> auth_mem st = auth_disk st"

lemma synced_persist [simp]:
  "synced (persistUsers st) \<longleftrightarrow> sessions st = read_file (sessionsFile st)"
  "synced (persistSessions st) \<longleftrightarrow> users st = read_file (usersFile st)"
  by (auto simp: synced_def auth_mem_def auth_disk_def)

lemma syncedD: "synced st \<Longrightarrow> users st = read_file (usersFile st) \<and> sessions st = read_file (sessionsFile st)"
  by (simp add: synced_def auth_mem_def auth_disk_def)

lemma synced_createUser:
  "synced st \<Longrightarrow> synced (snd (createUser uuid hash now rst uname pw ids owner em st))"
  by (auto simp: createUser_def createUser_commit_def dest: syncedD split: sum.split prod.split)

lemma synced_createSession [simp]: "synced st \<Longrightarrow> synced (createSession t sid i ip ua now st)"
  by (auto simp: createSession_def dest: syncedD)

lemma synced_setupOwner:
  assumes "synced st"
  shows "synced (snd (setupOwner uuid hash token sid now now' rst uname pw ip ua st))"
  using synced_createUser [OF assms, of uuid hash now rst uname pw "[]" True None] assms
  by (auto simp: setupOwner_def split: sum.split prod.split)

lemma synced_login:
  "synced st \<Longrightarrow> synced (snd (login verify token sid now now' rst uname pw ip ua st))"
  by (auto simp: login_def Let_def createSession_def recordLoginFailure_def split: option.split prod.split)
     (auto simp: synced_def auth_mem_def auth_disk_def)

lemma synced_update [simp]: "synced st \<Longrightarrow> synced (update_user i f st)"
  by (auto simp: update_user_def dest: syncedD split: option.split)

lemma synced_deleteSessions [simp]: "synced st \<Longrightarrow> synced (fst (deleteSessionsForUser h i (st, x)))"
  by (auto simp: deleteSessionsForUser_def dest: syncedD)

lemma synced_deleteUser:
  "synced st \<Longrightarrow> synced (fst (snd (deleteUser h i c (st, x))))"
  using synced_deleteSessions [of "persistUsers (st\<lparr>users := del i (users st)\<rparr>)" h i x]
  by (auto simp: deleteUser_def dest: syncedD split: option.split)

lemma synced_simple:
  assumes "synced st"
  shows "synced (snd (addUser uuid hash now rst uname pw ids em st))" "synced (logout t st)"
    "synced (snd (authenticate now rst t st))" "synced (snd (setUserRoles rst i ids st))"
    "synced (snd (setPermissions i ps st))" "synced (snd (setSystemUser i su st))"
    "synced (snd (setEmail i em st))" "synced (snd (revokeSession i sid t st))"
    "synced (fst (snd (adminSetPassword h hash i pw (st, x))))"
  using assms synced_createUser [OF assms] syncedD [OF assms]
  by (auto simp: addUser_def logout_def authenticate_def setUserRoles_def setPermissions_def
      setSystemUser_def Let_def setEmail_def revokeSession_def adminSetPassword_def
      split: sum.split option.split)

interpretation auth_files: persisted_store auth_mem auth_disk auth_step
proof
  fix s s' assume "auth_step s s'" "auth_mem s = auth_disk s"
  then have "synced s'"
    by (induction rule: auth_step.induct)
       (auto simp flip: synced_def
         intro: synced_setupOwner synced_login synced_deleteUser synced_simple)
  then show "auth_mem s' = auth_disk s'" by (simp add: synced_def)
qed

lemma init_auth_empty:
  "auth_inv (init_auth None None dummy uuid now)"
  "auth_mem (init_auth None None dummy uuid now) = auth_disk (init_auth None None dummy uuid now)"
  by (simp_all add: init_auth_def migrateRoles_def backfillSessionIds_def pruneExpired_def auth_inv_def
      users_ok_def emails_def map_filter_def auth_mem_def auth_disk_def)

subsection \<open>Sessions as credentials\<close>

definition holds_session :: "auth_store \<Rightarrow> uid \<Rightarrow> string \<Rightarrow> bool" where
  "holds_session st i t \<longleftrightarrow> list_ex (\<lambda>(t', s). t' = t \<and> s_userId s = i) (sessions st)"

definition end_sessions :: "uid \<Rightarrow> auth_store \<Rightarrow> auth_store" where
  "end_sessions i st = fst (deleteSessionsForUser None i (st, ()))"

lemma deleteSessions_state:
  "fst (deleteSessionsForUser h i (st, x)) = end_sessions i st"
  "snd (deleteSessionsForUser h i (st, x)) = (case h of None \<Rightarrow> x | Some f \<Rightarrow> f i x)"
  by (simp_all add: end_sessions_def deleteSessionsForUser_def)

lemma end_sessions_simps [simp]: "users (end_sessions i st) = users st"
  by (simp add: end_sessions_def deleteSessionsForUser_def)

lemma end_sessions_sessions:
  "sessions (end_sessions i st) = drop_where (\<lambda>s. s_userId s = i) (sessions st)"
  by (auto simp: end_sessions_def deleteSessionsForUser_def drop_where_none)

interpretation session_credentials: credential_store end_sessions holds_session
  by unfold_locales (auto simp: holds_session_def end_sessions_sessions list_ex_iff)

lemma authenticate_cases:
  "fst (authenticate now rst t st) = Some u \<longleftrightarrow>
   (\<exists>tok s rec. t = Some tok \<and> tok \<noteq> [] \<and> look (sessions st) tok = Some s
      \<and> now - s_lastSeenAt s \<le> SESSION_TTL_MS \<and> look (users st) (s_userId s) = Some rec
      \<and> u = toUserInfo rec rst)"
  by (auto simp: authenticate_def split: option.splits)

lemma auth_user_id:
  assumes "auth_inv st" "look (users st) i = Some r"
  shows "u_id r = i"
  using each_look [OF _ assms(2), of user_ok] auth_inv_users [OF assms(1)]
  by (simp add: users_ok_def user_ok_def)

lemma authenticated_holds:
  assumes "auth_inv st" "fst (authenticate now rst (Some t) st) = Some u"
  shows "holds_session st (user_id u) t"
  using assms auth_user_id [OF assms(1)]
  by (fastforce simp: authenticate_cases holds_session_def list_ex_iff toUserInfo_def Let_def
      dest: map_of_SomeD)

subsection \<open>Logging in, step by step\<close>

lemma login_failed:
  assumes "\<not> login_blocked (login_key ip uname) now st"
    and "\<And>r. r \<in> set (vals (users st)) \<Longrightarrow> u_username r = normalizeUsername uname \<Longrightarrow>
           \<not> verify pw (u_passwordHash r)"
  shows "login verify token sid now now' rst uname pw ip ua st =
     (Inl InvalidCredentials, recordLoginFailure (login_key ip uname) now' st)"
proof -
  have "\<not> verify pw (u_passwordHash r)"
    if "find (\<lambda>u. u_username u = normalizeUsername uname) (vals (users st)) = Some r" for r
    using that assms(2) by (fastforce simp: find_Some_iff in_set_conv_nth)
  with assms(1) show ?thesis by (auto simp: login_def Let_def split: option.split)
qed

lemma login_accepted:
  assumes "login verify token sid now now' rst uname pw ip ua st = (Inr (t, u), st')"
  shows "\<not> login_blocked (login_key ip uname) now st \<and> t = token
    \<and> (\<exists>r. r \<in> set (vals (users st)) \<and> u_username r = normalizeUsername uname
         \<and> verify pw (u_passwordHash r) \<and> u = toUserInfo r rst
         \<and> st' = createSession token sid (u_id r) ip ua now'
               (st\<lparr>loginFailures := del (login_key ip uname) (loginFailures st)\<rparr>))"
proof -
  obtain r where f: "find (\<lambda>u. u_username u = normalizeUsername uname) (vals (users st)) = Some r"
    using assms by (auto simp: login_def Let_def split: if_splits option.splits)
  then have "r \<in> set (vals (users st)) \<and> u_username r = normalizeUsername uname"
    by (auto simp: find_Some_iff set_conv_nth simp del: set_map)
  with assms f show ?thesis by (auto simp: login_def Let_def split: if_splits)
qed

lemma recordLoginFailure_simps [simp]:
  "users (recordLoginFailure k t st) = users st" "sessions (recordLoginFailure k t st) = sessions st"
  by (simp_all add: recordLoginFailure_def split: prod.split)

text \<open>A run of login attempts from one address: user name, password, and the two clock readings.\<close>

fun attempts :: "(string \<Rightarrow> string \<Rightarrow> bool) \<Rightarrow> role_store \<Rightarrow> string \<Rightarrow> (string \<times> string \<times> ms \<times> ms) list \<Rightarrow>
    auth_store \<Rightarrow> auth_store" where
  "attempts verify rst ip [] st = st"
| "attempts verify rst ip ((uname, pw, now, now') # as) st =
     attempts verify rst ip as (snd (login verify [] [] now now' rst uname pw (Some ip) None st))"

definition wrong_guess :: "(string \<Rightarrow> string \<Rightarrow> bool) \<Rightarrow> auth_store \<Rightarrow> string \<times> string \<times> ms \<times> ms \<Rightarrow> bool" where
  "wrong_guess verify st a \<longleftrightarrow> (case a of (uname, pw, now, now') \<Rightarrow> 0 \<le> now \<and>
     list_all (\<lambda>r. u_username r = normalizeUsername uname \<longrightarrow> \<not> verify pw (u_passwordHash r))
       (vals (users st)))"

lemma attempts_snoc:
  "attempts verify rst ip (as @ [(n, p, t, t')]) st =
   snd (login verify [] [] t t' rst n p (Some ip) None (attempts verify rst ip as st))"
  by (induction as arbitrary: st) auto

lemma login_attempt_frame:
  "look (loginFailures (snd (login verify tk sid now now' rst n p (Some ip) ua st))) k =
   (if k = ip then look (loginFailures (snd (login verify tk sid now now' rst n p (Some ip) ua st))) k
    else look (loginFailures st) k)"
  by (auto simp: login_def login_key_def Let_def createSession_def recordLoginFailure_def
      split: option.split prod.split)

lemma login_users [simp]: "users (snd (login verify tk sid now now' rst n p ip ua st)) = users st"
  by (auto simp: login_def Let_def split: option.split)

lemma attempts_frame:
  "users (attempts verify rst ip as st) = users st"
  "k \<noteq> ip \<Longrightarrow> look (loginFailures (attempts verify rst ip as st)) k = look (loginFailures st) k"
  by (induction verify rst ip as st rule: attempts.induct) (simp_all, metis login_attempt_frame)

lemma wrong_guess_step:
  assumes "wrong_guess verify st (n, p, t, t')" "users st' = users st"
    and "\<not> login_blocked ip t st'"
  shows "snd (login verify tk sid t t' rst n p (Some ip) ua st') = recordLoginFailure ip t' st'"
proof -
  have "\<not> verify p (u_passwordHash r)"
    if "r \<in> set (vals (users st'))" "u_username r = normalizeUsername n" for r
    using assms(1) that unfolding assms(2) by (auto simp: wrong_guess_def list_all_iff)
  with assms(3) show ?thesis by (subst login_failed) (auto simp: login_key_def)
qed

lemma failures_counted:
  assumes "look (loginFailures st) ip = None" "list_all (wrong_guess verify st) as"
    and "length as < MAX_LOGIN_FAILURES"
  shows "look (loginFailures (attempts verify rst ip as st)) ip =
    (if as = [] then None else Some (length as, 0))"
  using assms
proof (induction as rule: rev_induct)
  case (snoc a as)
  obtain n p t t' where a: "a = (n, p, t, t')" by (cases a)
  let ?s = "attempts verify rst ip as st"
  from snoc have ih: "look (loginFailures ?s) ip = (if as = [] then None else Some (length as, 0))"
    by simp
  from snoc.prems a have w: "wrong_guess verify st (n, p, t, t')" by simp
  then have "\<not> login_blocked ip t ?s" using ih by (simp add: login_blocked_def wrong_guess_def)
  from wrong_guess_step [OF w attempts_frame(1) this] ih snoc.prems(3) show ?case
    by (auto simp: a attempts_snoc recordLoginFailure_def)
qed simp

lemma tenth_failure_blocks:
  assumes "look (loginFailures st) ip = None" "list_all (wrong_guess verify st) (as @ [a])"
    and "Suc (length as) = MAX_LOGIN_FAILURES"
  shows "look (loginFailures (attempts verify rst ip (as @ [a]) st)) ip =
    Some (0, snd (snd (snd a)) + LOGIN_BLOCK_MS)"
proof -
  obtain n p t t' where a: "a = (n, p, t, t')" by (cases a)
  let ?s = "attempts verify rst ip as st"
  from failures_counted [of st ip verify as rst] assms
  have ih: "look (loginFailures ?s) ip = (if as = [] then None else Some (length as, 0))" by simp
  from assms(2) a have w: "wrong_guess verify st (n, p, t, t')" by simp
  then have "\<not> login_blocked ip t ?s" using ih by (simp add: login_blocked_def wrong_guess_def)
  from wrong_guess_step [OF w attempts_frame(1) this] ih assms(3) show ?thesis
    by (auto simp: a attempts_snoc recordLoginFailure_def MAX_LOGIN_FAILURES_def)
qed

text \<open>The account invariant, spelled out.\<close>

lemma users_ok_fields:
  "users_ok us \<Longrightarrow> look us i = Some r \<Longrightarrow>
   u_id r = i \<and> u_username r \<noteq> [] \<and> (u_isOwner r = Some True \<longrightarrow> u_roleIds r = Some [])"
  using each_look [of user_ok us i r] by (auto simp: users_ok_def user_ok_def is_owner_def)

lemma users_ok_apart:
  assumes ok: "users_ok us" and r: "look us i = Some r" and q: "look us j = Some q" and ij: "i \<noteq> j"
  shows "u_username r \<noteq> u_username q \<and> (u_email r = None \<or> u_email r \<noteq> u_email q)"
proof -
  from r obtain xs ys where us: "us = xs @ (i, r) # ys" by (rule look_split)
  with q ij have m: "(j, q) \<in> set (xs @ ys)" by (auto dest!: map_of_SomeD)
  then have e: "e \<in> set (emails xs) \<union> set (emails ys)" if "u_email q = Some e" for e
    using that by (fastforce simp: set_emails)
  have "u_username r \<notin> u_username ` set (vals (xs @ ys))"
    using ok unfolding us users_ok_def by (auto simp: image_iff)
  moreover have "u_username q \<in> u_username ` set (vals (xs @ ys))" using m by force
  moreover have "e \<notin> set (emails xs) \<union> set (emails ys)" if "u_email r = Some e" for e
    using ok that unfolding us users_ok_def emails_append emails_Cons by auto
  ultimately show ?thesis using e by (cases "u_email r") force+
qed

lemma only_one:
  assumes "length (filter P xs) = 1" "x \<in> set xs" "P x" "y \<in> set xs" "P y"
  shows "x = y"
proof -
  from assms(1) obtain z where "filter P xs = [z]" by (auto simp: length_Suc_conv)
  moreover have "x \<in> set (filter P xs)" "y \<in> set (filter P xs)" using assms(2-) by simp_all
  ultimately show ?thesis by simp
qed

lemma users_ok_owner:
  assumes ok: "users_ok us" and "us \<noteq> []"
  shows "\<exists>!i. \<exists>r. look us i = Some r \<and> u_isOwner r = Some True"
proof -
  from assms have one: "length (filter is_owner (vals us)) = 1" by (simp add: users_ok_def)
  then have "filter is_owner (vals us) \<noteq> []" by (intro notI) simp
  then obtain r where "r \<in> set (filter is_owner (vals us))" by (meson list.set_sel(1))
  then obtain i where i: "(i, r) \<in> set us" "is_owner r" by auto
  from ok have u: "unique_keys us" by (simp add: users_ok_def each_def)
  have "j = i" if j: "look us j = Some q" "is_owner q" for j q
  proof -
    have "q \<in> set (vals us)" using map_of_SomeD [OF j(1)] by force
    then have "q = r"
      by (rule only_one [OF one]) (use i j in force)+
    with users_ok_fields [OF ok j(1)] users_ok_fields [OF ok, of i r] i u show ?thesis by auto
  qed
  with i u show ?thesis unfolding is_owner_def by (metis map_of_is_SomeI)
qed

text \<open>Both revoking operations first rewrite the account, then end its sessions.\<close>

lemma revocation_stages:
  assumes "auth_inv st"
    and "adminSetPassword (Some hook) hash i pw (st, x) = (Inr (), st', x')
       \<or> (look (users st) i \<noteq> None \<and> deleteUser (Some hook) i callerId (st, x) = (Inr (), st', x'))"
  shows "\<exists>st1. auth_inv st1 \<and> st' = end_sessions i st1 \<and> sessions st1 = sessions st
    \<and> (\<forall>j. j \<noteq> i \<longrightarrow> look (users st1) j = look (users st) j) \<and> x' = hook i x"
  using assms(2)
proof
  assume h: "adminSetPassword (Some hook) hash i pw (st, x) = (Inr (), st', x')"
  let ?f = "\<lambda>r. r\<lparr>u_passwordHash := hash\<rparr>"
  from h obtain rec where rec: "look (users st) i = Some rec"
    and e: "deleteSessionsForUser (Some hook) i (update_user i ?f st, x) = (st', x')"
    by (auto simp: adminSetPassword_def split: option.splits if_splits)
  have "auth_inv (update_user i ?f st)" by (rule update_user_inv [OF assms(1) rec]) auto
  moreover from e deleteSessions_state [of "Some hook" i "update_user i ?f st" x]
  have "st' = end_sessions i (update_user i ?f st)" "x' = hook i x" by auto
  ultimately show ?thesis
    by (intro exI [of _ "update_user i ?f st"]) (auto simp: update_user_def rec)
next
  assume h: "look (users st) i \<noteq> None \<and> deleteUser (Some hook) i callerId (st, x) = (Inr (), st', x')"
  let ?s = "persistUsers (st\<lparr>users := del i (users st)\<rparr>)"
  from h obtain rec where rec: "look (users st) i = Some rec" "\<not> is_owner rec"
    and e: "deleteSessionsForUser (Some hook) i (?s, x) = (st', x')"
    by (auto simp: deleteUser_def is_owner_def split: option.splits if_splits)
  have "auth_inv ?s"
    using users_ok_del [OF auth_inv_users [OF assms(1)] rec] assms(1) by (simp add: auth_inv_def)
  moreover from e deleteSessions_state [of "Some hook" i ?s x]
  have "st' = end_sessions i ?s" "x' = hook i x" by auto
  ultimately show ?thesis by (intro exI [of _ ?s]) auto
qed

subsection \<open>Properties\<close>





text \<open>
  C6. A bearer token is accepted exactly when it is a non-empty token of a stored session, last
  used within thirty days, whose account exists; the answer is that account's current
  information. Accepting it slides the session's expiry, an expired one is deleted, and no
  account and no other session is touched.
\<close>

theorem authenticate_exact:
  "(fst (authenticate now rst (Some t) st) = Some u \<longleftrightarrow>
      t \<noteq> [] \<and> (\<exists>s rec. look (sessions st) t = Some s \<and> now - s_lastSeenAt s \<le> 30 * 24 * 60 * 60 * 1000
        \<and> look (users st) (s_userId s) = Some rec \<and> u = toUserInfo rec rst))
   \<and> users (snd (authenticate now rst (Some t) st)) = users st
   \<and> look (sessions (snd (authenticate now rst (Some t) st))) t' =
       (if t' = t \<and> t \<noteq> [] then
          (case look (sessions st) t of
             None \<Rightarrow> None
           | Some s \<Rightarrow> if now - s_lastSeenAt s > SESSION_TTL_MS then None
                       else if look (users st) (s_userId s) = None then Some s
                       else Some (s\<lparr>s_lastSeenAt := now\<rparr>))
        else look (sessions st) t')"
  by (auto simp: authenticate_cases)
     (auto simp: SESSION_TTL_MS_def authenticate_def split: option.split)

text \<open>
  A login that succeeds was made with the password of an account of that user name, from
  an address that is not locked; it clears the address's failures, and the token it returns
  authenticates as that account for as long as thirty days pass between two uses.
\<close>

theorem login_grants_a_session:
  assumes "auth_inv st" "token \<noteq> []"
    and "login verify token sid now now' rst uname pw ip ua st = (Inr (t, u), st')"
  shows "\<not> login_blocked (login_key ip uname) now st
    \<and> (\<exists>r. look (users st) (u_id r) = Some r \<and> u_username r = normalizeUsername uname
         \<and> verify pw (u_passwordHash r) \<and> u = toUserInfo r rst)
    \<and> look (loginFailures st') (login_key ip uname) = None
    \<and> (later - now' \<le> 30 * 24 * 60 * 60 * 1000 \<longrightarrow>
         fst (authenticate later rst (Some t) st') = Some u
         \<and> (latest - later \<le> 30 * 24 * 60 * 60 * 1000 \<longrightarrow>
              fst (authenticate latest rst (Some t) (snd (authenticate later rst (Some t) st'))) = Some u))"
proof -
  from login_accepted [OF assms(3)] obtain r where
    r: "r \<in> set (vals (users st))" "u_username r = normalizeUsername uname"
      "verify pw (u_passwordHash r)" "u = toUserInfo r rst"
      "\<not> login_blocked (login_key ip uname) now st" "t = token"
    and st': "st' = createSession token sid (u_id r) ip ua now'
        (st\<lparr>loginFailures := del (login_key ip uname) (loginFailures st)\<rparr>)" by blast
  from r(1) obtain i where i: "(i, r) \<in> set (users st)" by auto
  have "unique_keys (users st)" using auth_inv_users [OF assms(1)] by (simp add: users_ok_def each_def)
  with i have "look (users st) i = Some r" by simp
  with auth_user_id [OF assms(1) this] have lk: "look (users st) (u_id r) = Some r" by simp
  with r assms(2) show ?thesis
    by (auto simp: st' createSession_def authenticate_def SESSION_TTL_MS_def)
qed

text \<open>
  C7. Revoking an account's credentials. After an administrator resets a password or deletes an
  account, no token whatever authenticates as that account at any time, every token of another
  account is worth what it was, and the hook that ends the account's refresh tokens has run
  once, for that account.
\<close>

theorem credentials_revoked:
  assumes "auth_inv st"
    and "adminSetPassword (Some hook) hash i pw (st, x) = (Inr (), st', x')
       \<or> (look (users st) i \<noteq> None \<and> deleteUser (Some hook) i callerId (st, x) = (Inr (), st', x'))"
  shows "(\<forall>t now u. fst (authenticate now rst t st') = Some u \<longrightarrow> user_id u \<noteq> i)
    \<and> (\<forall>t now u. user_id u \<noteq> i \<longrightarrow>
         fst (authenticate now rst t st') = Some u \<longleftrightarrow> fst (authenticate now rst t st) = Some u)
    \<and> x' = hook i x"
proof -
  obtain st1 where st1: "auth_inv st1" "st' = end_sessions i st1" "sessions st1 = sessions st"
    "\<And>j. j \<noteq> i \<Longrightarrow> look (users st1) j = look (users st) j" and x': "x' = hook i x"
    using revocation_stages [OF assms] by metis
  have inv': "auth_inv st'"
    using st1(1,2) deleteSessions_inv [of st1 None i "()"] by (simp add: end_sessions_def)
  have u: "unique_keys (sessions st)" using assms(1) by (simp add: auth_inv_def)
  have a: "user_id u \<noteq> i" if "fst (authenticate now rst t st') = Some u" for t now u
  proof -
    from that obtain tok where "t = Some tok" by (auto simp: authenticate_cases)
    with authenticated_holds [OF inv'] that have "holds_session (end_sessions i st1) (user_id u) tok"
      using st1(2) by blast
    then show ?thesis using session_credentials.revoke_ends by blast
  qed
  have b: "fst (authenticate now rst t st') = Some u \<longleftrightarrow> fst (authenticate now rst t st) = Some u"
    if "user_id u \<noteq> i" for t now u
  proof -
    have ids: "s_userId s \<noteq> i"
      if "look (users z) (s_userId s) = Some rec" "u = toUserInfo rec rst" "auth_inv z" for s rec z
      using auth_user_id [OF that(3,1)] that(2) \<open>user_id u \<noteq> i\<close>
      by (auto simp: toUserInfo_def Let_def)
    show ?thesis
      unfolding authenticate_cases st1(2) end_sessions_sessions st1(3) end_sessions_simps
        look_drop_where_Some [OF u]
      using ids [OF _ _ assms(1)] ids [OF _ _ st1(1)] st1(4) by metis
  qed
  from a b x' show ?thesis by blast
qed

text \<open>What \<open>setupOwner\<close> does with its account after the \<open>await\<close> of the password hash.\<close>

definition owner_commit :: "role_store \<Rightarrow> uid \<Rightarrow> string \<Rightarrow> ms \<Rightarrow> string \<Rightarrow> string option \<Rightarrow>
    auth_store \<Rightarrow> auth_store" where
  "owner_commit rst k h t n e st = snd (createUser_commit (new_user k h [] True t n e) rst st)"

text \<open>
  C10. Concurrent setup. The check that no account exists and the insertion of the owner lie on
  the two sides of an \<open>await\<close>: two setup requests that both pass their checks before either
  inserts leave two owners (with the same user name when they ask for the same), where one
  request after the other is refused.
\<close>

theorem setup_race:
  assumes "needsSetup st" "i \<noteq> j"
    and "createUser_checks n1 p1 None st = Inr (name1, e1)"
    and "createUser_checks n2 p2 None st = Inr (name2, e2)"
  shows "length (filter is_owner (vals (users
          (owner_commit rst j h2 t2 name2 e2 (owner_commit rst i h1 t1 name1 e1 st))))) = 2
    \<and> (name1 = name2 \<longrightarrow> \<not> distinct (map u_username (vals (users
          (owner_commit rst j h2 t2 name2 e2 (owner_commit rst i h1 t1 name1 e1 st))))))
    \<and> fst (setupOwner j h2 tk2 s2 t2 t2' rst n2 p2 ip ua
          (snd (setupOwner i h1 tk1 s1 t1 t1' rst n1 p1 ip' ua' st))) = Inl SetupAlreadyCompleted"
  using assms
  by (auto simp: owner_commit_def createUser_commit_def new_user_def is_owner_def needsSetup_def
      setupOwner_def createUser_def split: prod.split)

text \<open>Concrete runs of the last three properties.\<close>

definition demo_auth :: auth_store where
  "demo_auth = init_auth None None ''dummy'' (\<lambda>_. []) 0"

definition demo_user :: UserRecord where
  "demo_user = new_user ''u1'' ''hash'' [] True 0 ''ann'' None"

lemma demo_run:
  "setupOwner ''u1'' ''hash'' ''t0'' ''s0'' 0 0 (init_roles None) '' Ann'' ''longenough'' None None demo_auth
   = (Inr (''t0'', toUserInfo demo_user (init_roles None)),
      \<lparr>users = [(''u1'', demo_user)],
       sessions = [(''t0'', \<lparr>s_id = ''s0'', s_userId = ''u1'', s_createdAt = 0, s_lastSeenAt = 0,
                             s_ip = None, s_userAgent = None\<rparr>)],
       dummyHash = ''dummy'', loginFailures = [], usersFile = Some [(''u1'', demo_user)],
       sessionsFile = Some [(''t0'', \<lparr>s_id = ''s0'', s_userId = ''u1'', s_createdAt = 0,
                             s_lastSeenAt = 0, s_ip = None, s_userAgent = None\<rparr>)]\<rparr>)"
proof -
  have d: "demo_auth = \<lparr>users = [], sessions = [], dummyHash = ''dummy'', loginFailures = [],
      usersFile = None, sessionsFile = None\<rparr>" by code_simp
  have c: "createUser_checks '' Ann'' ''longenough'' None demo_auth = Inr (''ann'', None)" by code_simp
  show ?thesis
    by (simp add: setupOwner_def createUser_def c needsSetup_def createUser_commit_def
        createSession_def persistSessions_def persistUsers_def demo_user_def new_user_def)
       (simp add: d toUserInfo_def Let_def)
qed

definition demo_store :: auth_store where
  "demo_store = snd (setupOwner ''u1'' ''hash'' ''t0'' ''s0'' 0 0 (init_roles None) '' Ann'' ''longenough''
     None None demo_auth)"

lemma demo_store_inv: "auth_inv demo_store"
  unfolding demo_store_def demo_auth_def
  by (rule setupOwner_inv [OF init_auth_empty(1)])
     (simp add: init_auth_def migrateRoles_def backfillSessionIds_def pruneExpired_def)

theorem login_grants_a_session_witness:
  "\<exists>(st :: auth_store) u. fst (authenticate 1000 (init_roles None) (Some ''t1'') st) = Some u"
proof -
  let ?v = "\<lambda>p h. p = ''longenough'' \<and> h = ''hash''"
  have "\<exists>u st'. login ?v ''t1'' ''s1'' 0 0 (init_roles None) ''ANN'' ''longenough'' None None demo_store
    = (Inr (''t1'', u), st')"
    unfolding demo_store_def demo_run by (simp add: login_def login_blocked_def demo_user_def new_user_def
      normalizeUsername_def) code_simp
  then obtain u st' where l: "login ?v ''t1'' ''s1'' 0 0 (init_roles None) ''ANN'' ''longenough'' None None
      demo_store = (Inr (''t1'', u), st')" by blast
  have "fst (authenticate 1000 (init_roles None) (Some ''t1'') st') = Some u"
    using login_grants_a_session [OF demo_store_inv _ l, of 1000] by simp
  then show ?thesis by blast
qed

theorem credentials_revoked_witness:
  "\<exists>(st :: auth_store) c. \<forall>t now u.
     fst (authenticate now (init_roles None) t st) = Some u \<longrightarrow> user_id u \<noteq> ''u1''"
proof -
  have "\<exists>st' c. adminSetPassword (Some (\<lambda>i (x :: nat). Suc x)) ''new'' ''u1'' ''longenough2'' (demo_store, 0)
      = (Inr (), st', c)"
    unfolding demo_store_def demo_run by (simp add: adminSetPassword_def deleteSessionsForUser_def)
  then obtain st' c where "adminSetPassword (Some (\<lambda>i (x :: nat). Suc x)) ''new'' ''u1'' ''longenough2''
      (demo_store, 0) = (Inr (), st', c)" by blast
  from credentials_revoked [OF demo_store_inv disjI1 [OF this]] show ?thesis by blast
qed

theorem setup_race_witness:
  "\<exists>us. length (filter is_owner us) = 2 \<and> \<not> distinct (map u_username us)"
proof -
  have n: "needsSetup demo_auth" by code_simp
  have a: "createUser_checks ''ann'' ''longenough'' None demo_auth = Inr (''ann'', None)" by code_simp
  let ?r = "init_roles None"
  let ?s = "owner_commit ?r ''u2'' ''h'' 0 ''ann'' None (owner_commit ?r ''u1'' ''h'' 0 ''ann'' None demo_auth)"
  have "length (filter is_owner (vals (users ?s))) = 2 \<and> \<not> distinct (map u_username (vals (users ?s)))"
    using setup_race [OF n _ a a, of "''u1''" "''u2''"] by blast
  then show ?thesis by (rule exI)
qed

end
