(* ===== verification/Auth_Api.thy ===== *)
theory Auth_Api
  imports Auth
begin

text \<open>
  The account feature's slice of the API (\<open>apps/server/src/features/auth/feature.ts\<close>): the account
  store and the role store behind one set of operations, and what holds between the two. The
  rest of the control plane, which a credential revocation also reaches, is a type parameter.
\<close>

subsection \<open>State, requests and answers\<close>

record 'x plane =
  pl_auth :: auth_store
  pl_roles :: role_store
  pl_rest :: 'x

text \<open>What an operation draws from outside: random values, the clock, the password hash.\<close>

record auth_env =
  ae_uuid :: string
  ae_token :: string
  ae_sessionId :: string
  ae_now :: ms
  ae_later :: ms
  ae_hash :: "string \<Rightarrow> string"
  ae_verify :: "string \<Rightarrow> string \<Rightarrow> bool"

datatype auth_request =
    GetState
  | SetupOwner string string
  | Login string string
  | Logout
  | Me
  | ListUsers
  | CreateUser string string "string list" "string option"
  | DeleteUser uid
  | SetUserRoles uid "string list"
  | GetUserDetail uid
  | RevokeUserSession uid string
  | AdminSetPassword uid string
  | SetUserSystemUser uid "string option"
  | SetUserEmail uid "string option"
  | SetUserPermissions uid "permission list"
  | ListRoles
  | CreateRole string string "permission list"
  | UpdateRole RoleDef
  | ResetRole string
  | DeleteRole string

datatype auth_answer =
    AuthState bool "UserInfo option"
  | SessionOpened string UserInfo
  | User UserInfo
  | Users "UserInfo list"
  | Detail UserDetail
  | RoleList "RoleDef list"
  | Role RoleDef
  | Done

datatype api_error = AuthError auth_error | RoleError role_error | NotSignedIn

text \<open>Running an operation of one store inside the whole.\<close>

definition on_auth :: "('a \<Rightarrow> auth_answer) \<Rightarrow> (auth_error, 'a, auth_store) result \<Rightarrow> 'x plane \<Rightarrow>
    (api_error, auth_answer, 'x plane) result" where
  "on_auth f r w =
     (case r of (Inl e, st) \<Rightarrow> (Inl (AuthError e), w\<lparr>pl_auth := st\<rparr>)
              | (Inr a, st) \<Rightarrow> (Inr (f a), w\<lparr>pl_auth := st\<rparr>))"

definition on_roles :: "('a \<Rightarrow> auth_answer) \<Rightarrow> (role_error, 'a, role_store) result \<Rightarrow> 'x plane \<Rightarrow>
    (api_error, auth_answer, 'x plane) result" where
  "on_roles f r w =
     (case r of (Inl e, st) \<Rightarrow> (Inl (RoleError e), w\<lparr>pl_roles := st\<rparr>)
              | (Inr a, st) \<Rightarrow> (Inr (f a), w\<lparr>pl_roles := st\<rparr>))"

definition on_both :: "(auth_error, unit, auth_store \<times> 'x) result \<Rightarrow> 'x plane \<Rightarrow>
    (api_error, auth_answer, 'x plane) result" where
  "on_both r w =
     (case r of (Inl e, (st, x)) \<Rightarrow> (Inl (AuthError e), w\<lparr>pl_auth := st, pl_rest := x\<rparr>)
              | (Inr _, (st, x)) \<Rightarrow> (Inr Done, w\<lparr>pl_auth := st, pl_rest := x\<rparr>))"

definition caller_id :: "AuthContext \<Rightarrow> uid" where
  "caller_id ctx = (case ctx_user ctx of Some u \<Rightarrow> user_id u | None \<Rightarrow> [])"

subsection \<open>The operations\<close>

text \<open>
  \<open>hook\<close> is the revocation callback that boot registers. \<open>ctx!.user!\<close> is the caller, whom the
  dispatcher has authenticated for every operation that reads it.
\<close>

fun auth_op :: "(uid \<Rightarrow> 'x \<Rightarrow> 'x) option \<Rightarrow> auth_env \<Rightarrow> AuthContext \<Rightarrow> auth_request \<Rightarrow> 'x plane \<Rightarrow>
    (api_error, auth_answer, 'x plane) result" where
  "auth_op hook env ctx GetState w = (Inr (AuthState (needsSetup (pl_auth w)) (ctx_user ctx)), w)"
| "auth_op hook env ctx (SetupOwner name pw) w =
     on_auth (\<lambda>(t, u). SessionOpened t u)
       (setupOwner (ae_uuid env) (ae_hash env pw) (ae_token env) (ae_sessionId env) (ae_now env) (ae_later env)
          (pl_roles w) name pw (ctx_ip ctx) (ctx_userAgent ctx) (pl_auth w)) w"
| "auth_op hook env ctx (Login name pw) w =
     on_auth (\<lambda>(t, u). SessionOpened t u)
       (login (ae_verify env) (ae_token env) (ae_sessionId env) (ae_now env) (ae_later env) (pl_roles w) name pw
          (ctx_ip ctx) (ctx_userAgent ctx) (pl_auth w)) w"
| "auth_op hook env ctx Logout w = (Inr Done, w\<lparr>pl_auth := logout (ctx_token ctx) (pl_auth w)\<rparr>)"
| "auth_op hook env ctx Me w =
     (case ctx_user ctx of None \<Rightarrow> (Inl NotSignedIn, w) | Some u \<Rightarrow> (Inr (User u), w))"
| "auth_op hook env ctx ListUsers w = (Inr (Users (listUsers (pl_roles w) (pl_auth w))), w)"
| "auth_op hook env ctx (CreateUser name pw ids em) w =
     on_auth User
       (addUser (ae_uuid env) (ae_hash env pw) (ae_now env) (pl_roles w) name pw ids em (pl_auth w)) w"
| "auth_op hook env ctx (DeleteUser i) w =
     on_both (deleteUser hook i (caller_id ctx) (pl_auth w, pl_rest w)) w"
| "auth_op hook env ctx (SetUserRoles i ids) w =
     on_auth (\<lambda>_. Done) (setUserRoles (pl_roles w) i ids (pl_auth w)) w"
| "auth_op hook env ctx (GetUserDetail i) w =
     (case getUserDetail (pl_roles w) i (ctx_token ctx) (pl_auth w) of
        Inl e \<Rightarrow> (Inl (AuthError e), w) | Inr d \<Rightarrow> (Inr (Detail d), w))"
| "auth_op hook env ctx (RevokeUserSession i sid) w =
     on_auth (\<lambda>_. Done) (revokeSession i sid (ctx_token ctx) (pl_auth w)) w"
| "auth_op hook env ctx (AdminSetPassword i pw) w =
     on_both (adminSetPassword hook (ae_hash env pw) i pw (pl_auth w, pl_rest w)) w"
| "auth_op hook env ctx (SetUserSystemUser i su) w =
     on_auth (\<lambda>_. Done) (setSystemUser i su (pl_auth w)) w"
| "auth_op hook env ctx (SetUserEmail i em) w = on_auth (\<lambda>_. Done) (setEmail i em (pl_auth w)) w"
| "auth_op hook env ctx (SetUserPermissions i ps) w =
     on_auth (\<lambda>_. Done) (setPermissions i ps (pl_auth w)) w"
| "auth_op hook env ctx ListRoles w = (Inr (RoleList (list_roles (pl_roles w))), w)"
| "auth_op hook env ctx (CreateRole name descr ps) w =
     on_roles Role (create_role (ae_uuid env) name descr ps (pl_roles w)) w"
| "auth_op hook env ctx (UpdateRole role) w = on_roles (\<lambda>_. Done) (update_role role (pl_roles w)) w"
| "auth_op hook env ctx (ResetRole i) w = on_roles Role (resetToSeed i (pl_roles w)) w"
| "auth_op hook env ctx (DeleteRole i) w =
     on_roles (\<lambda>_. Done) (delete_role i (countRoleHolders i (pl_auth w)) (pl_roles w)) w"

subsection \<open>No account refers to a role that is gone\<close>

text \<open>
  A step is one operation run to its end, or the dispatcher authenticating a call. Random ids are
  fresh for the store they enter.
\<close>

inductive plane_step :: "(uid \<Rightarrow> 'x \<Rightarrow> 'x) option \<Rightarrow> 'x plane \<Rightarrow> 'x plane \<Rightarrow> bool" for hook where
  op: "look (users (pl_auth w)) (ae_uuid env) = None \<Longrightarrow> look (rs_roles (pl_roles w)) (ae_uuid env) = None \<Longrightarrow>
     plane_step hook w (snd (auth_op hook env ctx req w))"
| call: "plane_step hook w (w\<lparr>pl_auth := snd (authenticate now (pl_roles w) t (pl_auth w))\<rparr>)"

definition held_roles :: "UserRecord \<Rightarrow> string set" where
  "held_roles r = set (case u_roleIds r of None \<Rightarrow> [] | Some ids \<Rightarrow> ids)"

definition refs_ok :: "'x plane \<Rightarrow> bool" where
  "refs_ok w \<longleftrightarrow> (\<forall>(i, r) \<in> set (users (pl_auth w)). held_roles r \<subseteq> set (keys (rs_roles (pl_roles w))))"

definition fresh_plane :: "string \<Rightarrow> (nat \<Rightarrow> string) \<Rightarrow> ms \<Rightarrow> 'x \<Rightarrow> 'x plane" where
  "fresh_plane dummy uuid now x =
     \<lparr>pl_auth = init_auth None None dummy uuid now, pl_roles = init_roles None, pl_rest = x\<rparr>"

text \<open>Both stores keep their own invariants under the combined steps.\<close>

lemma deleteUser_auth:
  "snd (deleteUser hook i c (st, x)) = (st', x') \<Longrightarrow> st' = fst (snd (deleteUser None i c (st, ())))"
  by (auto simp: deleteUser_def deleteSessionsForUser_def split: option.splits if_splits)

lemma adminSetPassword_auth:
  "snd (adminSetPassword hook h i pw (st, x)) = (st', x') \<Longrightarrow>
   st' = fst (snd (adminSetPassword None h i pw (st, ())))"
  by (auto simp: adminSetPassword_def deleteSessionsForUser_def split: option.splits if_splits)

lemma on_auth_simps [simp]:
  "pl_auth (snd (on_auth f r w)) = snd r" "pl_roles (snd (on_auth f r w)) = pl_roles w"
  by (auto simp: on_auth_def split: prod.splits sum.splits)

lemma on_roles_simps [simp]:
  "pl_auth (snd (on_roles f r w)) = pl_auth w" "pl_roles (snd (on_roles f r w)) = snd r"
  by (auto simp: on_roles_def split: prod.splits sum.splits)

lemma on_both_simps [simp]:
  "pl_auth (snd (on_both r w)) = fst (snd r)" "pl_roles (snd (on_both r w)) = pl_roles w"
  by (auto simp: on_both_def split: prod.splits sum.splits)

text \<open>An account that an operation of the account store leaves behind: an old one, or one with known roles.\<close>

lemma known_loop_known: "known_loop rst out ids = Inr qs \<Longrightarrow> set out \<subseteq> set (keys (rs_roles rst)) \<Longrightarrow>
    set qs \<subseteq> set (keys (rs_roles rst))"
proof (induction rst out ids rule: known_loop.induct)
  case (2 rst out i ids)
  then have i: "look (rs_roles rst) i \<noteq> None" by (auto simp: get_role_def split: if_splits)
  then have "i \<in> set (keys (rs_roles rst))" by (simp add: map_of_eq_None_iff)
  with 2 i show ?case by (auto simp: get_role_def split: if_splits)
qed simp

lemma knownRoleIds_known: "knownRoleIds rst ids = Inr qs \<Longrightarrow> set qs \<subseteq> set (keys (rs_roles rst))"
  using known_loop_known [of rst "[]" ids qs] by (simp add: knownRoleIds_def)

definition roles_within :: "string set \<Rightarrow> (uid, UserRecord) jsmap \<Rightarrow> bool" where
  "roles_within R us \<longleftrightarrow> (\<forall>(i, r) \<in> set us. held_roles r \<subseteq> R)"

lemma roles_within_put: "roles_within R us \<Longrightarrow> held_roles r \<subseteq> R \<Longrightarrow> roles_within R (put i r us)"
proof -
  assume h: "roles_within R us" "held_roles r \<subseteq> R"
  have "set (put i r us) \<subseteq> insert (i, r) (set us)" by (induction us) auto
  with h show ?thesis by (auto simp: roles_within_def)
qed

lemma roles_within_del: "roles_within R us \<Longrightarrow> roles_within R (del i us)"
  by (auto simp: roles_within_def set_del)

lemma roles_within_update:
  "roles_within R (users st) \<Longrightarrow> (\<And>r. held_roles r \<subseteq> R \<Longrightarrow> held_roles (f r) \<subseteq> R) \<Longrightarrow>
   roles_within R (users (update_user i f st))"
proof (cases "look (users st) i")
  case (Some r)
  assume h: "roles_within R (users st)" "\<And>r. held_roles r \<subseteq> R \<Longrightarrow> held_roles (f r) \<subseteq> R"
  from Some have "held_roles r \<subseteq> R" using h(1) map_of_SomeD [OF Some] by (auto simp: roles_within_def)
  with Some h show ?thesis by (simp add: update_user_def roles_within_put persistUsers_def)
qed (simp add: update_user_def)

lemma roles_within_create:
  "roles_within R (users st) \<Longrightarrow> set ids \<subseteq> R \<Longrightarrow>
   roles_within R (users (snd (createUser uuid h now rst n pw ids ow em st)))"
  by (auto simp: createUser_def createUser_commit_def persistUsers_def new_user_def held_roles_def Let_def
      intro!: roles_within_put split: sum.splits prod.splits)

named_theorems keeps_roles \<open>operations that leave no account with an unknown role\<close>

lemma within_setup [keeps_roles]:
  "roles_within R (users st) \<Longrightarrow>
   roles_within R (users (snd (setupOwner uuid h t sid now now' rst n pw ip ua st)))"
  using roles_within_create [of R st "[]" uuid h now rst n pw True None]
  by (auto simp: setupOwner_def split: prod.splits sum.splits)

lemma within_login [keeps_roles]:
  "roles_within R (users st) \<Longrightarrow>
   roles_within R (users (snd (login vf t sid now now' rst n pw ip ua st)))"
  by simp

lemma within_addUser [keeps_roles]:
  "roles_within (set (keys (rs_roles rst))) (users st) \<Longrightarrow>
   roles_within (set (keys (rs_roles rst))) (users (snd (addUser uuid h now rst n pw ids em st)))"
  by (auto simp: addUser_def intro!: roles_within_create dest!: knownRoleIds_known split: sum.splits)

lemma within_setRoles [keeps_roles]:
  "roles_within (set (keys (rs_roles rst))) (users st) \<Longrightarrow>
   roles_within (set (keys (rs_roles rst))) (users (snd (setUserRoles rst i ids st)))"
  by (auto simp: setUserRoles_def held_roles_def intro!: roles_within_update dest!: knownRoleIds_known
      split: sum.splits option.splits)

lemma within_fields [keeps_roles]:
  "roles_within R (users st) \<Longrightarrow> roles_within R (users (snd (setPermissions i ps st)))"
  "roles_within R (users st) \<Longrightarrow> roles_within R (users (snd (setSystemUser i su st)))"
  "roles_within R (users st) \<Longrightarrow> roles_within R (users (snd (setEmail i em st)))"
  by (auto simp: setPermissions_def setSystemUser_def setEmail_def held_roles_def Let_def
      intro!: roles_within_update split: sum.splits option.splits)

lemma within_sessions [keeps_roles]:
  "roles_within R (users st) \<Longrightarrow> roles_within R (users (logout t st))"
  "roles_within R (users st) \<Longrightarrow> roles_within R (users (snd (revokeSession i sid t st)))"
  "roles_within R (users st) \<Longrightarrow> roles_within R (users (snd (authenticate now rst t st)))"
  by (auto simp: logout_def revokeSession_def authenticate_def persistSessions_def
      split: option.splits prod.splits)

lemma within_admin [keeps_roles]:
  "roles_within R (users st) \<Longrightarrow> roles_within R (users (fst (snd (deleteUser hook i c (st, x)))))"
  "roles_within R (users st) \<Longrightarrow> roles_within R (users (fst (snd (adminSetPassword hook h i pw (st, x)))))"
proof -
  assume w: "roles_within R (users st)"
  then show "roles_within R (users (fst (snd (deleteUser hook i c (st, x)))))"
    by (auto simp: deleteUser_def deleteSessionsForUser_def persistUsers_def persistSessions_def
        intro!: roles_within_del split: option.splits)
  have "roles_within R (users (update_user i (\<lambda>r. r\<lparr>u_passwordHash := h\<rparr>) st))"
    using w by (rule roles_within_update) (simp add: held_roles_def)
  with w show "roles_within R (users (fst (snd (adminSetPassword hook h i pw (st, x)))))"
    by (auto simp: adminSetPassword_def deleteSessionsForUser_def persistSessions_def split: option.splits)
qed

text \<open>The role operations keep every id, but for a deletion of a role that nobody holds.\<close>

lemma roles_grow:
  "set (keys (rs_roles rst)) \<subseteq> set (keys (rs_roles (snd (create_role uuid n d ps rst))))"
  "set (keys (rs_roles rst)) \<subseteq> set (keys (rs_roles (snd (update_role role rst))))"
  "set (keys (rs_roles rst)) \<subseteq> set (keys (rs_roles (snd (resetToSeed i rst))))"
  by (simp_all add: create_role_def update_role_def resetToSeed_def Let_def subset_insertI keys_put
      split: sum.split option.split)

lemma roles_within_mono: "roles_within R us \<Longrightarrow> R \<subseteq> S \<Longrightarrow> roles_within S us"
  by (fastforce simp: roles_within_def)

lemma within_delete_role:
  assumes "roles_within (set (keys (rs_roles rst))) (users st)"
  shows "roles_within (set (keys (rs_roles (snd (delete_role i (countRoleHolders i st) rst))))) (users st)"
proof (cases "look (rs_roles rst) i = None \<or> countRoleHolders i st > 0")
  case True
  with assms show ?thesis by (auto simp: delete_role_def split: option.splits)
next
  case False
  then have "i \<notin> held_roles r" if "(k, r) \<in> set (users st)" for k r
    using that by (force simp: countRoleHolders_def held_roles_def filter_empty_conv split: option.splits)
  moreover have "rs_roles (snd (delete_role i (countRoleHolders i st) rst)) = del i (rs_roles rst)"
    using False by (auto simp: delete_role_def)
  ultimately show ?thesis using assms by (fastforce simp: roles_within_def keys_del)
qed

lemma refs_within: "refs_ok w \<longleftrightarrow> roles_within (set (keys (rs_roles (pl_roles w)))) (users (pl_auth w))"
  by (simp add: refs_ok_def roles_within_def)

lemma refs_auth_op:
  assumes "refs_ok w"
  shows "refs_ok (snd (auth_op hook env ctx req w))"
proof -
  note w = assms [unfolded refs_within]
  note grown = roles_within_mono [OF w roles_grow(1)] roles_within_mono [OF w roles_grow(2)]
    roles_within_mono [OF w roles_grow(3)]
  show ?thesis
    unfolding refs_within
    by (cases req)
       (simp_all add: w keeps_roles [OF w] within_delete_role [OF w] grown del: set_map
          split: option.split sum.split)
qed

lemma refs_step: "plane_step hook w w' \<Longrightarrow> refs_ok w \<Longrightarrow> refs_ok w'"
proof (induction rule: plane_step.induct)
  case (call w now t)
  then show ?case by (simp add: refs_within within_sessions del: set_map)
qed (rule refs_auth_op)

interpretation role_references: invariant_store refs_ok "plane_step hook"
  by unfold_locales (rule refs_step)

lemma refs_fresh: "refs_ok (fresh_plane dummy uuid now x)"
  by (simp add: refs_ok_def fresh_plane_def init_auth_def pruneExpired_def backfillSessionIds_def migrateRoles_def
      read_file_def persistUsers_def persistSessions_def)

lemma refs_named: "refs_ok w \<Longrightarrow> look (users (pl_auth w)) i = Some r \<Longrightarrow> q \<in> held_roles r \<Longrightarrow>
    \<exists>d. look (rs_roles (pl_roles w)) q = Some d"
proof -
  assume h: "refs_ok w" "look (users (pl_auth w)) i = Some r" "q \<in> held_roles r"
  then have "q \<in> set (keys (rs_roles (pl_roles w)))"
    using map_of_SomeD [OF h(2)] by (fastforce simp: refs_ok_def)
  then show ?thesis by (metis map_of_eq_None_iff not_None_eq set_map)
qed

lemma holder_counted: "look (users st) i = Some r \<Longrightarrow> q \<in> held_roles r \<Longrightarrow> countRoleHolders q st > 0"
  by (force simp: countRoleHolders_def held_roles_def filter_empty_conv dest!: map_of_SomeD
      split: option.splits)


definition demo_env :: "string \<Rightarrow> auth_env" where
  "demo_env u = \<lparr>ae_uuid = u, ae_token = ''t'', ae_sessionId = ''s'', ae_now = 1, ae_later = 2,
     ae_hash = (\<lambda>p. ''h'' @ p), ae_verify = (\<lambda>p h. h = ''h'' @ p)\<rparr>"

definition demo_ctx :: AuthContext where
  "demo_ctx = \<lparr>ctx_token = None, ctx_user = None, ctx_ip = None, ctx_userAgent = None\<rparr>"


end
