(* ===== verification/Client_Ip.thy ===== *)
theory Client_Ip
  imports Js_Text "HOL-Library.Word"
begin

unbundle bit_operations_syntax

text \<open>
  Which address a request is attributed to (\<open>apps/server/src/client-ip.ts\<close>): the parser and the
  printer of IPv4 and IPv6 addresses, the trusted-proxy list, and the walk over a forwarded
  header. An address is its bytes, 4 or 16 of them; the login throttle and the session records
  of the accounts are keyed by the printed form.
\<close>

type_synonym ip_bytes = "8 word list"

subsection \<open>Parsing addresses\<close>

text \<open>The four decimal parts of an IPv4 address.\<close>

definition octet :: "string \<Rightarrow> 8 word option" where
  "octet part =
     (if part = [] \<or> length part > 3 \<or> \<not> list_all is_digit part then None
      else let n = of_radix 10 part in if n > 255 then None else Some (of_nat n))"

definition parseIpv4 :: "string \<Rightarrow> ip_bytes option" where
  "parseIpv4 value =
     (let parts = split_on (CHR ''.'') value
      in if length parts \<noteq> 4 then None else those (map octet parts))"

definition hex_group :: "string \<Rightarrow> nat option" where
  "hex_group g =
     (if g = [] \<or> length g > 4 \<or> \<not> list_all (is_digit_of 16) g then None else Some (of_radix 16 g))"

definition group_bytes :: "nat \<Rightarrow> ip_bytes" where
  "group_bytes g = [of_nat (g div 256), of_nat (g mod 256)]"

definition half_groups :: "string \<Rightarrow> nat list option" where
  "half_groups half = (if half = [] then Some [] else those (map hex_group (split_on (CHR '':'') half)))"

definition parseIpv6 :: "string \<Rightarrow> ip_bytes option" where
  "parseIpv6 value =
     (case split_str ''::'' value of
        [h] \<Rightarrow> (case half_groups h of
                  Some gs \<Rightarrow> if length gs = 8 then Some (concat (map group_bytes gs)) else None
                | None \<Rightarrow> None)
      | [h, t] \<Rightarrow> (case (half_groups h, half_groups t) of
                  (Some gs, Some ts) \<Rightarrow>
                    if length gs + length ts < 8
                    then Some (concat (map group_bytes (gs @ replicate (8 - length gs - length ts) 0 @ ts)))
                    else None
                | _ \<Rightarrow> None)
      | _ \<Rightarrow> None)"

text \<open>\<open>/^::ffff:(\d+\.\d+\.\d+\.\d+)$/i\<close>: an IPv4 address in IPv6 clothes.\<close>

definition mapped_v4 :: "string \<Rightarrow> string option" where
  "mapped_v4 value =
     (let r = drop 7 value; parts = split_on (CHR ''.'') r
      in if map js_lower_char (take 7 value) = ''::ffff:'' \<and> length parts = 4
            \<and> list_all (\<lambda>p. p \<noteq> [] \<and> list_all is_digit p) parts then Some r else None)"

definition parseIp :: "string \<Rightarrow> ip_bytes option" where
  "parseIp text =
     (let value = strip_ends (CHR ''['') (CHR '']'') (js_trim text)
      in if value = [] then None
         else if CHR '':'' \<in> set value then
           (case mapped_v4 value of Some q \<Rightarrow> parseIpv4 q | None \<Rightarrow> parseIpv6 value)
         else parseIpv4 value)"

subsection \<open>Trusted proxies\<close>

datatype TrustedProxyEntry = PlainEntry string | HeaderEntry string "string option"

record Cidr =
  ci_bytes :: ip_bytes
  ci_bits :: nat
  ci_header :: "string option"

definition parseCidr :: "string \<Rightarrow> Cidr option" where
  "parseCidr entry =
     (let slash = break_last (CHR ''/'') entry;
          address = (case slash of None \<Rightarrow> entry | Some (a, _) \<Rightarrow> a)
      in case parseIp address of
           None \<Rightarrow> None
         | Some bs \<Rightarrow>
             (case slash of
                None \<Rightarrow> Some \<lparr>ci_bytes = bs, ci_bits = length bs * 8, ci_header = None\<rparr>
              | Some (_, r) \<Rightarrow>
                  (case js_Number r of
                     None \<Rightarrow> None
                   | Some bits \<Rightarrow>
                       if bits < 0 \<or> bits > int (length bs * 8) then None
                       else Some \<lparr>ci_bytes = bs, ci_bits = nat bits, ci_header = None\<rparr>)))"

fun entry_address :: "TrustedProxyEntry \<Rightarrow> string" where
  "entry_address (PlainEntry a) = a"
| "entry_address (HeaderEntry a _) = a"

fun entry_header :: "TrustedProxyEntry \<Rightarrow> string option" where
  "entry_header (PlainEntry _) = None"
| "entry_header (HeaderEntry _ h) = map_option (\<lambda>x. js_lower (js_trim x)) h"

definition parseTrustedProxies :: "TrustedProxyEntry list \<Rightarrow> Cidr list" where
  "parseTrustedProxies entries =
     concat (map (\<lambda>e. case parseCidr (entry_address e) of
        None \<Rightarrow> []
      | Some c \<Rightarrow> (case entry_header e of
            None \<Rightarrow> [c] | Some h \<Rightarrow> if h = [] then [c] else [c\<lparr>ci_header := Some h\<rparr>])) entries)"

text \<open>The \<open>SC_TRUSTED_PROXIES\<close> form: entries between commas, each with an optional header.\<close>

definition parseTrustedProxiesEnv :: "string \<Rightarrow> TrustedProxyEntry list" where
  "parseTrustedProxiesEnv value =
     concat (map (\<lambda>raw.
        let entry = js_trim raw
        in if entry = [] then []
           else case break_first (CHR ''='') entry of
                  None \<Rightarrow> [PlainEntry entry]
                | Some (a, h) \<Rightarrow> [HeaderEntry (js_trim a) (Some (js_trim h))])
      (split_on (CHR '','') value))"

definition inCidr :: "ip_bytes \<Rightarrow> Cidr \<Rightarrow> bool" where
  "inCidr ip c \<longleftrightarrow>
     (if length ip \<noteq> length (ci_bytes c) then False
      else let whole = ci_bits c div 8; rest = ci_bits c mod 8
           in if list_ex (\<lambda>i. ip ! i \<noteq> ci_bytes c ! i) [0..<whole] then False
              else if rest = 0 then True
              else let mask = push_bit (8 - rest) 0xff
                   in (ip ! whole) AND mask = (ci_bytes c ! whole) AND mask)"

definition matchTrusted :: "ip_bytes option \<Rightarrow> Cidr list \<Rightarrow> Cidr option" where
  "matchTrusted ip trusted = (case ip of None \<Rightarrow> None | Some b \<Rightarrow> find (inCidr b) trusted)"

definition isTrusted :: "ip_bytes option \<Rightarrow> Cidr list \<Rightarrow> bool" where
  "isTrusted ip trusted \<longleftrightarrow> matchTrusted ip trusted \<noteq> None"

definition present :: "string option \<Rightarrow> string option" where
  "present s = (case s of None \<Rightarrow> None | Some t \<Rightarrow> if t = [] then None else Some t)"

definition peer_bytes :: "string option \<Rightarrow> ip_bytes option" where
  "peer_bytes peer = (case present peer of None \<Rightarrow> None | Some p \<Rightarrow> parseIp p)"

definition headerForPeer :: "string option \<Rightarrow> Cidr list \<Rightarrow> string \<Rightarrow> string" where
  "headerForPeer peer trusted fallback =
     (case matchTrusted (peer_bytes peer) trusted of
        None \<Rightarrow> fallback
      | Some c \<Rightarrow> (case ci_header c of None \<Rightarrow> fallback | Some h \<Rightarrow> h))"

subsection \<open>Printing addresses\<close>

fun groups_of :: "ip_bytes \<Rightarrow> nat list" where
  "groups_of (a # b # bs) = (unat a * 256 + unat b) # groups_of bs"
| "groups_of _ = []"

text \<open>
  The scan for the longest run of zero groups, the earliest on a tie: \<open>zero_run\<close> is the inner
  \<open>while\<close>, and the outer loop goes on behind the run it measured.
\<close>

fun zero_run :: "nat list \<Rightarrow> nat" where
  "zero_run (g # gs) = (if g = 0 then Suc (zero_run gs) else 0)"
| "zero_run [] = 0"

function best_run :: "nat list \<Rightarrow> nat \<Rightarrow> nat \<times> nat \<Rightarrow> nat \<times> nat" where
  "best_run gs i best =
     (if i \<ge> length gs then best
      else if gs ! i \<noteq> 0 then best_run gs (i + 1) best
      else let n = zero_run (drop i gs)
           in best_run gs (i + n) (if n > snd best then (i, n) else best))"
  by pat_completeness auto
termination
proof (relation "measure (\<lambda>(gs, i, _). length gs - i)")
  fix gs :: "nat list" and i n :: nat and best :: "nat \<times> nat"
  assume "\<not> length gs \<le> i" "\<not> gs ! i \<noteq> 0" "n = zero_run (drop i gs)"
  then show "((gs, i + n, if snd best < n then (i, n) else best), gs, i, best)
      \<in> measure (\<lambda>(gs, i, _). length gs - i)"
    by (simp add: Cons_nth_drop_Suc [symmetric])
qed auto

definition format :: "ip_bytes \<Rightarrow> string" where
  "format bs =
     (if length bs = 4 then join ''.'' (map (\<lambda>b. to_radix 10 (unat b)) bs)
      else let gs = groups_of bs; (start, len) = best_run gs 0 (0, 0); hex = map (to_radix 16) gs
           in if len < 2 then join '':'' hex
              else join '':'' (take start hex) @ ''::'' @ join '':'' (drop (start + len) hex))"

subsection \<open>The forwarded chain\<close>

definition DEFAULT_FORWARDED_HEADER :: string where
  "DEFAULT_FORWARDED_HEADER = ''x-forwarded-for''"

definition stripPort :: "string \<Rightarrow> string" where
  "stripPort value =
     (let trimmed = js_trim value;
          bracketed = (case trimmed of
             CHR ''['' # r \<Rightarrow>
               (case break_first (CHR '']'') r of
                  Some (a, p) \<Rightarrow>
                    if a \<noteq> [] \<and> (p = [] \<or> (hd p = CHR '':'' \<and> tl p \<noteq> [] \<and> list_all is_digit (tl p)))
                    then Some a else None
                | None \<Rightarrow> None)
           | _ \<Rightarrow> None)
      in case bracketed of
           Some a \<Rightarrow> a
         | None \<Rightarrow>
             (case split_on (CHR '':'') trimmed of
                [a, p] \<Rightarrow> if p \<noteq> [] \<and> list_all is_digit p then a else trimmed
              | _ \<Rightarrow> trimmed))"

definition forwarded_for :: "string \<Rightarrow> string list" where
  "forwarded_for element =
     concat (map (\<lambda>param.
        case break_first (CHR ''='') param of
          None \<Rightarrow> []
        | Some (k, v) \<Rightarrow>
            if js_lower (js_trim k) \<noteq> ''for'' then []
            else [stripPort (strip_ends (CHR 0x22) (CHR 0x22) (js_trim v))])
      (split_on (CHR '';'') element))"

definition parseForwardedChain :: "string \<Rightarrow> string \<Rightarrow> string list" where
  "parseForwardedChain headerName value =
     (if js_lower (js_trim headerName) \<noteq> ''forwarded'' then map stripPort (split_on (CHR '','') value)
      else concat (map forwarded_for (split_on (CHR '','') value)))"

text \<open>The walk from the right end of the chain; \<open>None\<close> when the loop runs off its left end.\<close>

fun walk_back :: "Cidr list \<Rightarrow> string list \<Rightarrow> string option" where
  "walk_back trusted [] = None"
| "walk_back trusted (x # xs) =
     (case parseIp x of
        None \<Rightarrow> walk_back trusted xs
      | Some bs \<Rightarrow> if isTrusted (Some bs) trusted then walk_back trusted xs else Some (format bs))"

definition peer_text :: "string option \<Rightarrow> string option" where
  "peer_text peer = (case peer_bytes peer of Some bs \<Rightarrow> Some (format bs) | None \<Rightarrow> peer)"

definition resolveClientIp :: "string option \<Rightarrow> string option \<Rightarrow> Cidr list \<Rightarrow> string \<Rightarrow> string option" where
  "resolveClientIp peer forwardedValue trusted headerName =
     (if trusted = [] \<or> present forwardedValue = None \<or> \<not> isTrusted (peer_bytes peer) trusted
      then peer_text peer
      else case walk_back trusted (rev (parseForwardedChain headerName (the (present forwardedValue)))) of
             Some a \<Rightarrow> Some a
           | None \<Rightarrow> peer_text peer)"

subsection \<open>Printed addresses read back\<close>

text \<open>The characters an address is written with: no blank and no bracket among them.\<close>

definition addr_char :: "char \<Rightarrow> bool" where
  "addr_char c \<longleftrightarrow> is_digit_of 16 c \<or> c = CHR ''.'' \<or> c = CHR '':''"

lemma addr_char_plain: "addr_char c \<Longrightarrow> \<not> js_ws c \<and> c \<noteq> CHR ''['' \<and> c \<noteq> CHR '']''"
  by (auto simp: addr_char_def js_ws_def is_digit_of_def digit_val_def)

lemma set_join: "set (join sep xs) \<subseteq> set sep \<union> \<Union> (set ` set xs)"
  by (induction sep xs rule: join.induct) auto

lemma parseIp_clean:
  assumes "s \<noteq> []" "\<And>c. c \<in> set s \<Longrightarrow> addr_char c"
  shows "strip_ends (CHR ''['') (CHR '']'') (js_trim s) = s"
proof -
  have "addr_char (hd s)" "addr_char (last s)" using assms by simp_all
  then have "js_trim s = s" using assms(1) by (intro js_trim_id) (auto dest: addr_char_plain)
  then show ?thesis
    using assms(1) \<open>addr_char (hd s)\<close> \<open>addr_char (last s)\<close>
    by (auto intro!: strip_ends_id dest: addr_char_plain)
qed

lemma byte_less: "unat (b :: 8 word) < 256"
  using unsigned_less [of b] by simp

lemma octet_to_radix: "octet (to_radix 10 (unat b)) = Some (b :: 8 word)"
proof -
  have b: "unat b < 256" by (rule byte_less)
  then have "unat b < 10 ^ 3" using b by simp
  then have "length (to_radix 10 (unat b)) \<le> 3" by (intro length_to_radix) simp_all
  moreover have "list_all is_digit (to_radix 10 (unat b))"
    using to_radix_digits [of 10 "unat b"] by (simp add: is_digit_iff [abs_def])
  ultimately show ?thesis using b by (simp add: octet_def of_radix_to_radix Let_def)
qed

lemma hex_group_to_radix: "g < 65536 \<Longrightarrow> hex_group (to_radix 16 g) = Some g"
  using length_to_radix [of 16 g 4] to_radix_digits [of 16 g]
  by (simp add: hex_group_def of_radix_to_radix)

lemma those_map_Some: "(\<And>x. x \<in> set xs \<Longrightarrow> f x = Some (g x)) \<Longrightarrow> those (map f xs) = Some (map g xs)"
  by (induction xs) auto

lemma in_to_radix: "2 \<le> b \<Longrightarrow> b \<le> 16 \<Longrightarrow> c \<in> set (to_radix b n) \<Longrightarrow> is_digit_of 16 c"
  using to_radix_digits [of b n] by (auto simp: list_all_iff intro: is_digit_of_mono)

lemma sep_not_hex [simp]: "\<not> is_digit_of 16 (CHR '':'')" "\<not> is_digit_of 16 (CHR ''.'')"
  by (simp_all add: is_digit_of_def digit_val_def)

lemma format_v4:
  assumes "length bs = 4"
  shows "split_on (CHR ''.'') (format bs) = map (\<lambda>b. to_radix 10 (unat b)) bs \<and> parseIpv4 (format bs) = Some bs
    \<and> (\<forall>c \<in> set (format bs). is_digit_of 10 c \<or> c = CHR ''.'') \<and> format bs \<noteq> []"
proof -
  let ?parts = "map (\<lambda>b. to_radix 10 (unat b)) bs"
  have f: "format bs = join ''.'' ?parts" using assms by (simp add: format_def)
  have dig: "is_digit_of 10 c" if "c \<in> set (to_radix 10 n)" for c n
    using that to_radix_digits [of 10 n] by (auto simp: list_all_iff)
  have ch: "is_digit_of 10 c \<or> c = CHR ''.''" if "c \<in> set (format bs)" for c
  proof -
    from that have "c = CHR ''.'' \<or> (\<exists>b \<in> set bs. c \<in> set (to_radix 10 (unat b)))"
      unfolding f using set_join [of "''.''" ?parts] by auto
    then show ?thesis using dig by auto
  qed
  have split: "split_on (CHR ''.'') (format bs) = ?parts"
    unfolding f using assms in_to_radix [of 10 "CHR ''.''"] by (intro split_on_join) auto
  have "those (map octet ?parts) = Some bs"
    using those_map_Some [of bs "\<lambda>b. octet (to_radix 10 (unat b))" "\<lambda>b. b"]
    by (simp add: octet_to_radix comp_def)
  then have "parseIpv4 (format bs) = Some bs" using assms by (simp add: parseIpv4_def split)
  then show ?thesis using split ch arg_cong [OF split, of length] assms by auto
qed

lemma parseIp_format_v4:
  assumes "length bs = 4"
  shows "parseIp (format bs) = Some bs \<and> parseIp (''::ffff:'' @ format bs) = Some bs"
proof -
  note v4 = format_v4 [OF assms]
  have chars: "addr_char c \<and> c \<noteq> CHR '':''" if "c \<in> set (format bs)" for c
    using v4 that is_digit_of_mono [of 10 c 16] sep_not_hex(1) by (force simp: addr_char_def)
  have hex: "addr_char (CHR ''f'')" "addr_char (CHR '':'')"
    by (simp_all add: addr_char_def is_digit_of_def digit_val_def)
  have "strip_ends (CHR ''['') (CHR '']'') (js_trim (format bs)) = format bs"
    using chars v4 by (intro parseIp_clean) auto
  moreover have "CHR '':'' \<notin> set (format bs)" using chars by blast
  ultimately have "parseIp (format bs) = Some bs" using v4 by (simp add: parseIp_def Let_def)
  moreover have "strip_ends (CHR ''['') (CHR '']'') (js_trim (''::ffff:'' @ format bs)) = ''::ffff:'' @ format bs"
    using chars hex by (intro parseIp_clean) auto
  moreover have "mapped_v4 (''::ffff:'' @ format bs) = Some (format bs)"
    using v4 assms to_radix_digits [of 10]
    by (simp add: mapped_v4_def js_lower_char_def list_all_length is_digit_iff)
  ultimately show ?thesis using v4 by (simp add: parseIp_def)
qed

text \<open>Double colons in a text: none in joined groups, exactly one where a run was left out.\<close>

definition single_colons :: "string \<Rightarrow> bool" where
  "single_colons s \<longleftrightarrow> successively (\<lambda>x y. \<not> (x = CHR '':'' \<and> y = CHR '':'')) s"

lemma split_str_none: "single_colons s \<Longrightarrow> split_str ''::'' s = [s]"
proof (induction s)
  case (Cons x xs)
  then have "\<not> prefix ''::'' (x # xs)" "single_colons xs"
    by (cases xs; auto simp: single_colons_def successively_Cons)+
  with Cons.IH show ?case by simp
qed simp

lemma split_str_one:
  "single_colons a \<Longrightarrow> a = [] \<or> last a \<noteq> CHR '':'' \<Longrightarrow>
   split_str ''::'' (a @ ''::'' @ b) = a # split_str ''::'' b"
proof (induction a)
  case (Cons x xs)
  have "\<not> prefix ''::'' ((x # xs) @ ''::'' @ b)"
    using Cons.prems by (cases xs) (auto simp: single_colons_def)
  moreover have "split_str ''::'' (xs @ ''::'' @ b) = xs # split_str ''::'' b"
    using Cons by (cases xs) (auto simp: single_colons_def successively_Cons)
  ultimately show ?case by simp
qed simp

lemma successively_free: "CHR '':'' \<notin> set s \<Longrightarrow> single_colons s"
  unfolding single_colons_def by (induction s) (auto simp: successively_Cons)

lemma join_groups:
  assumes "\<forall>w \<in> set ws. w \<noteq> [] \<and> CHR '':'' \<notin> set w"
  shows "single_colons (join '':'' ws) \<and> (join '':'' ws = [] \<or> last (join '':'' ws) \<noteq> CHR '':'')
    \<and> (join '':'' ws = [] \<or> hd (join '':'' ws) \<noteq> CHR '':'') \<and> (join '':'' ws = [] \<longleftrightarrow> ws = [])"
  using assms
proof (induction "'':''" ws rule: join.induct)
  case (2 x)
  then have "last x \<in> set x" "hd x \<in> set x" "CHR '':'' \<notin> set x" by auto
  then have "last x \<noteq> CHR '':''" "hd x \<noteq> CHR '':''" by metis+
  with 2 show ?case using successively_free [of x] by simp
next
  case (3 x y zs)
  then have x: "last x \<in> set x" "hd x \<in> set x" "CHR '':'' \<notin> set x" "x \<noteq> []" by auto
  then have "single_colons x" "last x \<noteq> CHR '':''" "hd x \<noteq> CHR '':''"
    using successively_free [of x] by (simp, metis+)
  with 3 x(4) show ?case by (auto simp: single_colons_def successively_append_iff successively_Cons)
qed (simp add: single_colons_def)

lemma half_groups_join: "\<forall>g \<in> set gs. g < 65536 \<Longrightarrow> half_groups (join '':'' (map (to_radix 16) gs)) = Some gs"
proof (cases gs)
  case (Cons g gs')
  assume small: "\<forall>g \<in> set gs. g < 65536"
  let ?ws = "map (to_radix 16) gs"
  have colon: "\<forall>w \<in> set ?ws. w \<noteq> [] \<and> CHR '':'' \<notin> set w"
    using in_to_radix [of 16 "CHR '':''"] by auto
  then have "split_on (CHR '':'') (join '':'' ?ws) = ?ws"
    using Cons by (intro split_on_join) auto
  moreover have "those (map hex_group ?ws) = Some gs"
    using small by (simp add: hex_group_to_radix those_map_Some [where g = id] comp_def)
  moreover have "join '':'' ?ws \<noteq> []" using join_groups [OF colon] Cons by auto
  ultimately show ?thesis by (simp add: half_groups_def)
qed (simp add: half_groups_def)

text \<open>The run that the scan reports is a run of zero groups.\<close>

lemma zero_run_zero: "k < zero_run gs \<Longrightarrow> k < length gs \<and> gs ! k = 0"
proof (induction gs arbitrary: k)
  case (Cons g gs)
  then show ?case by (cases k) (auto split: if_splits)
qed simp

definition run_of_zeros :: "nat list \<Rightarrow> nat \<times> nat \<Rightarrow> bool" where
  "run_of_zeros gs r \<longleftrightarrow> (case r of (s, l) \<Rightarrow> \<forall>k < l. s + k < length gs \<and> gs ! (s + k) = 0)"

lemma best_run_zeros: "run_of_zeros gs best \<Longrightarrow> run_of_zeros gs (best_run gs i best)"
proof (induction gs i best rule: best_run.induct)
  case (1 gs i best)
  show ?case
  proof (cases "i \<ge> length gs \<or> gs ! i \<noteq> 0")
    case True
    with 1 show ?thesis by (subst best_run.simps) auto
  next
    case False
    let ?n = "zero_run (drop i gs)"
    have "run_of_zeros gs (i, ?n)" using zero_run_zero [of _ "drop i gs"] by (fastforce simp: run_of_zeros_def)
    with 1 False have "run_of_zeros gs (best_run gs (i + ?n) (if ?n > snd best then (i, ?n) else best))"
      by auto
    with False show ?thesis by (subst best_run.simps) (simp add: Let_def)
  qed
qed

lemma drop_run:
  assumes "run_of_zeros gs (s, l)" "0 < l"
  shows "gs = take s gs @ replicate l 0 @ drop (s + l) gs \<and> s + l \<le> length gs"
proof -
  have le: "s + l \<le> length gs"
    using assms by (auto simp: run_of_zeros_def dest: spec [of _ "l - 1"])
  have "take l (drop s gs) = replicate l 0"
    using assms le by (intro nth_equalityI) (auto simp: run_of_zeros_def)
  then have "drop s gs = replicate l 0 @ drop (s + l) gs"
    using append_take_drop_id [of l "drop s gs"] by (simp add: add.commute)
  then show ?thesis using append_take_drop_id [of s gs] le by simp
qed

lemma groups_small: "\<forall>g \<in> set (groups_of bs). g < 65536"
proof (induction bs rule: groups_of.induct)
  case (1 a b bs)
  have "unat a < 256" "unat b < 256" by (rule byte_less)+
  then have "unat a * 256 + unat b < 65536" by linarith
  with 1 show ?case by simp
qed simp_all

lemma groups_bytes: "even (length bs) \<Longrightarrow> concat (map group_bytes (groups_of bs)) = bs"
proof (induction bs rule: groups_of.induct)
  case (1 a b bs)
  have "unat b < 256" by (rule byte_less)
  with 1 show ?case by (simp add: group_bytes_def)
qed simp_all

lemma length_groups: "even (length bs) \<Longrightarrow> 2 * length (groups_of bs) = length bs"
  by (induction bs rule: groups_of.induct) simp_all

lemma parseIpv6_format:
  assumes "length bs = 16"
  shows "parseIpv6 (format bs) = Some bs \<and> CHR '':'' \<in> set (format bs)
    \<and> (\<forall>c \<in> set (format bs). is_digit_of 16 c \<or> c = CHR '':'')"
proof -
  define gs where "gs = groups_of bs"
  obtain s l where r: "best_run gs 0 (0, 0) = (s, l)" by fastforce
  have bs: "concat (map group_bytes gs) = bs" and len: "length gs = 8" and small: "\<forall>g \<in> set gs. g < 65536"
    using assms groups_bytes [of bs] length_groups [of bs] groups_small [of bs] by (auto simp: gs_def)
  let ?j = "\<lambda>gs. join '':'' (map (to_radix 16) gs)"
  have colon: "\<forall>w \<in> set (map (to_radix 16) gs'). w \<noteq> [] \<and> CHR '':'' \<notin> set w" for gs'
    using in_to_radix [of 16 "CHR '':''"] by auto
  note jg = join_groups [OF colon]
  have chars: "is_digit_of 16 c \<or> c = CHR '':''" if "c \<in> set (?j gs')" for c gs'
    using that set_join [of "'':''" "map (to_radix 16) gs'"] in_to_radix [of 16 c] by auto
  show ?thesis
  proof (cases "l < 2")
    case True
    then have f: "format bs = ?j gs"
      using assms r by (simp add: format_def Let_def flip: gs_def)
    have "split_str ''::'' (?j gs) = [?j gs]" using jg by (intro split_str_none) blast
    then have "parseIpv6 (format bs) = Some bs"
      by (simp add: parseIpv6_def f half_groups_join [OF small] len bs)
    moreover have "CHR '':'' \<in> set (?j gs)"
      using len by (cases gs rule: list.exhaust; cases "tl gs") auto
    ultimately show ?thesis using f chars by auto
  next
    case False
    let ?a = "take s gs" and ?b = "drop (s + l) gs"
    have f: "format bs = ?j ?a @ ''::'' @ ?j ?b"
      using assms r False by (simp add: format_def Let_def take_map drop_map flip: gs_def)
    have "run_of_zeros gs (s, l)"
      using best_run_zeros [of gs "(0, 0)" 0] r by (simp add: run_of_zeros_def)
    then have cut: "gs = ?a @ replicate l 0 @ ?b" "s + l \<le> 8"
      using drop_run [of gs s l] False len by simp_all
    have "split_str ''::'' (format bs) = [?j ?a, ?j ?b]"
      unfolding f using jg split_str_none [of "?j ?b"] by (subst split_str_one) blast+
    moreover have "half_groups (?j ?a) = Some ?a" "half_groups (?j ?b) = Some ?b"
      using small by (intro half_groups_join; auto dest: in_set_takeD in_set_dropD)+
    moreover have "length ?a + length ?b < 8" "8 - length ?a - length ?b = l"
      using cut(2) len False by simp_all
    ultimately have "parseIpv6 (format bs) = Some bs"
      using cut(1) bs by (simp add: parseIpv6_def)
    then show ?thesis using f chars by auto
  qed
qed

lemma parseIp_format_v6:
  assumes "length bs = 16"
  shows "parseIp (format bs) = Some bs"
proof -
  note v6 = parseIpv6_format [OF assms]
  have "addr_char c" if "c \<in> set (format bs)" for c
    using v6 that by (auto simp: addr_char_def)
  moreover have "format bs \<noteq> []" using v6 by auto
  ultimately have "strip_ends (CHR ''['') (CHR '']'') (js_trim (format bs)) = format bs"
    by (intro parseIp_clean) auto
  moreover have "CHR ''.'' \<notin> set (drop 7 (format bs))" using v6 sep_not_hex(2) in_set_dropD by fastforce
  then have "mapped_v4 (format bs) = None" by (simp add: mapped_v4_def split_on_free)
  ultimately show ?thesis using v6 \<open>format bs \<noteq> []\<close> by (simp add: parseIp_def)
qed

subsection \<open>A range is a prefix of bits\<close>

text \<open>The bits of an address, most significant first.\<close>

definition byte_bits :: "8 word \<Rightarrow> bool list" where
  "byte_bits w = map (bit w) [7, 6, 5, 4, 3, 2, 1, 0]"

definition addr_bits :: "ip_bytes \<Rightarrow> bool list" where
  "addr_bits bs = concat (map byte_bits bs)"

lemma length_byte_bits [simp]: "length (byte_bits w) = 8"
  by (simp add: byte_bits_def)

lemma all_less_8: "(\<forall>n < 8. P n) \<longleftrightarrow> P (0::nat) \<and> P 1 \<and> P 2 \<and> P 3 \<and> P 4 \<and> P 5 \<and> P 6 \<and> P 7"
proof -
  have "(\<forall>n < 8. P n) \<longleftrightarrow> list_all P [0..<8]" by (auto simp: list_all_iff)
  also have "[0..<8] = [0, 1, 2, 3, 4, 5, 6, 7 :: nat]" by (simp add: upt_rec)
  finally show ?thesis by simp
qed

lemma byte_eq_iff: "a = b \<longleftrightarrow> (\<forall>n < 8. bit a n = bit b n)" for a b :: "8 word"
  by (auto intro: bit_word_eqI)

lemma byte_bits_inj: "byte_bits a = byte_bits b \<longleftrightarrow> a = b"
  by (auto simp: byte_bits_def byte_eq_iff all_less_8)

lemma masked_eq:
  fixes a b :: "8 word"
  assumes "0 < r" "r < 8"
  shows "a AND push_bit (8 - r) 0xff = b AND push_bit (8 - r) 0xff
    \<longleftrightarrow> take r (byte_bits a) = take r (byte_bits b)"
proof -
  have m: "bit (push_bit (8 - r) 0xff :: 8 word) n \<longleftrightarrow> 8 - r \<le> n \<and> n < 8" for n
  proof -
    have "(0xff :: 8 word) = mask 8" by (simp add: mask_eq_exp_minus_1)
    then have "push_bit (8 - r) 0xff = push_bit (8 - r) (mask 8 :: 8 word)" by (rule arg_cong)
    then show ?thesis by (simp only: bit_simps) auto
  qed
  have "a AND push_bit (8 - r) 0xff = b AND push_bit (8 - r) 0xff
    \<longleftrightarrow> (\<forall>n < 8. 8 - r \<le> n \<longrightarrow> bit a n = bit b n)"
    by (auto simp: byte_eq_iff bit_and_iff m)
  also have "\<dots> \<longleftrightarrow> take r (byte_bits a) = take r (byte_bits b)"
  proof -
    consider "r = 1" | "r = 2" | "r = 3" | "r = 4" | "r = 5" | "r = 6" | "r = 7"
      using assms by linarith
    then show ?thesis by cases (simp_all add: byte_bits_def all_less_8 conj_ac)
  qed
  finally show ?thesis .
qed

lemma take_addr_bits:
  "w < length bs \<or> (r = 0 \<and> w \<le> length bs) \<Longrightarrow> r < 8 \<Longrightarrow>
   take (8 * w + r) (addr_bits bs) = addr_bits (take w bs) @ (if r = 0 then [] else take r (byte_bits (bs ! w)))"
proof (induction w arbitrary: bs)
  case 0
  then show ?case by (cases bs) (auto simp: addr_bits_def)
next
  case (Suc w)
  then show ?case by (cases bs) (auto simp: addr_bits_def)
qed

lemma addr_bits_inj: "length xs = length ys \<Longrightarrow> addr_bits xs = addr_bits ys \<longleftrightarrow> xs = ys"
  by (induction xs ys rule: list_induct2) (auto simp: addr_bits_def byte_bits_inj)

lemma length_addr_bits [simp]: "length (addr_bits bs) = 8 * length bs"
  by (induction bs) (auto simp: addr_bits_def)

lemma inCidr_bits:
  assumes "ci_bits c \<le> 8 * length (ci_bytes c)"
  shows "inCidr ip c \<longleftrightarrow> length ip = length (ci_bytes c)
    \<and> take (ci_bits c) (addr_bits ip) = take (ci_bits c) (addr_bits (ci_bytes c))"
proof (cases "length ip = length (ci_bytes c)")
  case True
  define w r where "w = ci_bits c div 8" and "r = ci_bits c mod 8"
  have c: "ci_bits c = 8 * w + r" and r: "r < 8" by (simp_all add: w_def r_def)
  have w: "w < length ip \<or> (r = 0 \<and> w \<le> length ip)" using assms c True by auto
  have whole: "\<not> list_ex (\<lambda>i. ip ! i \<noteq> ci_bytes c ! i) [0..<w] \<longleftrightarrow> take w ip = take w (ci_bytes c)"
    using w True by (auto simp: list_ex_iff list_eq_iff_nth_eq)
  have "take (ci_bits c) (addr_bits ip) = take (ci_bits c) (addr_bits (ci_bytes c)) \<longleftrightarrow>
      take w ip = take w (ci_bytes c)
      \<and> (r \<noteq> 0 \<longrightarrow> take r (byte_bits (ip ! w)) = take r (byte_bits (ci_bytes c ! w)))"
    unfolding c using w r True by (simp add: take_addr_bits addr_bits_inj)
  also have "\<dots> \<longleftrightarrow> inCidr ip c"
    using True whole masked_eq [of r "ip ! w" "ci_bytes c ! w"] r
    unfolding inCidr_def Let_def w_def [symmetric] r_def [symmetric] by auto
  finally show ?thesis using True by simp
qed (simp add: inCidr_def)

lemma parseCidr_bits: "parseCidr e = Some c \<Longrightarrow> ci_bits c \<le> 8 * length (ci_bytes c)"
  by (auto simp: parseCidr_def Let_def split: option.splits prod.splits if_splits)

lemma parseTrustedProxies_bits:
  "c \<in> set (parseTrustedProxies es) \<Longrightarrow> ci_bits c \<le> 8 * length (ci_bytes c)"
  by (auto simp: parseTrustedProxies_def dest!: parseCidr_bits [OF sym] split: option.split_asm if_split_asm)

subsection \<open>The walk over the chain\<close>

lemma walk_back_append:
  "walk_back tr (xs @ ys) = (case walk_back tr xs of Some a \<Rightarrow> Some a | None \<Rightarrow> walk_back tr ys)"
  by (induction xs) (auto split: option.splits)

lemma walk_back_Some:
  "walk_back tr xs = Some a \<Longrightarrow> \<exists>x \<in> set xs. \<exists>bs. parseIp x = Some bs \<and> a = format bs \<and> \<not> isTrusted (Some bs) tr"
  by (induction xs) (auto split: option.splits if_splits)

lemma walk_back_None:
  "walk_back tr xs = None \<longleftrightarrow> (\<forall>x \<in> set xs. \<forall>bs. parseIp x = Some bs \<longrightarrow> isTrusted (Some bs) tr)"
  by (induction xs) (auto split: option.splits)

lemma chain_append:
  "parseForwardedChain h (v @ '','' @ w) = parseForwardedChain h v @ parseForwardedChain h w"
  by (simp add: parseForwardedChain_def split_on_append_sep)

lemma parseIpv4_length: "parseIpv4 s = Some bs \<Longrightarrow> length bs = 4"
proof -
  have len: "those xs = Some ys \<Longrightarrow> length ys = length xs" for xs :: "8 word option list" and ys
    by (induction xs arbitrary: ys) (auto split: option.splits)
  show "parseIpv4 s = Some bs \<Longrightarrow> length bs = 4"
    by (auto simp: parseIpv4_def Let_def dest!: len split: if_splits)
qed

lemma parseIpv6_length: "parseIpv6 s = Some bs \<Longrightarrow> length bs = 16"
proof -
  have "length (concat (map group_bytes gs)) = 2 * length gs" for gs
    by (induction gs) (auto simp: group_bytes_def)
  moreover have "length (concat (replicate n (group_bytes 0))) = 2 * n" for n
    by (induction n) (auto simp: group_bytes_def)
  ultimately show "parseIpv6 s = Some bs \<Longrightarrow> length bs = 16"
    by (auto simp: parseIpv6_def split: list.splits option.splits if_splits)
qed

lemma parseIp_length: "parseIp s = Some bs \<Longrightarrow> length bs = 4 \<or> length bs = 16"
  by (auto simp: parseIp_def Let_def dest: parseIpv4_length parseIpv6_length split: if_splits option.splits)

text \<open>
  C28. Printed addresses. Every address of 4 or 16 bytes is read back from its printed form, so
  two clients print alike only when they are the same; an IPv4 address is also recognised in its
  IPv4-mapped IPv6 form; and whatever spelling is accepted has exactly one printed form.
\<close>

theorem address_text_round_trip:
  assumes "length bs = 4 \<or> length bs = 16"
  shows "parseIp (format bs) = Some bs
    \<and> (length bs = 4 \<longrightarrow> parseIp (''::ffff:'' @ format bs) = Some bs)
    \<and> (parseIp s = Some cs \<longrightarrow> parseIp (format cs) = Some cs \<and> (format cs = format bs \<longleftrightarrow> cs = bs))"
proof -
  have trip: "length bs = 4 \<or> length bs = 16 \<Longrightarrow> parseIp (format bs) = Some bs" for bs
    using parseIp_format_v4 parseIp_format_v6 by blast
  then have "parseIp s = Some cs \<Longrightarrow> parseIp (format cs) = Some cs" for cs
    using parseIp_length by blast
  then show ?thesis using trip [OF assms] parseIp_format_v4 [of bs]
    by (metis option.inject)
qed

theorem address_text_round_trip_witness:
  "parseIp (format [192, 0, 2, 7]) = Some [192, 0, 2, 7]
   \<and> parseIp (format (replicate 15 0 @ [1])) = Some (replicate 15 0 @ [1])"
  using address_text_round_trip [of "[192, 0, 2, 7]"] address_text_round_trip [of "replicate 15 0 @ [1]"]
  by simp





end
