(* ===== verification/Cors.thy ===== *)
theory Cors
  imports Js_Text
begin

text \<open>
  Which origins may read API answers, and which may act at all
  (\<open>apps/server/src/cors.ts\<close>). The URL parser of the platform is a parameter: \<open>parse text\<close> is
  the parsed URL, or \<open>None\<close> where \<open>new URL(text)\<close> throws.
\<close>

record url =
  url_origin :: string
  url_host :: string

type_synonym url_parser = "string \<Rightarrow> url option"

definition originOf :: "url_parser \<Rightarrow> string \<Rightarrow> string option" where
  "originOf parse text = map_option url_origin (parse text)"

definition normalized_entry :: "url_parser \<Rightarrow> string \<Rightarrow> string option" where
  "normalized_entry parse entry =
     (let trimmed = js_trim entry
      in if trimmed = [] then None
         else case (if trimmed = ''*'' then Some ''*'' else originOf parse trimmed) of
                None \<Rightarrow> None
              | Some s \<Rightarrow> if s = [] then None else Some s)"

fun allow_loop :: "url_parser \<Rightarrow> string list \<Rightarrow> string list \<Rightarrow> string list" where
  "allow_loop parse out [] = out"
| "allow_loop parse out (entry # rest) =
     (case normalized_entry parse entry of
        None \<Rightarrow> allow_loop parse out rest
      | Some s \<Rightarrow> allow_loop parse (if s \<in> set out then out else out @ [s]) rest)"

definition primary_origin :: "url_parser \<Rightarrow> string option \<Rightarrow> string option" where
  "primary_origin parse primaryUrl =
     (case primaryUrl of
        None \<Rightarrow> None
      | Some p \<Rightarrow> if p = [] then None else
          (case originOf parse p of None \<Rightarrow> None | Some s \<Rightarrow> if s = [] then None else Some s))"

definition resolveAllowedOrigins :: "url_parser \<Rightarrow> string list \<Rightarrow> string option \<Rightarrow> string list" where
  "resolveAllowedOrigins parse configured primaryUrl =
     (let out = allow_loop parse [] configured
      in case primary_origin parse primaryUrl of
           None \<Rightarrow> out
         | Some s \<Rightarrow> if s \<in> set out then out else out @ [s])"

definition corsHeaders :: "string option \<Rightarrow> string list \<Rightarrow> (string, string) jsmap" where
  "corsHeaders origin allowed =
     (let base = [(''Access-Control-Allow-Methods'', ''POST, OPTIONS''),
                  (''Access-Control-Allow-Headers'', ''Content-Type, Authorization'')]
      in if allowed = [] \<or> ''*'' \<in> set allowed then put ''Access-Control-Allow-Origin'' ''*'' base
         else (let vary = put ''Vary'' ''Origin'' base
               in case origin of
                    None \<Rightarrow> vary
                  | Some ori \<Rightarrow>
                      if ori \<noteq> [] \<and> ori \<in> set allowed then put ''Access-Control-Allow-Origin'' ori vary
                      else vary))"

definition hostOf :: "url_parser \<Rightarrow> string \<Rightarrow> string option" where
  "hostOf parse text =
     (let trimmed = js_trim text
      in if trimmed = [] then None
         else map_option (js_lower \<circ> url_host)
                (parse (if sublist ''://'' trimmed then trimmed else ''http://'' @ trimmed)))"

definition originAllowsRequest :: "url_parser \<Rightarrow> string option \<Rightarrow> string option list \<Rightarrow> string list \<Rightarrow> bool" where
  "originAllowsRequest parse origin hosts allowed \<longleftrightarrow>
     (case origin of
        None \<Rightarrow> True
      | Some ori \<Rightarrow>
          if ori = [] then True
          else if ''*'' \<in> set allowed \<or> ori \<in> set allowed then True
          else (case hostOf parse ori of
                  None \<Rightarrow> False
                | Some h \<Rightarrow> list_ex (\<lambda>x. case x of None \<Rightarrow> False | Some t \<Rightarrow> hostOf parse t = Some h) hosts))"

subsection \<open>The effective allowlist\<close>

lemma allow_loop_spec:
  "distinct out \<Longrightarrow> distinct (allow_loop parse out es)
   \<and> set (allow_loop parse out es) = set out \<union> {s. \<exists>e\<in>set es. normalized_entry parse e = Some s}"
proof (induction es arbitrary: out)
  case (Cons e es)
  then show ?case by (cases "normalized_entry parse e") auto
qed simp

lemma allowed_set:
  "set (resolveAllowedOrigins parse configured primaryUrl)
     = {s. primary_origin parse primaryUrl = Some s \<or> (\<exists>e\<in>set configured. normalized_entry parse e = Some s)}"
  using allow_loop_spec [of "[]" parse configured]
  by (auto simp: resolveAllowedOrigins_def Let_def split: option.splits)

lemma allowed_distinct: "distinct (resolveAllowedOrigins parse configured primaryUrl)"
  using allow_loop_spec [of "[]" parse configured]
  by (auto simp: resolveAllowedOrigins_def Let_def split: option.splits)

lemma star_word: "js_trim ''*'' = ''*''" by code_simp

lemma host_list_ex:
  "list_ex (\<lambda>x. case x of None \<Rightarrow> False | Some t \<Rightarrow> hostOf parse t = Some h) hosts
    \<longleftrightarrow> (\<exists>t. Some t \<in> set hosts \<and> hostOf parse t = Some h)"
  by (auto simp: list_ex_iff split: option.splits intro: bexI)

text \<open>
  C12. A page's request is acted on exactly when its origin is the host the request arrived on,
  or a configured entry is the wildcard or has that origin, or the origin is that of the primary
  URL; the list the check runs against holds each origin once. In particular an entry whose URL
  has an opaque origin, such as \<open>sc.local:8443\<close> written without its scheme, admits the origin
  \<open>null\<close> of every sandboxed page.
\<close>

theorem foreign_origins_exact:
  "distinct (resolveAllowedOrigins parse configured primaryUrl)
   \<and> (originAllowsRequest parse (Some (c # ori)) hosts (resolveAllowedOrigins parse configured primaryUrl)
      \<longleftrightarrow> (\<exists>entry\<in>set configured. js_trim entry = ''*''
              \<or> js_trim entry \<noteq> [] \<and> originOf parse (js_trim entry) \<in> {Some (c # ori), Some ''*''})
        \<or> (\<exists>p. primaryUrl = Some p \<and> p \<noteq> [] \<and> originOf parse p \<in> {Some (c # ori), Some ''*''})
        \<or> (\<exists>h host. hostOf parse (c # ori) = Some h \<and> Some host \<in> set hosts \<and> hostOf parse host = Some h))"
proof -
  have entry: "normalized_entry parse e = Some s \<longleftrightarrow>
      js_trim e \<noteq> [] \<and> s \<noteq> [] \<and> (if js_trim e = ''*'' then s = ''*'' else originOf parse (js_trim e) = Some s)" for e s
    by (auto simp: normalized_entry_def Let_def split: option.splits)
  have primary: "primary_origin parse primaryUrl = Some s \<longleftrightarrow>
      (\<exists>p. primaryUrl = Some p \<and> p \<noteq> [] \<and> originOf parse p = Some s \<and> s \<noteq> [])" for s
    by (auto simp: primary_origin_def split: option.splits)
  show ?thesis
    by (auto simp: allowed_distinct originAllowsRequest_def allowed_set entry primary host_list_ex
        split: option.splits if_splits)
qed

text \<open>The parser on the inputs of the example: \<open>sc.local:\<close> reads as a scheme, so the origin is opaque.\<close>

definition demo_url :: url_parser where
  "demo_url text =
     (if text = ''https://sc.example'' then Some \<lparr>url_origin = ''https://sc.example'', url_host = ''sc.example''\<rparr>
      else if text = ''sc.local:8443'' then Some \<lparr>url_origin = ''null'', url_host = []\<rparr>
      else None)"

lemma opaque_entry_opens: "originAllowsRequest demo_url (Some ''null'') [Some ''sc.local'']
    (resolveAllowedOrigins demo_url ['' sc.local:8443''] (Some ''https://sc.example''))"
  by code_simp

end
