(* ===== verification/Device.thy ===== *)
theory Device
  imports Prelude
begin

text \<open>
  The device authorization grant (\<open>apps/server/src/features/oidc/device.ts\<close>, class
  \<open>DeviceCodeStore\<close>): pairing codes shown on a screen and typed elsewhere, kept in memory.

  Parameters: \<open>rnd a i\<close> is the \<open>randomInt\<close> of attempt \<open>a\<close> for position \<open>i\<close> of a code, below the
  size of the alphabet; \<open>dc\<close> is the random device code; \<open>now\<close> is \<open>Date.now()\<close>.
\<close>

definition USER_CODE_ALPHABET :: string where
  "USER_CODE_ALPHABET = ''BCDFGHJKLMNPQRSTVWXZ''"

definition USER_CODE_LENGTH :: nat where "USER_CODE_LENGTH = 8"
definition DEVICE_TTL_MS :: ms where "DEVICE_TTL_MS = 5 * 60 * 1000"
definition POLL_INTERVAL_S :: int where "POLL_INTERVAL_S = 5"
definition POLL_GRACE_MS :: ms where "POLL_GRACE_MS = 500"
definition MAX_PENDING :: nat where "MAX_PENDING = 64"
definition MAX_PENDING_PER_IP :: nat where "MAX_PENDING_PER_IP = 8"
definition GENERATE_ATTEMPTS :: nat where "GENERATE_ATTEMPTS = 100"

datatype device_status = DevPending | DevApproved | DevDenied

record DeviceRequestRecord =
  dv_deviceCode :: string
  dv_userCode :: string
  dv_clientId :: string
  dv_scope :: string
  dv_ip :: "string option"
  dv_userAgent :: "string option"
  dv_createdAt :: ms
  dv_expiresAt :: ms
  dv_status :: device_status
  dv_userId :: "uid option"
  dv_approvedAt :: "ms option"
  dv_lastPolledAt :: ms

type_synonym device_store = "(string, DeviceRequestRecord) jsmap"

datatype poll_error = AuthorizationPending | SlowDown | AccessDenied | ExpiredToken | InvalidDeviceCode

datatype device_cap = PendingFull | PendingFullForAddress | NoCodeLeft

subsection \<open>User codes\<close>

definition formatUserCode :: "string \<Rightarrow> string" where
  "formatUserCode code = take 4 code @ ''-'' @ drop 4 code"

definition normalizeUserCode :: "string \<Rightarrow> string" where
  "normalizeUserCode input = filter (\<lambda>c. c \<in> set USER_CODE_ALPHABET) (js_upper input)"

text \<open>\<open>s[i]\<close>: undefined past the end.\<close>

definition char_at :: "string \<Rightarrow> nat \<Rightarrow> char option" where
  "char_at s i = (if i < length s then Some (s ! i) else None)"

text \<open>The loop over the positions; \<open>None\<close> is its early \<open>return true\<close>.\<close>

fun diff_loop :: "string \<Rightarrow> string \<Rightarrow> nat list \<Rightarrow> nat list \<Rightarrow> nat list option" where
  "diff_loop a b differing [] = Some differing"
| "diff_loop a b differing (i # is) =
     (if char_at a i \<noteq> char_at b i
      then (if length (differing @ [i]) > 2 then None else diff_loop a b (differing @ [i]) is)
      else diff_loop a b differing is)"

definition differsEnough :: "string \<Rightarrow> string \<Rightarrow> bool" where
  "differsEnough a b =
     (case diff_loop a b [] [0..<length a] of
        None \<Rightarrow> True
      | Some [i, j] \<Rightarrow> \<not> (j = i + 1 \<and> char_at a i = char_at b j \<and> char_at a j = char_at b i)
      | Some _ \<Rightarrow> False)"

definition random_code :: "(nat \<Rightarrow> nat) \<Rightarrow> string" where
  "random_code r = map (\<lambda>i. USER_CODE_ALPHABET ! r i) [0..<USER_CODE_LENGTH]"

fun generate_loop :: "(nat \<Rightarrow> nat \<Rightarrow> nat) \<Rightarrow> DeviceRequestRecord list \<Rightarrow> nat list \<Rightarrow> device_cap + string"
where
  "generate_loop rnd pending [] = Inl NoCodeLeft"
| "generate_loop rnd pending (attempt # rest) =
     (let code = random_code (rnd attempt)
      in if list_all (\<lambda>r. differsEnough code (dv_userCode r)) pending then Inr code
         else generate_loop rnd pending rest)"

definition generateUserCode :: "(nat \<Rightarrow> nat \<Rightarrow> nat) \<Rightarrow> DeviceRequestRecord list \<Rightarrow> device_cap + string" where
  "generateUserCode rnd pending = generate_loop rnd pending [0..<GENERATE_ATTEMPTS]"

subsection \<open>The store\<close>

definition prune_devices :: "ms \<Rightarrow> device_store \<Rightarrow> device_store" where
  "prune_devices now = drop_where (\<lambda>r. dv_expiresAt r < now)"

definition pending_of :: "device_store \<Rightarrow> DeviceRequestRecord list" where
  "pending_of m = filter (\<lambda>r. dv_status r = DevPending) (vals m)"

definition request_device :: "ms \<Rightarrow> string \<Rightarrow> (nat \<Rightarrow> nat \<Rightarrow> nat) \<Rightarrow> string \<Rightarrow> string \<Rightarrow> string option \<Rightarrow>
    string option \<Rightarrow> device_store \<Rightarrow> (device_cap, DeviceRequestRecord, device_store) result" where
  "request_device now dc rnd clientId scope ip ua m =
     (let m1 = prune_devices now m; pending = pending_of m1
      in if length pending \<ge> MAX_PENDING then (Inl PendingFull, m1)
         else if ip \<noteq> None \<and> length (filter (\<lambda>r. dv_ip r = ip) pending) \<ge> MAX_PENDING_PER_IP
           then (Inl PendingFullForAddress, m1)
         else case generateUserCode rnd pending of
                Inl e \<Rightarrow> (Inl e, m1)
              | Inr code \<Rightarrow>
                  (let rec = \<lparr>dv_deviceCode = dc, dv_userCode = code, dv_clientId = clientId,
                              dv_scope = scope, dv_ip = ip, dv_userAgent = ua, dv_createdAt = now,
                              dv_expiresAt = now + DEVICE_TTL_MS, dv_status = DevPending,
                              dv_userId = None, dv_approvedAt = None, dv_lastPolledAt = now\<rparr>
                   in (Inr rec, put dc rec m1)))"

definition findPending :: "ms \<Rightarrow> string \<Rightarrow> device_store \<Rightarrow> DeviceRequestRecord option \<times> device_store" where
  "findPending now userCode m =
     (let m1 = prune_devices now m; normalized = normalizeUserCode userCode
      in if length normalized \<noteq> USER_CODE_LENGTH then (None, m1)
         else (find (\<lambda>r. dv_userCode r = normalized \<and> dv_status r = DevPending) (vals m1), m1))"

definition resolve_device :: "ms \<Rightarrow> string \<Rightarrow> bool \<Rightarrow> uid \<Rightarrow> device_store \<Rightarrow>
    DeviceRequestRecord option \<times> device_store" where
  "resolve_device now userCode approve userId m =
     (case findPending now userCode m of
        (None, m1) \<Rightarrow> (None, m1)
      | (Some rec, m1) \<Rightarrow>
          (let rec' = rec\<lparr>dv_status := (if approve then DevApproved else DevDenied),
                          dv_userId := Some userId, dv_approvedAt := Some now\<rparr>
           in (Some rec', put (dv_deviceCode rec) rec' m1)))"

definition poll_device :: "ms \<Rightarrow> string \<Rightarrow> string \<Rightarrow> device_store \<Rightarrow>
    (poll_error + DeviceRequestRecord) \<times> device_store" where
  "poll_device now deviceCode clientId m =
     (case look m deviceCode of
        None \<Rightarrow> (Inl InvalidDeviceCode, m)
      | Some rec \<Rightarrow>
          if dv_clientId rec \<noteq> clientId then (Inl InvalidDeviceCode, m)
          else if dv_expiresAt rec < now then (Inl ExpiredToken, del deviceCode m)
          else
            let rec' = rec\<lparr>dv_lastPolledAt := now\<rparr>; m1 = put deviceCode rec' m
            in if dv_status rec = DevDenied then (Inl AccessDenied, del deviceCode m1)
               else if now - dv_lastPolledAt rec < POLL_INTERVAL_S * 1000 - POLL_GRACE_MS
                 then (Inl SlowDown, m1)
               else if dv_status rec = DevPending then (Inl AuthorizationPending, m1)
               else if dv_userId rec = None \<or> dv_approvedAt rec = None then (Inl InvalidDeviceCode, m1)
               else (Inr rec', del deviceCode m1))"

inductive device_step :: "device_store \<Rightarrow> device_store \<Rightarrow> bool" where
  request: "look m dc = None \<Longrightarrow> (\<And>a i. rnd a i < length USER_CODE_ALPHABET) \<Longrightarrow>
     device_step m (snd (request_device now dc rnd clientId scope ip ua m))"
| find: "device_step m (snd (findPending now code m))"
| resolve: "device_step m (snd (resolve_device now code approve userId m))"
| poll: "device_step m (snd (poll_device now dc clientId m))"

subsection \<open>Codes that differ enough\<close>

definition differing :: "string \<Rightarrow> string \<Rightarrow> nat list" where
  "differing a b = filter (\<lambda>i. a ! i \<noteq> b ! i) [0..<length a]"

lemma diff_loop_eq:
  "length ds \<le> 2 \<Longrightarrow> diff_loop a b ds is =
     (let d = ds @ filter (\<lambda>i. char_at a i \<noteq> char_at b i) is in if length d > 2 then None else Some d)"
  by (induction "is" arbitrary: ds) auto

lemma differsEnough_eq:
  assumes "length a = length b"
  shows "differsEnough a b \<longleftrightarrow>
    (length (differing a b) > 2 \<or> (\<exists>i j. differing a b = [i, j] \<and> \<not> (j = i + 1 \<and> a ! i = b ! j \<and> a ! j = b ! i)))"
proof -
  have "filter (\<lambda>i. char_at a i \<noteq> char_at b i) [0..<length a] = differing a b"
    unfolding differing_def by (rule filter_cong) (use assms in \<open>auto simp: char_at_def\<close>)
  then have l: "diff_loop a b [] [0..<length a] =
      (if length (differing a b) > 2 then None else Some (differing a b))"
    by (simp add: diff_loop_eq)
  have bound: "i < length a" if "i \<in> set (differing a b)" for i
    using that by (auto simp: differing_def)
  show ?thesis
  proof (cases "\<exists>i j. differing a b = [i, j]")
    case True
    then obtain i j where ij: "differing a b = [i, j]" by blast
    with bound [of i] bound [of j] assms have "i < length a" "j < length a" by auto
    with ij assms show ?thesis unfolding differsEnough_def l by (simp add: char_at_def)
  next
    case False
    then show ?thesis unfolding differsEnough_def l by (auto split: list.split)
  qed
qed

lemma differing_iff: "i \<in> set (differing a b) \<longleftrightarrow> i < length a \<and> a ! i \<noteq> b ! i"
  by (auto simp: differing_def)

lemma differing_sym: "length a = length b \<Longrightarrow> differing a b = differing b a"
  unfolding differing_def by (intro filter_cong) auto

lemma differsEnough_sym:
  assumes "length a = length b"
  shows "differsEnough a b \<longleftrightarrow> differsEnough b a"
  unfolding differsEnough_eq [OF assms] differsEnough_eq [OF assms [symmetric]]
    differing_sym [OF assms] by metis

text \<open>One slip of the hand: a wrong key, or two neighbours swapped.\<close>

definition one_slip :: "string \<Rightarrow> string \<Rightarrow> bool" where
  "one_slip a b \<longleftrightarrow> (\<exists>i x. i < length a \<and> b = a[i := x])
     \<or> (\<exists>i. Suc i < length a \<and> b = a[i := a ! Suc i, Suc i := a ! i])"

lemma differing_sorted: "sorted_wrt (<) (differing a b)"
  unfolding differing_def by (intro sorted_wrt_filter) simp

lemma differing_pair: "differing a b = [i, j] \<Longrightarrow> i < j"
  using differing_sorted [of a b] by simp

lemma same_elsewhere: "i < length a \<Longrightarrow> i \<notin> set (differing a b) \<Longrightarrow> b ! i = a ! i"
  by (auto simp: differing_iff)

lemma slip_if_not_apart:
  assumes len: "length a = length b" and "a \<noteq> []" "\<not> differsEnough a b"
  shows "one_slip a b"
proof -
  note d = assms(3) [unfolded differsEnough_eq [OF len]]
  consider "differing a b = []" | i where "differing a b = [i]" | i j where "differing a b = [i, j]"
    using d by (metis list.exhaust length_Cons less_Suc_eq_0_disj linorder_not_less numeral_2_eq_2
        Suc_less_eq zero_less_Suc)
  then show ?thesis
  proof cases
    case 1
    then have "b = a[0 := a ! 0]"
      using len same_elsewhere [of _ a b] by (intro nth_equalityI) auto
    then show ?thesis using assms(2) unfolding one_slip_def by blast
  next
    case (2 i)
    then have "b = a[i := b ! i]" "i < length a"
      using len same_elsewhere [of _ a b] differing_iff [of i a b]
      by (auto intro!: nth_equalityI simp: nth_list_update)
    then show ?thesis unfolding one_slip_def by blast
  next
    case (3 i j)
    with d have sw: "j = Suc i" "a ! i = b ! j" "a ! j = b ! i" by auto
    then have "b = a[i := a ! Suc i, Suc i := a ! i]" "Suc i < length a"
      using 3 len same_elsewhere [of _ a b] differing_iff [of j a b]
      by (auto intro!: nth_equalityI simp: nth_list_update)
    then show ?thesis unfolding one_slip_def by blast
  qed
qed

lemma not_apart_if_slip:
  assumes "one_slip a b"
  shows "length a = length b \<and> \<not> differsEnough a b"
proof -
  have len: "length a = length b" using assms by (auto simp: one_slip_def)
  from assms consider i x where "b = a[i := x]"
    | i where "Suc i < length a" "b = a[i := a ! Suc i, Suc i := a ! i]"
    unfolding one_slip_def by blast
  then have "\<not> differsEnough a b"
  proof cases
    case (1 i x)
    then have "set (differing a b) \<subseteq> {i}"
      by (auto simp: differing_iff) (metis nth_list_update_neq)
    moreover have "distinct (differing a b)" by (simp add: differing_def)
    ultimately have "length (differing a b) \<le> 1"
      using card_mono [of "{i}" "set (differing a b)"] by (simp add: distinct_card)
    then show ?thesis by (auto simp: differsEnough_eq [OF len])
  next
    case (2 i)
    then have sub: "set (differing a b) \<subseteq> {i, Suc i}"
      by (auto simp: differing_iff nth_list_update split: if_splits)
    moreover have "distinct (differing a b)" by (simp add: differing_def)
    ultimately have "length (differing a b) \<le> 2"
      using card_mono [of "{i, Suc i}" "set (differing a b)"] by (simp add: distinct_card)
    moreover have "q = p + 1 \<and> a ! p = b ! q \<and> a ! q = b ! p" if pq: "differing a b = [p, q]" for p q
    proof -
      from sub differing_pair [OF pq] pq have "p = i" "q = Suc i" by auto
      with 2 show ?thesis by (simp add: nth_list_update)
    qed
    ultimately show ?thesis by (auto simp: differsEnough_eq [OF len])
  qed
  with len show ?thesis by simp
qed

subsection \<open>The live set\<close>

definition code_ok :: "string \<Rightarrow> bool" where
  "code_ok c \<longleftrightarrow> length c = USER_CODE_LENGTH \<and> set c \<subseteq> set USER_CODE_ALPHABET"

definition device_ok :: "string \<Rightarrow> DeviceRequestRecord \<Rightarrow> bool" where
  "device_ok k r \<longleftrightarrow> dv_deviceCode r = k \<and> code_ok (dv_userCode r)
     \<and> (dv_status r \<noteq> DevPending \<longrightarrow> dv_userId r \<noteq> None \<and> dv_approvedAt r \<noteq> None)"

definition apart :: "DeviceRequestRecord list \<Rightarrow> bool" where
  "apart rs \<longleftrightarrow> sorted_wrt (\<lambda>r q. differsEnough (dv_userCode q) (dv_userCode r)) rs"

definition device_inv :: "device_store \<Rightarrow> bool" where
  "device_inv m \<longleftrightarrow> each device_ok m \<and> apart (pending_of m) \<and> length (pending_of m) \<le> MAX_PENDING
     \<and> (\<forall>ip. ip \<noteq> None \<longrightarrow> length (filter (\<lambda>r. dv_ip r = ip) (pending_of m)) \<le> MAX_PENDING_PER_IP)"

lemma pending_split:
  "pending_of (xs @ (k, r) # ys) =
     pending_of xs @ (if dv_status r = DevPending then [r] else []) @ pending_of ys"
  by (simp add: pending_of_def)

text \<open>Taking pending requests away, or none, keeps the invariant.\<close>

lemma device_inv_sub:
  assumes "device_inv m" "each device_ok m'" "\<exists>P. pending_of m' = filter P (pending_of m)"
  shows "device_inv m'"
proof -
  from assms(3) obtain P where P: "pending_of m' = filter P (pending_of m)" by blast
  have le: "length (filter Q (filter P xs)) \<le> length (filter Q xs)"
    for Q and xs :: "DeviceRequestRecord list" by (induction xs) auto
  have "length (filter (\<lambda>r. dv_ip r = ip) (pending_of m')) \<le> MAX_PENDING_PER_IP" if "ip \<noteq> None" for ip
    using assms(1) that le [of "\<lambda>r. dv_ip r = ip" "pending_of m"]
    unfolding device_inv_def P by (meson order_trans)
  moreover have "length (pending_of m') \<le> MAX_PENDING"
    using assms(1) unfolding device_inv_def P by (intro order_trans [OF length_filter_le]) blast
  ultimately show ?thesis
    using assms(1,2) unfolding device_inv_def apart_def P by (auto intro: sorted_wrt_filter)
qed

lemma pending_drop: "pending_of (drop_where p m) = filter (\<lambda>r. \<not> p r) (pending_of m)"
  unfolding pending_of_def drop_where_def by (induction m) auto

lemma prune_inv [inv_intros]: "device_inv m \<Longrightarrow> device_inv (prune_devices now m)"
  unfolding prune_devices_def
  by (rule device_inv_sub) (auto simp: pending_drop device_inv_def)

lemma del_inv [inv_intros]:
  assumes "device_inv m"
  shows "device_inv (del k m)"
proof (rule device_inv_sub [OF assms])
  show "each device_ok (del k m)" using assms by (auto simp: device_inv_def)
  have "each device_ok m" using assms by (simp add: device_inv_def)
  then have "pending_of (del k m) = filter (\<lambda>r. dv_deviceCode r \<noteq> k) (pending_of m)"
    unfolding pending_of_def each_def by (induction m) (auto simp: device_ok_def)
  then show "\<exists>P. pending_of (del k m) = filter P (pending_of m)" by blast
qed

lemma random_code_ok: "(\<And>i. r i < length USER_CODE_ALPHABET) \<Longrightarrow> code_ok (random_code r)"
  by (auto simp: code_ok_def random_code_def intro: nth_mem)

lemma generate_loop_ok:
  assumes "generate_loop rnd pending as = Inr code" "\<And>a i. rnd a i < length USER_CODE_ALPHABET"
  shows "code_ok code \<and> list_all (\<lambda>r. differsEnough code (dv_userCode r)) pending"
  using assms(1) by (induction as) (auto simp: Let_def random_code_ok [OF assms(2)] split: if_splits)

text \<open>Rewriting the record of a key, with a code of its own or leaving the pending set.\<close>

lemma put_same_inv:
  assumes "device_inv m" "look m k = Some r" "device_ok k q"
    and "dv_userCode q = dv_userCode r" "dv_ip q = dv_ip r"
    and "dv_status q = DevPending \<Longrightarrow> dv_status r = DevPending"
  shows "device_inv (put k q m)"
proof -
  from assms(2) obtain xs ys where m: "m = xs @ (k, r) # ys" and k: "k \<notin> set (keys xs)"
    by (rule look_split)
  have "each device_ok (put k q m)" using assms(1,3) by (auto simp: device_inv_def)
  moreover have "pending_of (put k q m) =
      pending_of xs @ (if dv_status q = DevPending then [q] else []) @ pending_of ys"
    using m k by (simp add: put_split pending_split)
  moreover have "pending_of m = pending_of xs @ (if dv_status r = DevPending then [r] else []) @ pending_of ys"
    using m by (simp add: pending_split)
  ultimately show ?thesis
    using assms(1,4-6) unfolding device_inv_def apart_def
    by (auto simp: sorted_wrt_append split: if_splits) (metis Suc_leD option.distinct(1))
qed

lemma request_inv [inv_intros]:
  assumes inv: "device_inv m" and dc: "look m dc = None"
    and rnd: "\<And>a i. rnd a i < length USER_CODE_ALPHABET"
  shows "device_inv (snd (request_device now dc rnd c s ip ua m))"
proof -
  let ?m = "prune_devices now m"
  have ok: "device_inv ?m" by (rule prune_inv [OF inv])
  have u: "unique_keys m" using inv by (simp add: device_inv_def each_def)
  have fresh: "look ?m dc = None" using dc unfolding prune_devices_def look_drop_where [OF u] by simp
  have "device_inv (put dc r ?m)"
    if "length (pending_of ?m) < MAX_PENDING" "device_ok dc r" "dv_status r = DevPending"
      "dv_ip r \<noteq> None \<longrightarrow> length (filter (\<lambda>q. dv_ip q = dv_ip r) (pending_of ?m)) < MAX_PENDING_PER_IP"
      "list_all (\<lambda>q. differsEnough (dv_userCode r) (dv_userCode q)) (pending_of ?m)" for r
  proof -
    have "each device_ok (put dc r ?m)" using ok that(2) by (auto simp: device_inv_def)
    moreover have "pending_of (put dc r ?m) = pending_of ?m @ [r]"
      using that(3) by (simp add: put_fresh [OF fresh] pending_of_def)
    ultimately show ?thesis
      using ok that by (auto simp: device_inv_def apart_def sorted_wrt_append list_all_iff)
  qed
  from this ok show ?thesis
    using generate_loop_ok [of rnd "pending_of ?m" "[0..<GENERATE_ATTEMPTS]", OF _ rnd]
    by (auto simp: request_device_def Let_def generateUserCode_def device_ok_def
        not_le split: sum.split)
qed

lemma findPending_inv [inv_intros]: "device_inv m \<Longrightarrow> device_inv (snd (findPending now code m))"
  by (auto simp: findPending_def Let_def intro: inv_intros)

lemma findPending_Some:
  assumes "findPending now code m = (Some r, m1)"
  shows "m1 = prune_devices now m \<and> r \<in> set (pending_of m1) \<and> dv_userCode r = normalizeUserCode code"
  using assms unfolding findPending_def Let_def
  by (auto simp: find_Some_iff pending_of_def split: if_splits)

lemma resolve_inv [inv_intros]:
  assumes "device_inv m"
  shows "device_inv (snd (resolve_device now code approve userId m))"
proof (cases "findPending now code m")
  case (Pair out m1)
  have ok: "device_inv m1" using findPending_inv [OF assms, of now code] Pair by simp
  show ?thesis
  proof (cases out)
    case (Some r)
    with findPending_Some Pair have r: "r \<in> set (pending_of m1)" by blast
    with ok have "look m1 (dv_deviceCode r) = Some r" "device_ok (dv_deviceCode r) r"
      by (auto simp: device_inv_def each_def pending_of_def device_ok_def)
    moreover have "dv_status r = DevPending" using r by (simp add: pending_of_def)
    ultimately show ?thesis using Some Pair
      by (auto simp: resolve_device_def Let_def device_ok_def intro!: put_same_inv [OF ok])
  qed (use Pair ok in \<open>simp add: resolve_device_def\<close>)
qed

lemma poll_inv [inv_intros]:
  assumes "device_inv m"
  shows "device_inv (snd (poll_device now dc clientId m))"
proof (cases "look m dc")
  case (Some r)
  let ?r = "r\<lparr>dv_lastPolledAt := now\<rparr>"
  have "device_ok dc r" using each_look [OF _ Some, of device_ok] assms by (simp add: device_inv_def)
  then have p: "device_inv (put dc ?r m)" by (intro put_same_inv [OF assms Some]) (auto simp: device_ok_def)
  with Some assms del_inv [OF p] del_inv [OF assms] show ?thesis
    by (simp add: poll_device_def Let_def)
qed (use assms in \<open>simp add: poll_device_def\<close>)

interpretation devices: invariant_store device_inv device_step
proof
  fix m m' assume "device_step m m'" "device_inv m"
  then show "device_inv m'" by (induction rule: device_step.induct) (auto intro: inv_intros)
qed

lemma device_inv_empty: "device_inv []"
  by (simp add: device_inv_def apart_def pending_of_def)

subsection \<open>Collecting a grant\<close>

definition collect :: "ms \<times> string \<Rightarrow> string \<Rightarrow> device_store \<Rightarrow> DeviceRequestRecord option \<times> device_store" where
  "collect a dc m = (case poll_device (fst a) dc (snd a) m of
     (Inl _, m') \<Rightarrow> (None, m') | (Inr r, m') \<Rightarrow> (Some r, m'))"

definition knows :: "device_store \<Rightarrow> string \<Rightarrow> bool" where
  "knows m dc \<longleftrightarrow> look m dc \<noteq> None"

interpretation device_codes: single_use collect knows
  by unfold_locales
     (auto simp: collect_def knows_def poll_device_def Let_def split: option.splits if_splits prod.splits sum.splits)

lemma normalize_append: "normalizeUserCode (s @ t) = normalizeUserCode s @ normalizeUserCode t"
  by (simp add: normalizeUserCode_def js_upper_def)

lemma normalize_Cons: "normalizeUserCode (c # t) = normalizeUserCode [c] @ normalizeUserCode t"
  using normalize_append [of "[c]" t] by simp

lemma alphabet_letters:
  "list_all (\<lambda>c. js_upper_char c = [c] \<and> js_upper_char (js_lower_char c) = [c]) USER_CODE_ALPHABET"
  by code_simp

lemma pending_not_one_slip:
  assumes inv: "device_inv m" and "look m k = Some r" "look m j = Some q" "k \<noteq> j"
    and "dv_status r = DevPending" "dv_status q = DevPending"
  shows "\<not> one_slip (dv_userCode r) (dv_userCode q)"
proof -
  let ?R = "\<lambda>r q. differsEnough (dv_userCode q) (dv_userCode r)"
  have ok: "each device_ok m" "apart (pending_of m)" using inv by (simp_all add: device_inv_def)
  then have mem: "r \<in> set (pending_of m)" "q \<in> set (pending_of m)" and ne: "r \<noteq> q"
    and len: "length (dv_userCode r) = length (dv_userCode q)"
    using assms(2-) each_look [OF ok(1) assms(2)] each_look [OF ok(1) assms(3)]
    by (force simp: pending_of_def device_ok_def code_ok_def dest!: map_of_SomeD)+
  have "?R r q \<or> ?R q r"
    using ok(2) mem ne unfolding apart_def by (metis in_set_conv_nth linorder_neqE_nat sorted_wrt_iff_nth_less)
  then have "differsEnough (dv_userCode r) (dv_userCode q)" using differsEnough_sym [OF len] by blast
  then show ?thesis using not_apart_if_slip by blast
qed

subsection \<open>Properties\<close>

text \<open>
  C17. The live set of pairing codes. In every reachable state at most 64 requests are pending and
  at most 8 from one known address; every code has eight letters of the alphabet; and no single
  slip of the hand (a wrong key or two neighbours swapped) turns the code of one pending request
  into that of another.
\<close>

theorem pending_codes_apart:
  assumes "device_step\<^sup>*\<^sup>* [] m"
  shows "length (pending_of m) \<le> 64
    \<and> length (filter (\<lambda>r. dv_ip r = Some ip) (pending_of m)) \<le> 8
    \<and> (\<forall>r \<in> set (vals m). length (dv_userCode r) = 8 \<and> set (dv_userCode r) \<subseteq> set USER_CODE_ALPHABET)
    \<and> (\<forall>k j r q. look m k = Some r \<and> look m j = Some q \<and> k \<noteq> j
         \<and> dv_status r = DevPending \<and> dv_status q = DevPending \<longrightarrow>
         \<not> one_slip (dv_userCode r) (dv_userCode q))"
proof -
  have inv: "device_inv m" by (rule devices.run_inv [OF assms device_inv_empty])
  then have "\<forall>r \<in> set (vals m). length (dv_userCode r) = 8 \<and> set (dv_userCode r) \<subseteq> set USER_CODE_ALPHABET"
    by (fastforce simp: device_inv_def each_def device_ok_def code_ok_def USER_CODE_LENGTH_def)
  with inv pending_not_one_slip [OF inv] show ?thesis
    by (auto simp: device_inv_def MAX_PENDING_def MAX_PENDING_PER_IP_def simp del: map_of_eq_Some_iff)
qed

text \<open>
  C16. A mistyped code can only miss. Whoever means the pending request \<open>r\<close> and types, in any of
  the accepted spellings, a code one slip away from its code finds no request to approve, and
  answers none: not their own and not another device's.
\<close>

theorem mistyped_code_misses:
  assumes "device_step\<^sup>*\<^sup>* [] m" "look m k = Some r" "dv_status r = DevPending"
    and "one_slip (dv_userCode r) (normalizeUserCode typed)" "normalizeUserCode typed \<noteq> dv_userCode r"
  shows "fst (findPending now typed m) = None
    \<and> resolve_device now typed approve userId m = (None, prune_devices now m)"
proof -
  have inv: "device_inv m" by (rule devices.run_inv [OF assms(1) device_inv_empty])
  have "fst (findPending now typed m) = None"
  proof (rule ccontr)
    assume "fst (findPending now typed m) \<noteq> None"
    then obtain q where "findPending now typed m = (Some q, prune_devices now m)"
      using findPending_Some by (metis not_None_eq prod.collapse)
    with findPending_Some have q: "q \<in> set (pending_of (prune_devices now m))"
      "dv_userCode q = normalizeUserCode typed" by blast+
    from q(1) have "q \<in> set (pending_of m)" by (simp add: prune_devices_def pending_drop)
    then obtain j where j: "look m j = Some q" "dv_status q = DevPending"
      using inv by (auto simp: device_inv_def each_def pending_of_def)
    show False
    proof (cases "k = j")
      case True then show False using j assms(2,5) q(2) by simp
    next
      case False
      then show False using pending_not_one_slip [OF inv assms(2) j(1) _ assms(3) j(2)] assms(4) q(2) by simp
    qed
  qed
  moreover have "snd (findPending now typed m) = prune_devices now m"
    by (simp add: findPending_def Let_def)
  ultimately show ?thesis by (simp add: resolve_device_def split_def prod.expand)
qed

text \<open>
  Typing a displayed code. The displayed form, with or without its dash, in upper or lower
  case, is read as the code that was generated, and a character that upper-cases to nothing in
  the alphabet (a dash, a blank) is ignored wherever it stands.
\<close>

theorem typed_forms_agree:
  assumes "code_ok code"
  shows "normalizeUserCode (formatUserCode code) = code
    \<and> normalizeUserCode code = code
    \<and> normalizeUserCode (map js_lower_char (formatUserCode code)) = code
    \<and> (set (js_upper_char c) \<inter> set USER_CODE_ALPHABET = {} \<longrightarrow>
         normalizeUserCode (xs @ c # ys) = normalizeUserCode (xs @ ys))"
proof -
  have up: "normalizeUserCode s = s" if "set s \<subseteq> set USER_CODE_ALPHABET" for s
    using that alphabet_letters by (induction s) (auto simp: normalizeUserCode_def js_upper_def list_all_iff)
  have low: "normalizeUserCode (map js_lower_char s) = s" if "set s \<subseteq> set USER_CODE_ALPHABET" for s
    using that alphabet_letters by (induction s) (auto simp: normalizeUserCode_def js_upper_def list_all_iff)
  have dash: "normalizeUserCode ''-'' = []" "js_lower_char CHR ''-'' = CHR ''-''" by code_simp+
  have sub: "set code \<subseteq> set USER_CODE_ALPHABET" "set (take 4 code) \<subseteq> set USER_CODE_ALPHABET"
    "set (drop 4 code) \<subseteq> set USER_CODE_ALPHABET"
    using assms set_take_subset set_drop_subset by (fastforce simp: code_ok_def)+
  have "normalizeUserCode (xs @ c # ys) = normalizeUserCode (xs @ ys)"
    if "set (js_upper_char c) \<inter> set USER_CODE_ALPHABET = {}"
    using that by (auto simp: normalizeUserCode_def js_upper_def filter_empty_conv)
  then show ?thesis
    using up [OF sub(1)] up [OF sub(2)] up [OF sub(3)] low [OF sub(2)] low [OF sub(3)] dash
      normalize_Cons [of "CHR ''-''" "drop 4 code"] normalize_Cons [of "CHR ''-''" "map js_lower_char (drop 4 code)"]
    by (simp add: formatUserCode_def normalize_append)
qed

text \<open>
  C18. Collecting a grant. A poll succeeds only for the client that opened the request, with the
  request approved by a named user, unexpired, and not polled within the last 4.5 seconds; and
  whatever polls follow, from anyone and for any codes, none collects that grant again.
\<close>

theorem device_grant_collected_once:
  assumes "poll_device now dc clientId m = (Inr r, m')" "device_inv m"
  shows "(\<exists>q. look m dc = Some q \<and> dv_clientId q = clientId \<and> dv_status q = DevApproved
        \<and> dv_userId q = dv_userId r \<and> dv_userId r \<noteq> None \<and> now \<le> dv_expiresAt q
        \<and> now - dv_lastPolledAt q \<ge> 4500 \<and> dv_scope q = dv_scope r)
    \<and> fst (collect later dc (fold (\<lambda>(b, j). snd \<circ> collect b j) polls m')) = None
    \<and> fst (poll_device now' dc clientId' m') = Inl InvalidDeviceCode"
proof -
  have c: "collect (now, clientId) dc m = (Some r, m')" by (simp add: collect_def assms(1))
  from assms(1) obtain q where q: "look m dc = Some q" "dv_status q \<noteq> DevDenied" "dv_status q \<noteq> DevPending"
    "dv_clientId q = clientId" "now \<le> dv_expiresAt q" "now - dv_lastPolledAt q \<ge> 4500"
    "dv_userId q \<noteq> None" "r = q\<lparr>dv_lastPolledAt := now\<rparr>" "m' = del dc (put dc r m)"
    by (auto simp: poll_device_def Let_def POLL_INTERVAL_S_def POLL_GRACE_MS_def not_less
        split: option.splits if_splits)
  have "dv_status q = DevApproved" using q(2,3) by (cases "dv_status q") auto
  with q device_codes.once [of "(now, clientId)" dc m r later polls] c show ?thesis
    by (simp add: poll_device_def)
qed

text \<open>Concrete runs: one television pairs.\<close>

definition demo_devices :: device_store where
  "demo_devices = snd (request_device 0 ''dc1'' (\<lambda>_ i. i) ''tv'' ''openid'' (Some ''10.0.0.9'') None [])"

lemma demo_devices_run: "device_step\<^sup>*\<^sup>* [] demo_devices"
proof -
  have "device_step [] (snd (request_device 0 ''dc1'' (\<lambda>_ i. min i 19) ''tv'' ''openid'' (Some ''10.0.0.9'') None []))"
    by (rule device_step.request) (simp_all add: USER_CODE_ALPHABET_def)
  moreover have "snd (request_device 0 ''dc1'' (\<lambda>_ i. min i 19) ''tv'' ''openid'' (Some ''10.0.0.9'') None [])
      = demo_devices"
    by code_simp
  ultimately show ?thesis by auto
qed

lemma demo_devices_eq:
  "demo_devices = [(''dc1'', \<lparr>dv_deviceCode = ''dc1'', dv_userCode = ''BCDFGHJK'', dv_clientId = ''tv'',
     dv_scope = ''openid'', dv_ip = Some ''10.0.0.9'', dv_userAgent = None, dv_createdAt = 0,
     dv_expiresAt = 300000, dv_status = DevPending, dv_userId = None, dv_approvedAt = None,
     dv_lastPolledAt = 0\<rparr>)]"
  by code_simp

theorem pending_codes_apart_witness:
  "length (pending_of demo_devices) \<le> 64 \<and> demo_devices \<noteq> []"
  using pending_codes_apart [OF demo_devices_run, of "[]"] by (simp add: demo_devices_eq)

theorem mistyped_code_misses_witness:
  "fst (findPending 1 ''bdcf-ghjk'' demo_devices) = None
   \<and> fst (findPending 1 ''bcdf-ghjk'' demo_devices) \<noteq> None"
proof -
  have n: "normalizeUserCode ''bdcf-ghjk'' = ''BDCFGHJK''" by code_simp
  obtain r where r: "look demo_devices ''dc1'' = Some r" "dv_status r = DevPending" "dv_userCode r = ''BCDFGHJK''"
    by (simp add: demo_devices_eq)
  have "one_slip (dv_userCode r) (normalizeUserCode ''bdcf-ghjk'')"
    unfolding n r one_slip_def by (rule disjI2, rule exI [of _ 1]) simp
  from mistyped_code_misses [OF demo_devices_run r(1,2) this, of 1 True "''u1''"] r(3) n
  have "fst (findPending 1 ''bdcf-ghjk'' demo_devices) = None" by simp
  moreover have "fst (findPending 1 ''bcdf-ghjk'' demo_devices) \<noteq> None" by code_simp
  ultimately show ?thesis by blast
qed

theorem typed_forms_agree_witness: "normalizeUserCode (formatUserCode ''BCDFGHJK'') = ''BCDFGHJK''"
proof -
  have "code_ok ''BCDFGHJK''" by code_simp
  from typed_forms_agree [OF this, of undefined] show ?thesis by blast
qed

theorem device_grant_collected_once_witness:
  "\<exists>m' r. poll_device 9000 ''dc1'' ''tv'' (snd (resolve_device 100 ''bcdf ghjk'' True ''u1'' demo_devices)) = (Inr r, m')
     \<and> dv_userId r = Some ''u1'' \<and> fst (poll_device 20000 ''dc1'' ''tv'' m') = Inl InvalidDeviceCode"
proof -
  let ?m = "snd (resolve_device 100 ''bcdf ghjk'' True ''u1'' demo_devices)"
  have inv: "device_inv ?m"
    by (rule resolve_inv, rule devices.run_inv [OF demo_devices_run device_inv_empty])
  have "case poll_device 9000 ''dc1'' ''tv'' ?m of (Inr r, m') \<Rightarrow> dv_userId r = Some ''u1'' | _ \<Rightarrow> False"
    by code_simp
  then obtain r m' where p: "poll_device 9000 ''dc1'' ''tv'' ?m = (Inr r, m')" "dv_userId r = Some ''u1''"
    by (auto split: prod.splits sum.splits)
  with device_grant_collected_once [OF p(1) inv, of "(0, [])" "[]" 20000 "''tv''"] show ?thesis by blast
qed

end
