(* ===== verification/Fleet.thy ===== *)
theory Fleet
  imports Host_Agent
begin

text \<open>
  The registry of hosts (\<open>apps/server/src/fleet.ts\<close>): every connection of a machine is kept, the
  one of highest rank acts, the newest on a tie. Handles are shared mutable objects, so they
  live in a heap and the registry holds references.
\<close>

subsection \<open>The registry\<close>

record AgentRecord =
  ar_id :: string
  ar_name :: string
  ar_info :: "SystemInfo option"
  ar_mode :: "AgentMode option"
  ar_lastSeenAt :: ms

record ServerEntry =
  se_id :: string
  se_name :: string
  se_status :: ServerStatus

record 'p fleet =
  fl_heap :: "nat \<Rightarrow> 'p host_agent"
  fl_connections :: "(string, nat list) jsmap"
  fl_known :: "(string, AgentRecord) jsmap"
  fl_file :: "(string, AgentRecord) jsmap option"
  fl_sent :: "ServerEntry list list"

datatype fleet_error = UnknownServer string | StillConnected

fun MODE_RANK :: "AgentMode \<Rightarrow> nat" where
  "MODE_RANK Live = 1"
| "MODE_RANK Installed = 2"
| "MODE_RANK Embedded = 3"

definition rank_of :: "(nat \<Rightarrow> 'p host_agent) \<Rightarrow> nat \<Rightarrow> nat" where
  "rank_of heap a = MODE_RANK (ha_mode (heap a))"

fun active_loop :: "(nat \<Rightarrow> nat) \<Rightarrow> nat option \<Rightarrow> nat list \<Rightarrow> nat option" where
  "active_loop rank best [] = best"
| "active_loop rank best (a # as) =
     active_loop rank (case best of None \<Rightarrow> Some a | Some b \<Rightarrow> if rank a \<ge> rank b then Some a else Some b) as"

definition activeOf :: "(nat \<Rightarrow> 'p host_agent) \<Rightarrow> nat list \<Rightarrow> nat option" where
  "activeOf heap refs = active_loop (rank_of heap) None refs"

definition reconcile :: "nat list \<Rightarrow> (nat \<Rightarrow> 'p host_agent) \<Rightarrow> nat option \<times> (nat \<Rightarrow> 'p host_agent)" where
  "reconcile refs heap =
     (let active = activeOf heap refs
      in (active, fold (\<lambda>a h. h(a := (if Some a = active then activate (h a) else deactivate (h a)))) refs heap))"

definition fleet_get :: "string \<Rightarrow> 'p fleet \<Rightarrow> fleet_error + nat" where
  "fleet_get serverId fl =
     (case (case look (fl_connections fl) serverId of None \<Rightarrow> None | Some refs \<Rightarrow> activeOf (fl_heap fl) refs) of
        None \<Rightarrow> Inl (UnknownServer serverId)
      | Some a \<Rightarrow> Inr a)"

definition persistState :: "'p fleet \<Rightarrow> 'p fleet" where
  "persistState fl = fl\<lparr>fl_file := Some (fl_known fl)\<rparr>"

definition recordAgent :: "ms \<Rightarrow> nat \<Rightarrow> 'p fleet \<Rightarrow> 'p fleet" where
  "recordAgent now a fl =
     (let h = fl_heap fl a
      in fl\<lparr>fl_known := put (ha_id h) \<lparr>ar_id = ha_id h, ar_name = ha_name h, ar_info = ss_info (status h),
              ar_mode = Some (ha_mode h), ar_lastSeenAt = now\<rparr> (fl_known fl)\<rparr>)"

text \<open>\<open>entries\<close>: the connected machines with their standbys, then the known ones that are offline.\<close>

definition standby_of :: "'p host_agent \<Rightarrow> string \<times> AgentMode \<times> string option" where
  "standby_of h = (ha_name h, ha_mode h, case ss_info (status h) of None \<Rightarrow> None | Some i \<Rightarrow> si_agentVersion i)"

definition online_entry :: "'p fleet \<Rightarrow> string \<times> nat list \<Rightarrow> ServerEntry list" where
  "online_entry fl c = (case c of (i, refs) \<Rightarrow>
     (case activeOf (fl_heap fl) refs of
        None \<Rightarrow> []
      | Some a \<Rightarrow>
          (let standbys = map (\<lambda>b. standby_of (fl_heap fl b)) (filter (\<lambda>b. b \<noteq> a) refs)
           in [\<lparr>se_id = i, se_name = ha_name (fl_heap fl a),
                se_status = (status (fl_heap fl a))\<lparr>ss_standbys := (if standbys = [] then None else Some standbys)\<rparr>\<rparr>])))"

definition offline_entry :: "string \<Rightarrow> AgentRecord \<Rightarrow> ServerEntry" where
  "offline_entry i r =
     \<lparr>se_id = i, se_name = ar_name r,
      se_status = \<lparr>ss_serverId = i, ss_online = False, ss_info = ar_info r, ss_mode = ar_mode r, ss_remoteIp = None,
                   ss_lastSeenAt = Some (ar_lastSeenAt r), ss_standbys = None, ss_hostCapabilities = None,
                   ss_hostCapabilitiesAt = None\<rparr>\<rparr>"

definition fleet_entries :: "'p fleet \<Rightarrow> ServerEntry list" where
  "fleet_entries fl =
     concat (map (online_entry fl) (fl_connections fl))
     @ map (\<lambda>(i, r). offline_entry i r) (filter (\<lambda>(i, _). look (fl_connections fl) i = None) (fl_known fl))"

definition metricsHistory :: "'p fleet \<Rightarrow> (string, 'p list) jsmap" where
  "metricsHistory fl =
     concat (map (\<lambda>(i, refs). case activeOf (fl_heap fl) refs of
        None \<Rightarrow> [] | Some a \<Rightarrow> [(i, ha_history (fl_heap fl a))]) (fl_connections fl))"

definition notifyServersChanged :: "'p fleet \<Rightarrow> 'p fleet" where
  "notifyServersChanged fl = fl\<lparr>fl_sent := fl_sent fl @ [fleet_entries fl]\<rparr>"

definition connections_of :: "string \<Rightarrow> 'p fleet \<Rightarrow> nat list" where
  "connections_of i fl = (case look (fl_connections fl) i of None \<Rightarrow> [] | Some refs \<Rightarrow> refs)"

definition register_agent :: "ms \<Rightarrow> nat \<Rightarrow> 'p fleet \<Rightarrow> bool \<times> 'p fleet" where
  "register_agent now a fl =
     (let i = ha_id (fl_heap fl a);
          refs = connections_of i fl;
          refs' = (if a \<in> set refs then refs else refs @ [a])
      in case reconcile refs' (fl_heap fl) of (active, heap) \<Rightarrow>
           (let fl1 = fl\<lparr>fl_connections := put i refs' (fl_connections fl), fl_heap := heap\<rparr>;
                fl2 = (case active of None \<Rightarrow> fl1 | Some b \<Rightarrow> recordAgent now b fl1)
            in (active = Some a, notifyServersChanged (persistState fl2))))"

definition deregister_agent :: "ms \<Rightarrow> nat \<Rightarrow> 'p fleet \<Rightarrow> 'p fleet" where
  "deregister_agent now a fl =
     (let i = ha_id (fl_heap fl a)
      in case look (fl_connections fl) i of
           None \<Rightarrow> fl
         | Some refs \<Rightarrow>
             if a \<notin> set refs then fl
             else (let refs' = remove1 a refs;
                       fl1 = (if refs' = []
                          then fl\<lparr>fl_connections := del i (fl_connections fl),
                                  fl_known := (case look (fl_known fl) i of
                                      None \<Rightarrow> fl_known fl
                                    | Some r \<Rightarrow> put i (r\<lparr>ar_lastSeenAt := now\<rparr>) (fl_known fl))\<rparr>
                          else (case reconcile refs' (fl_heap fl) of (active, heap) \<Rightarrow>
                            (let fl0 = fl\<lparr>fl_connections := put i refs' (fl_connections fl), fl_heap := heap\<rparr>
                             in case active of None \<Rightarrow> fl0 | Some b \<Rightarrow> recordAgent now b fl0)))
                   in notifyServersChanged (persistState fl1)))"

definition remove_server :: "string \<Rightarrow> 'p fleet \<Rightarrow> (fleet_error + unit) \<times> 'p fleet" where
  "remove_server serverId fl =
     (if look (fl_connections fl) serverId \<noteq> None then (Inl StillConnected, fl)
      else if look (fl_known fl) serverId = None then (Inl (UnknownServer serverId), fl)
      else (Inr (), notifyServersChanged (persistState (fl\<lparr>fl_known := del serverId (fl_known fl)\<rparr>))))"

definition init_fleet :: "(string, AgentRecord) jsmap option \<Rightarrow> (nat \<Rightarrow> 'p host_agent) \<Rightarrow> nat \<Rightarrow> ms \<Rightarrow> 'p fleet" where
  "init_fleet file heap local now =
     persistState (recordAgent now local
       \<lparr>fl_heap = heap, fl_connections = [(ha_id (heap local), [local])],
        fl_known = foldl (\<lambda>m r. if ar_id r = ''local'' then m else put (ar_id r) r m) [] (vals (read_file file)),
        fl_file = file, fl_sent = []\<rparr>)"

subsection \<open>The acting connection\<close>

text \<open>The last of the highest: nothing before it outranks it and everything behind it ranks lower.\<close>

definition newest_highest :: "(nat \<Rightarrow> nat) \<Rightarrow> nat list \<Rightarrow> nat \<Rightarrow> bool" where
  "newest_highest rank refs r \<longleftrightarrow>
     (\<exists>xs ys. refs = xs @ r # ys \<and> (\<forall>x\<in>set xs. rank x \<le> rank r) \<and> (\<forall>y\<in>set ys. rank y < rank r))"

lemma newest_highest_snoc:
  "newest_highest rank refs b \<Longrightarrow> rank a \<ge> rank b \<Longrightarrow> newest_highest rank (refs @ [a]) a"
  "newest_highest rank refs b \<Longrightarrow> rank a < rank b \<Longrightarrow> newest_highest rank (refs @ [a]) b"
proof -
  assume n: "newest_highest rank refs b"
  then obtain xs ys where r: "refs = xs @ b # ys" "\<forall>x\<in>set xs. rank x \<le> rank b" "\<forall>y\<in>set ys. rank y < rank b"
    by (auto simp: newest_highest_def)
  show "newest_highest rank (refs @ [a]) a" if "rank a \<ge> rank b"
    unfolding newest_highest_def by (intro exI [of _ refs] exI [of _ "[]"]) (use r that in force)
  show "newest_highest rank (refs @ [a]) b" if "rank a < rank b"
    unfolding newest_highest_def by (intro exI [of _ xs] exI [of _ "ys @ [a]"]) (use r that in auto)
qed

lemma active_loop_spec:
  "newest_highest rank refs b \<Longrightarrow> \<exists>r. active_loop rank (Some b) as = Some r \<and> newest_highest rank (refs @ as) r"
proof (induction as arbitrary: refs b)
  case (Cons a as)
  show ?case
  proof (cases "rank a \<ge> rank b")
    case True
    then show ?thesis using Cons.IH [OF newest_highest_snoc(1) [OF Cons.prems True]] by simp
  next
    case False
    then show ?thesis using Cons.IH [OF newest_highest_snoc(2) [OF Cons.prems, of a]] by simp
  qed
qed simp

lemma activeOf_spec: "refs \<noteq> [] \<Longrightarrow> \<exists>r. activeOf heap refs = Some r \<and> newest_highest (rank_of heap) refs r"
proof (cases refs)
  case (Cons a as)
  have "newest_highest (rank_of heap) [a] a"
    unfolding newest_highest_def by (intro exI [of _ "[]"]) simp
  from active_loop_spec [OF this, of as] Cons show ?thesis by (simp add: activeOf_def)
qed simp

lemma newest_highest_in: "newest_highest rank refs r \<Longrightarrow> r \<in> set refs"
  by (auto simp: newest_highest_def)

lemma active_loop_cong:
  "\<forall>a. a \<in> set as \<or> best = Some a \<longrightarrow> rank a = rank' a \<Longrightarrow>
   active_loop rank best as = active_loop rank' best as"
  by (induction rank best as rule: active_loop.induct) (auto split: option.split)

lemma activeOf_cong: "(\<And>a. a \<in> set refs \<Longrightarrow> ha_mode (heap a) = ha_mode (heap' a)) \<Longrightarrow>
    activeOf heap refs = activeOf heap' refs"
  unfolding activeOf_def by (rule active_loop_cong) (simp add: rank_of_def)

text \<open>What holds of the connections of one machine.\<close>

definition group_ok :: "(nat \<Rightarrow> 'p host_agent) \<Rightarrow> string \<Rightarrow> nat list \<Rightarrow> bool" where
  "group_ok heap i refs \<longleftrightarrow> refs \<noteq> [] \<and> distinct refs
     \<and> (\<forall>a\<in>set refs. ha_id (heap a) = i \<and> (ha_active (heap a) \<longleftrightarrow> activeOf heap refs = Some a))"

definition same_handle :: "'p host_agent \<Rightarrow> 'p host_agent \<Rightarrow> bool" where
  "same_handle h h' \<longleftrightarrow> ha_id h' = ha_id h \<and> ha_mode h' = ha_mode h \<and> ha_active h' = ha_active h"

lemma group_ok_cong:
  "group_ok heap i refs \<Longrightarrow> (\<And>a. a \<in> set refs \<Longrightarrow> same_handle (heap a) (heap' a)) \<Longrightarrow> group_ok heap' i refs"
  using activeOf_cong [of refs heap heap'] by (auto simp: group_ok_def same_handle_def)

lemma reconcile_heap:
  assumes "reconcile refs heap = (active, heap')"
  shows "active = activeOf heap refs"
    and "heap' a = (if a \<in> set refs then (heap a)\<lparr>ha_active := (Some a = active)\<rparr> else heap a)"
proof -
  show act: "active = activeOf heap refs" using assms by (simp add: reconcile_def Let_def)
  have "fold (\<lambda>a h. h(a := (if Some a = active then activate (h a) else deactivate (h a)))) refs heap a
      = (if a \<in> set refs then (heap a)\<lparr>ha_active := (Some a = active)\<rparr> else heap a)"
    by (induction refs arbitrary: heap) (auto simp: activate_def deactivate_def)
  then show "heap' a = (if a \<in> set refs then (heap a)\<lparr>ha_active := (Some a = active)\<rparr> else heap a)"
    using assms act by (auto simp: reconcile_def Let_def)
qed

lemma reconcile_ok:
  assumes "reconcile refs heap = (active, heap')" "refs \<noteq> []" "distinct refs" "\<And>a. a \<in> set refs \<Longrightarrow> ha_id (heap a) = i"
  shows "group_ok heap' i refs" and "activeOf heap' refs = active"
proof -
  note h = reconcile_heap [OF assms(1)]
  have m: "activeOf heap' refs = activeOf heap refs" by (rule activeOf_cong) (simp add: h)
  then show "activeOf heap' refs = active" by (simp add: h)
  show "group_ok heap' i refs" using assms m by (auto simp: group_ok_def h)
qed

subsection \<open>Histories\<close>

text \<open>
  One step of the fleet: a node connects with a new handle, a connection ends, an offline
  machine is forgotten, or a handle works on its own (messages, requests, loss of its socket).
\<close>

definition referenced :: "'p fleet \<Rightarrow> nat set" where
  "referenced fl = (\<Union>refs\<in>set (vals (fl_connections fl)). set refs)"

inductive fleet_step :: "'p fleet \<Rightarrow> 'p fleet \<Rightarrow> bool" where
  connect: "r \<notin> referenced fl \<Longrightarrow>
     fleet_step fl (snd (register_agent now r (fl\<lparr>fl_heap := (fl_heap fl)(r := h)\<rparr>)))"
| leave: "fleet_step fl (deregister_agent now r fl)"
| forget: "fleet_step fl (snd (remove_server i fl))"
| work: "agent_step (issued, fl_heap fl r, log) (issued', h, log') \<Longrightarrow> ha_active h = ha_active (fl_heap fl r) \<Longrightarrow>
     fleet_step fl (fl\<lparr>fl_heap := (fl_heap fl)(r := h)\<rparr>)"

definition fleet_ok :: "'p fleet \<Rightarrow> bool" where
  "fleet_ok fl \<longleftrightarrow> each (group_ok (fl_heap fl)) (fl_connections fl)"

lemma fleet_ok_look: "fleet_ok fl \<Longrightarrow> look (fl_connections fl) i = Some refs \<Longrightarrow> group_ok (fl_heap fl) i refs"
  unfolding fleet_ok_def by (rule each_look)

lemma recordAgent_simps [simp]:
  "fl_heap (recordAgent now a fl) = fl_heap fl" "fl_connections (recordAgent now a fl) = fl_connections fl"
  by (simp_all add: recordAgent_def Let_def)

lemma notify_simps [simp]:
  "fl_heap (notifyServersChanged fl) = fl_heap fl" "fl_connections (notifyServersChanged fl) = fl_connections fl"
  "fl_heap (persistState fl) = fl_heap fl" "fl_connections (persistState fl) = fl_connections fl"
  by (simp_all add: notifyServersChanged_def persistState_def)

text \<open>Setting the connections of one machine and reconciling them leaves the others alone.\<close>

lemma regroup_ok:
  assumes "fleet_ok fl" "reconcile refs (fl_heap fl) = (active, heap)" "refs \<noteq> []" "distinct refs"
    and "\<And>a. a \<in> set refs \<Longrightarrow> ha_id (fl_heap fl a) = i"
  shows "each (group_ok heap) (put i refs (fl_connections fl))"
proof -
  have "group_ok heap j rs" if "(j, rs) \<in> set (put i refs (fl_connections fl))" for j rs
  proof (cases "j = i")
    case True
    have "unique_keys (put i refs (fl_connections fl))" using assms(1) by (simp add: fleet_ok_def each_keys)
    with that True have "rs = refs" by (metis in_set_look look_put option.inject)
    then show ?thesis using reconcile_ok(1) [OF assms(2-5)] True by blast
  next
    case False
    with that assms(1) have g: "group_ok (fl_heap fl) j rs"
      by (auto simp: fleet_ok_def each_def set_put)
    then have "a \<notin> set refs" if "a \<in> set rs" for a using that assms(5) False by (auto simp: group_ok_def)
    then show ?thesis
      by (intro group_ok_cong [OF g]) (simp add: reconcile_heap(2) [OF assms(2)] same_handle_def)
  qed
  then show ?thesis using assms(1) by (auto simp: each_def fleet_ok_def)
qed

lemma fleet_ok_heap:
  "fleet_ok fl \<Longrightarrow> (\<And>a. a \<in> referenced fl \<Longrightarrow> same_handle (fl_heap fl a) (heap a)) \<Longrightarrow> fleet_ok (fl\<lparr>fl_heap := heap\<rparr>)"
  by (fastforce simp: fleet_ok_def each_def referenced_def intro: group_ok_cong)

lemma register_ok:
  assumes "fleet_ok fl" "r \<notin> referenced fl"
  shows "fleet_ok (snd (register_agent now r (fl\<lparr>fl_heap := (fl_heap fl)(r := h)\<rparr>)))"
proof -
  let ?fl = "fl\<lparr>fl_heap := (fl_heap fl)(r := h)\<rparr>" and ?i = "ha_id h"
  define refs where "refs = connections_of ?i fl"
  have refs: "connections_of ?i ?fl = refs" by (simp add: refs_def connections_of_def)
  have ok: "fleet_ok ?fl" by (rule fleet_ok_heap [OF assms(1)]) (use assms(2) in \<open>auto simp: same_handle_def\<close>)
  have "r \<notin> set rs" if "look (fl_connections fl) ?i = Some rs" for rs
    using map_of_SomeD [OF that] assms(2) by (force simp: referenced_def)
  then have new: "r \<notin> set refs" by (simp add: refs_def connections_of_def split: option.split)
  have old: "refs = [] \<or> group_ok (fl_heap ?fl) ?i refs"
    using fleet_ok_look [OF ok, of ?i] by (cases "look (fl_connections fl) ?i") (simp_all add: refs_def connections_of_def)
  have ids: "ha_id (fl_heap ?fl a) = ?i" if "a \<in> set (refs @ [r])" for a
    using that old by (auto simp: group_ok_def)
  have dist: "distinct (refs @ [r])" using new old by (auto simp: group_ok_def)
  obtain active heap where rec: "reconcile (refs @ [r]) (fl_heap ?fl) = (active, heap)" by fastforce
  have "each (group_ok heap) (put ?i (refs @ [r]) (fl_connections ?fl))"
    by (rule regroup_ok [OF ok rec _ dist ids]) simp
  moreover have "snd (register_agent now r ?fl) = notifyServersChanged (persistState
      (case active of None \<Rightarrow> fl\<lparr>fl_connections := put ?i (refs @ [r]) (fl_connections fl), fl_heap := heap\<rparr>
       | Some b \<Rightarrow> recordAgent now b
           (fl\<lparr>fl_connections := put ?i (refs @ [r]) (fl_connections fl), fl_heap := heap\<rparr>)))"
    using new rec refs by (cases active) (simp_all add: register_agent_def Let_def)
  ultimately show ?thesis by (simp add: fleet_ok_def split: option.split)
qed

lemma deregister_ok:
  assumes "fleet_ok fl"
  shows "fleet_ok (deregister_agent now r fl)"
proof (cases "look (fl_connections fl) (ha_id (fl_heap fl r))")
  case (Some refs)
  let ?i = "ha_id (fl_heap fl r)"
  have g: "group_ok (fl_heap fl) ?i refs" by (rule fleet_ok_look [OF assms Some])
  obtain active heap where rec: "reconcile (remove1 r refs) (fl_heap fl) = (active, heap)" by fastforce
  have "each (group_ok heap) (put ?i (remove1 r refs) (fl_connections fl))" if "remove1 r refs \<noteq> []"
    by (rule regroup_ok [OF assms rec that]) (use g in \<open>auto simp: group_ok_def dest: notin_set_remove1\<close>)
  moreover have "each (group_ok (fl_heap fl)) (del ?i (fl_connections fl))"
    using assms by (auto simp: fleet_ok_def)
  ultimately show ?thesis
    using assms rec Some by (simp add: deregister_agent_def Let_def fleet_ok_def split: option.split)
qed (use assms in \<open>simp add: deregister_agent_def\<close>)

lemma fleet_step_ok: "fleet_step fl fl' \<Longrightarrow> fleet_ok fl \<Longrightarrow> fleet_ok fl'"
proof (induction rule: fleet_step.induct)
  case (work issued fl r log issued' h log')
  then have "same_handle (fl_heap fl r) h" using agent_step_same [OF work(1)] by (simp add: same_handle_def same_host_def)
  then show ?case by (intro fleet_ok_heap [OF work(3)]) (simp add: same_handle_def)
next
  case (forget fl i)
  then show ?case by (simp add: remove_server_def fleet_ok_def)
qed (auto intro: register_ok deregister_ok)

interpretation fleet: invariant_store fleet_ok fleet_step
  by unfold_locales (rule fleet_step_ok)

lemma init_fleet_ok: "ha_active (heap local) \<Longrightarrow> fleet_ok (init_fleet file heap local now)"
  by (simp add: init_fleet_def fleet_ok_def each_def group_ok_def activeOf_def)

text \<open>What the registry refers to, and what its operations do to the handles.\<close>

lemma in_connections_of:
  assumes "unique_keys (fl_connections fl)"
  shows "a \<in> set (connections_of i fl) \<longleftrightarrow> (\<exists>refs. (i, refs) \<in> set (fl_connections fl) \<and> a \<in> set refs)"
proof (cases "look (fl_connections fl) i")
  case None
  then have "(i, refs) \<notin> set (fl_connections fl)" for refs by (force simp: map_of_eq_None_iff)
  with None show ?thesis by (simp add: connections_of_def)
next
  case (Some refs)
  then have "(i, rs) \<in> set (fl_connections fl) \<longleftrightarrow> rs = refs" for rs
    using assms by (metis map_of_eq_Some_iff option.inject)
  with Some show ?thesis by (simp add: connections_of_def del: map_of_eq_Some_iff)
qed

lemma referenced_iff: "a \<in> referenced fl \<longleftrightarrow> (\<exists>j refs. (j, refs) \<in> set (fl_connections fl) \<and> a \<in> set refs)"
  by (force simp: referenced_def)

lemma ex_key_split: "(\<exists>j v. (j, v) \<in> m \<and> q v) \<longleftrightarrow> (\<exists>v. (i, v) \<in> m \<and> q v) \<or> (\<exists>j v. j \<noteq> i \<and> (j, v) \<in> m \<and> q v)"
  by metis

lemma ex_put: "unique_keys m \<Longrightarrow>
    (\<exists>j v. (j, v) \<in> set (put i x m) \<and> q v) \<longleftrightarrow> q x \<or> (\<exists>j v. j \<noteq> i \<and> (j, v) \<in> set m \<and> q v)"
  by (simp add: set_put) metis

lemma ex_del: "(\<exists>j v. (j, v) \<in> set (del i m) \<and> q v) \<longleftrightarrow> (\<exists>j v. j \<noteq> i \<and> (j, v) \<in> set m \<and> q v)"
  by (simp add: set_del) metis

lemma referenced_split:
  assumes "unique_keys (fl_connections fl)"
  shows "a \<in> referenced fl \<longleftrightarrow>
    a \<in> set (connections_of i fl) \<or> (\<exists>j refs. j \<noteq> i \<and> (j, refs) \<in> set (fl_connections fl) \<and> a \<in> set refs)"
  unfolding referenced_iff in_connections_of [OF assms] by (rule ex_key_split)

lemma in_referenced:
  assumes "fleet_ok fl"
  shows "a \<in> referenced fl \<longleftrightarrow> a \<in> set (connections_of (ha_id (fl_heap fl a)) fl)"
proof -
  have u: "unique_keys (fl_connections fl)" using assms by (simp add: fleet_ok_def each_keys)
  have "ha_id (fl_heap fl a) = i" if "(i, refs) \<in> set (fl_connections fl)" "a \<in> set refs" for i refs
    using assms that by (fastforce simp: fleet_ok_def each_def group_ok_def)
  then show ?thesis unfolding referenced_iff in_connections_of [OF u] by blast
qed

lemma reactivated: "h\<lparr>ha_active := ha_active h\<rparr> = h"
  by simp

lemma reconcile_shape: "reconcile refs heap = (active, heap') \<Longrightarrow> \<exists>act. heap' a = (heap a)\<lparr>ha_active := act\<rparr>"
  by (rule exI [of _ "if a \<in> set refs then Some a = active else ha_active (heap a)"])
     (simp add: reconcile_heap(2))

lemma register_connections:
  assumes "r \<notin> set (connections_of i fl)" "i = ha_id (fl_heap fl r)"
  shows "fl_connections (snd (register_agent now r fl)) = put i (connections_of i fl @ [r]) (fl_connections fl)"
    and "\<exists>act. fl_heap (snd (register_agent now r fl)) a = (fl_heap fl a)\<lparr>ha_active := act\<rparr>"
proof -
  obtain active heap where rec: "reconcile (connections_of i fl @ [r]) (fl_heap fl) = (active, heap)" by fastforce
  show "fl_connections (snd (register_agent now r fl)) = put i (connections_of i fl @ [r]) (fl_connections fl)"
    using assms rec by (cases active) (simp_all add: register_agent_def Let_def)
  have "fl_heap (snd (register_agent now r fl)) = heap"
    using assms rec by (cases active) (simp_all add: register_agent_def Let_def)
  then show "\<exists>act. fl_heap (snd (register_agent now r fl)) a = (fl_heap fl a)\<lparr>ha_active := act\<rparr>"
    using reconcile_shape [OF rec] by simp
qed

lemma referenced_register:
  assumes "fleet_ok fl" "r \<notin> referenced fl"
  shows "referenced (snd (register_agent now r (fl\<lparr>fl_heap := (fl_heap fl)(r := h)\<rparr>))) = insert r (referenced fl)"
proof -
  let ?fl = "fl\<lparr>fl_heap := (fl_heap fl)(r := h)\<rparr>" and ?i = "ha_id h"
  have u: "unique_keys (fl_connections fl)" using assms(1) by (simp add: fleet_ok_def each_keys)
  have c: "connections_of ?i ?fl = connections_of ?i fl" by (simp add: connections_of_def)
  have new: "r \<notin> set (connections_of ?i fl)" using assms(2) referenced_split [OF u, of r ?i] by blast
  let ?fl' = "snd (register_agent now r ?fl)"
  have conns: "fl_connections ?fl' = put ?i (connections_of ?i fl @ [r]) (fl_connections fl)"
  proof -
    have i: "?i = ha_id (fl_heap ?fl r)" by simp
    from register_connections(1) [OF _ i, of now, unfolded c, OF new] show ?thesis by simp
  qed
  have "a \<in> referenced ?fl' \<longleftrightarrow> a \<in> insert r (referenced fl)" for a
  proof -
    have "a \<in> referenced ?fl' \<longleftrightarrow> a \<in> set (connections_of ?i fl @ [r])
        \<or> (\<exists>j refs. j \<noteq> ?i \<and> (j, refs) \<in> set (fl_connections fl) \<and> a \<in> set refs)"
      unfolding referenced_iff [of a ?fl'] conns by (rule ex_put [OF u])
    then show ?thesis using referenced_split [OF u, of a ?i] by auto
  qed
  then show ?thesis by blast
qed

lemma deregister_connections:
  assumes "fleet_ok fl" "r \<in> referenced fl" "i = ha_id (fl_heap fl r)"
  shows "fl_connections (deregister_agent now r fl) =
      (if remove1 r (connections_of i fl) = [] then del i (fl_connections fl)
       else put i (remove1 r (connections_of i fl)) (fl_connections fl))"
    and "\<exists>act. fl_heap (deregister_agent now r fl) a = (fl_heap fl a)\<lparr>ha_active := act\<rparr>"
proof -
  have r: "r \<in> set (connections_of i fl)" using assms in_referenced by blast
  then obtain refs where refs: "look (fl_connections fl) i = Some refs" "connections_of i fl = refs"
    by (cases "look (fl_connections fl) i") (auto simp: connections_of_def)
  obtain active heap where rec: "reconcile (remove1 r refs) (fl_heap fl) = (active, heap)" by fastforce
  show "fl_connections (deregister_agent now r fl) =
      (if remove1 r (connections_of i fl) = [] then del i (fl_connections fl)
       else put i (remove1 r (connections_of i fl)) (fl_connections fl))"
    using assms(3) r refs rec by (cases active) (simp_all add: deregister_agent_def Let_def)
  have "fl_heap (deregister_agent now r fl) = (if remove1 r refs = [] then fl_heap fl else heap)"
    using assms(3) r refs rec by (cases active) (simp_all add: deregister_agent_def Let_def)
  then show "\<exists>act. fl_heap (deregister_agent now r fl) a = (fl_heap fl a)\<lparr>ha_active := act\<rparr>"
    using reconcile_shape [OF rec, of a] reactivated [of "fl_heap fl a"] by metis
qed

lemma referenced_deregister:
  assumes "fleet_ok fl" "r \<in> referenced fl"
  shows "referenced (deregister_agent now r fl) = referenced fl - {r}"
proof -
  let ?i = "ha_id (fl_heap fl r)" and ?fl' = "deregister_agent now r fl"
  have u: "unique_keys (fl_connections fl)" using assms(1) by (simp add: fleet_ok_def each_keys)
  have r: "r \<in> set (connections_of ?i fl)" using assms in_referenced by blast
  have d: "distinct (connections_of ?i fl)"
  proof (cases "look (fl_connections fl) ?i")
    case (Some refs)
    with fleet_ok_look [OF assms(1) Some] show ?thesis by (simp add: connections_of_def group_ok_def del: map_of_eq_Some_iff)
  qed (simp add: connections_of_def)
  have others: "r \<notin> set refs" if "(j, refs) \<in> set (fl_connections fl)" "j \<noteq> ?i" for j refs
    using that assms(1) by (fastforce simp: fleet_ok_def each_def group_ok_def)
  have "a \<in> referenced ?fl' \<longleftrightarrow> a \<in> set (remove1 r (connections_of ?i fl))
      \<or> (\<exists>j refs. j \<noteq> ?i \<and> (j, refs) \<in> set (fl_connections fl) \<and> a \<in> set refs)" for a
  proof (cases "remove1 r (connections_of ?i fl) = []")
    case True
    show ?thesis
      unfolding referenced_iff [of a ?fl'] deregister_connections(1) [OF assms refl] True by (simp only: if_True ex_del list.set empty_iff simp_thms)
  next
    case False
    show ?thesis
      unfolding referenced_iff [of a ?fl'] deregister_connections(1) [OF assms refl] if_not_P [OF False]
      by (rule ex_put [OF u])
  qed
  then have "a \<in> referenced ?fl' \<longleftrightarrow> a \<in> referenced fl \<and> a \<noteq> r" for a
    using referenced_split [OF u, of a ?i] d others by auto
  then show ?thesis by blast
qed

text \<open>
  C35. One machine, one acting connection. In every state the fleet reaches, whatever connects,
  disconnects or is forgotten in whatever order, the connections of a machine are distinct and
  carry its id; the one that operations on the machine are sent to is the newest of those with
  the highest rank (an installed agent over a live one, the embedded one over both); and it is
  the only one not demoted, so no metrics of another connection are recorded.
\<close>

theorem one_acting_connection:
  fixes fl :: "'p fleet"
  assumes "fleet_step\<^sup>*\<^sup>* (init_fleet file heap local now) fl" "ha_active (heap local)"
    and "look (fl_connections fl) i = Some refs"
  shows "\<exists>r. fleet_get i fl = Inr r \<and> distinct refs \<and> newest_highest (rank_of (fl_heap fl)) refs r
    \<and> (\<forall>a\<in>set refs. ha_id (fl_heap fl a) = i \<and> (ha_active (fl_heap fl a) \<longleftrightarrow> a = r)
         \<and> (a \<noteq> r \<longrightarrow> receive t (Metrics snapshot) (fl_heap fl a) = (fl_heap fl a, [])))"
proof -
  have "fleet_ok fl" by (rule fleet.run_inv [OF assms(1) init_fleet_ok [of heap, OF assms(2)]])
  then have g: "group_ok (fl_heap fl) i refs" using assms(3) by (rule fleet_ok_look)
  then obtain r where r: "activeOf (fl_heap fl) refs = Some r" "newest_highest (rank_of (fl_heap fl)) refs r"
    using activeOf_spec [of refs "fl_heap fl"] by (auto simp: group_ok_def)
  then have "fleet_get i fl = Inr r" using assms(3) by (simp add: fleet_get_def)
  then show ?thesis using g r by (intro exI [of _ r]) (auto simp: group_ok_def receive_def)
qed

definition demo_heap :: "nat \<Rightarrow> unit host_agent" where
  "demo_heap r = demo_agent\<lparr>ha_id := ''m0'', ha_mode := Embedded\<rparr>"

definition demo_fleet :: "unit fleet" where
  "demo_fleet =
     (let fl0 = init_fleet None demo_heap 0 5;
          fl1 = snd (register_agent 6 1 (fl0\<lparr>fl_heap := (fl_heap fl0)(1 := demo_agent\<lparr>ha_mode := Installed\<rparr>)\<rparr>))
      in snd (register_agent 7 2 (fl1\<lparr>fl_heap := (fl_heap fl1)(2 := demo_agent)\<rparr>)))"

theorem one_acting_connection_witness:
  "look (fl_connections demo_fleet) ''m1'' = Some [1, 2] \<and> fleet_get ''m1'' demo_fleet = Inr 1
   \<and> \<not> ha_active (fl_heap demo_fleet 2)"
proof -
  let ?a = "init_fleet None demo_heap 0 5"
  let ?b = "snd (register_agent 6 1 (?a\<lparr>fl_heap := (fl_heap ?a)(1 := demo_agent\<lparr>ha_mode := Installed\<rparr>)\<rparr>))"
  have a: "fl_connections ?a = [(''m0'', [0])]" by code_simp
  have b: "fl_connections ?b = [(''m0'', [0]), (''m1'', [1])]" by code_simp
  have c: "look (fl_connections demo_fleet) ''m1'' = Some [1, 2]" "fleet_get ''m1'' demo_fleet = Inr 1"
    by code_simp+
  have "fleet_step ?a ?b" by (rule fleet_step.connect) (simp add: referenced_def a)
  moreover have "fleet_step ?b demo_fleet"
    unfolding demo_fleet_def Let_def by (rule fleet_step.connect) (unfold referenced_def b, simp)
  ultimately have run: "fleet_step\<^sup>*\<^sup>* ?a demo_fleet" by simp
  have "ha_active (demo_heap 0)" by code_simp
  from one_acting_connection [OF run this c(1)] c show ?thesis by auto
qed

end
