(* ===== verification/Multipart.thy ===== *)
theory Multipart
  imports Js_Text
begin

text \<open>
  Streaming multipart bodies (\<open>apps/server/src/http/multipart.ts\<close>): the byte cursor over a
  chunked request body, the framing of parts, and the parser that builds a handler's argument
  from the first part while the binary parts are still on the wire.

  A byte is a \<open>char\<close>, a body the list of the chunks still to come. \<open>JSON.parse\<close> of the first part
  is an argument. A binary part is read to its end or to its first error; the pull of single
  chunks by the handler is not interleaved with other reads of the cursor, which the code rules
  out too.
\<close>

type_synonym bytes = "char list"

definition CRLF :: bytes where "CRLF = [CHR 0x0D, CHR 0x0A]"
definition CRLF_CRLF :: bytes where "CRLF_CRLF = CRLF @ CRLF"
definition DASH_DASH :: bytes where "DASH_DASH = ''--''"

definition MAX_PREAMBLE_BYTES :: nat where "MAX_PREAMBLE_BYTES = 8 * 1024"
definition MAX_PART_HEADER_BYTES :: nat where "MAX_PART_HEADER_BYTES = 16 * 1024"
definition MAX_META_BYTES :: nat where "MAX_META_BYTES = 1024 * 1024"

datatype multipart_error =
    Truncated | OversizedSection | TruncatedPart | NoBoundary | EmptyBody | BadDelimiter | NoPartName
  | ExpectedMeta "string option" | MetaNotJson | FieldsNotObject
  | UploadTooLarge | ExpectedPart string "string option" | LargerThanDeclared string
  | UploadTruncated string | AlreadyRead string | OutOfOrder string

subsection \<open>The cursor\<close>

text \<open>\<open>None\<close> is -1. The scan starts at \<open>start\<close> and tries every place the needle still fits.\<close>

definition indexOfSub :: "bytes \<Rightarrow> bytes \<Rightarrow> nat \<Rightarrow> nat option" where
  "indexOfSub haystack needle start =
     find (\<lambda>i. list_all (\<lambda>j. haystack ! (i + j) = needle ! j) [0..<length needle])
       [start..<length haystack + 1 - length needle]"

record cursor =
  cu_buf :: bytes
  cu_ended :: bool
  cu_src :: "bytes list"

definition fill :: "cursor \<Rightarrow> bool \<times> cursor" where
  "fill c =
     (if cu_ended c then (False, c)
      else case cu_src c of
             [] \<Rightarrow> (False, c\<lparr>cu_ended := True\<rparr>)
           | v # rest \<Rightarrow> (True, c\<lparr>cu_buf := cu_buf c @ v, cu_src := rest\<rparr>))"

definition take_buf :: "nat \<Rightarrow> cursor \<Rightarrow> bytes \<times> cursor" where
  "take_buf n c = (take n (cu_buf c), c\<lparr>cu_buf := drop n (cu_buf c)\<rparr>)"

lemma fill_shrinks: "fill c = (True, c') \<Longrightarrow> length (cu_src c') < length (cu_src c)"
  by (auto simp: fill_def split: if_splits list.splits)

function readExact :: "nat \<Rightarrow> cursor \<Rightarrow> (multipart_error + bytes) \<times> cursor" where
  "readExact n c =
     (if length (cu_buf c) < n
      then (case fill c of (ok, c') \<Rightarrow> if ok then readExact n c' else (Inl Truncated, c'))
      else let (out, c') = take_buf n c in (Inr out, c'))"
  by pat_completeness auto
termination
  by (relation "measure (\<lambda>(n, c). length (cu_src c))") (auto dest: fill_shrinks [OF sym])

function readUntil_from :: "nat \<Rightarrow> bytes \<Rightarrow> nat \<Rightarrow> cursor \<Rightarrow> (multipart_error + bytes) \<times> cursor" where
  "readUntil_from searched needle limit c =
     (case indexOfSub (cu_buf c) needle searched of
        Some i \<Rightarrow> let (out, c1) = take_buf i c; (_, c2) = take_buf (length needle) c1 in (Inr out, c2)
      | None \<Rightarrow>
          if length (cu_buf c) > limit then (Inl OversizedSection, c)
          else (case fill c of (ok, c') \<Rightarrow>
                  if ok then readUntil_from (length (cu_buf c) + 1 - length needle) needle limit c'
                  else (Inl Truncated, c')))"
  by pat_completeness auto
termination
  by (relation "measure (\<lambda>(s, n, l, c). length (cu_src c))") (auto dest: fill_shrinks [OF sym])

definition readUntil :: "bytes \<Rightarrow> nat \<Rightarrow> cursor \<Rightarrow> (multipart_error + bytes) \<times> cursor" where
  "readUntil needle limit c = readUntil_from 0 needle limit c"

text \<open>The chunks a generator run yields, how it ends, and the cursor behind it.\<close>

function chunksUntil :: "bytes \<Rightarrow> cursor \<Rightarrow> bytes list \<times> (multipart_error + unit) \<times> cursor" where
  "chunksUntil needle c =
     (case indexOfSub (cu_buf c) needle 0 of
        Some i \<Rightarrow>
          let (out, c1) = take_buf i c; (_, c2) = take_buf (length needle) c1
          in (if i > 0 then [out] else [], Inr (), c2)
      | None \<Rightarrow>
          let safe = length (cu_buf c) - (length needle - 1);
              (out, c1) = (if safe > 0 then case take_buf safe c of (o1, c1) \<Rightarrow> ([o1], c1) else ([], c))
          in case fill c1 of (ok, c2) \<Rightarrow>
               if ok then (case chunksUntil needle c2 of (out', r, c3) \<Rightarrow> (out @ out', r, c3))
               else (out, Inl TruncatedPart, c2))"
  by pat_completeness auto
termination
  by (relation "measure (\<lambda>(n, c). length (cu_src c))")
     (auto simp: take_buf_def dest!: fill_shrinks [OF sym] split: if_splits)

declare readExact.simps [simp del] readUntil_from.simps [simp del] chunksUntil.simps [simp del]

subsection \<open>Headers\<close>

text \<open>
  \<open>/;\s*NAME=(?:"([^"]*)"|([^;\s]+))/i\<close>, searched from the left; \<open>some\<close> asks for a non-empty
  quoted text, as the boundary's pattern does.
\<close>

definition param_here :: "bool \<Rightarrow> string \<Rightarrow> string \<Rightarrow> string option" where
  "param_here some name s =
     (let r = dropWhile js_ws s; key = name @ ''=''; v = drop (length key) r;
          quoted = (case v of
             CHR 0x22 # q \<Rightarrow> (case break_first (CHR 0x22) q of
                 Some (t, _) \<Rightarrow> if some \<and> t = [] then None else Some t
               | None \<Rightarrow> None)
           | _ \<Rightarrow> None);
          bare = takeWhile (\<lambda>c. c \<noteq> CHR '';'' \<and> \<not> js_ws c) v
      in if js_lower (take (length key) r) \<noteq> key then None
         else case quoted of Some t \<Rightarrow> Some t | None \<Rightarrow> if bare = [] then None else Some bare)"

fun find_param :: "bool \<Rightarrow> string \<Rightarrow> string \<Rightarrow> string option" where
  "find_param some name [] = None"
| "find_param some name (c # s) =
     (if c = CHR '';'' then (case param_here some name s of Some v \<Rightarrow> Some v | None \<Rightarrow> find_param some name s)
      else find_param some name s)"

definition multipartBoundary :: "string option \<Rightarrow> string option" where
  "multipartBoundary contentType =
     (case contentType of
        None \<Rightarrow> None
      | Some ct \<Rightarrow>
          if ct = [] \<or> \<not> prefix ''multipart/form-data'' (js_lower ct) then None
          else find_param True ''boundary'' ct)"

definition is_disposition :: "string \<Rightarrow> bool" where
  "is_disposition line \<longleftrightarrow> js_lower (take 19 line) = ''content-disposition''
     \<and> (case dropWhile js_ws (drop 19 line) of c # _ \<Rightarrow> c = CHR '':'' | [] \<Rightarrow> False)"

definition partName :: "string \<Rightarrow> string option" where
  "partName headerBlock =
     (case find is_disposition (split_str CRLF headerBlock) of
        None \<Rightarrow> None
      | Some line \<Rightarrow> find_param False ''name'' line)"

subsection \<open>The body\<close>

definition MULTIPART_META_FIELD :: string where
  "MULTIPART_META_FIELD = ''__meta''"

record BinarySpec =
  bs_name :: string
  bs_size :: int
  bs_type :: string

text \<open>The first part as \<open>JSON.parse\<close> reads it; \<open>mt_fields\<close> is \<open>None\<close> where it is no object.\<close>

record 'v MultipartMeta =
  mt_fields :: "(string, 'v) jsmap option"
  mt_binary :: "BinarySpec list"

datatype 'v field = JsonField 'v | BinaryPart nat int string

record 'v RpcMultipart =
  rm_data :: "(string, 'v field) jsmap"
  rm_declared :: "BinarySpec list"
  rm_delimiter :: bytes
  rm_maxBytes :: int
  rm_cursor :: cursor
  rm_atPart :: nat
  rm_seenTotal :: nat
  rm_finished :: bool
  rm_consumed :: "nat list"

definition openPart :: "cursor \<Rightarrow> (multipart_error + string option) \<times> cursor" where
  "openPart c =
     (case readExact 2 c of
        (Inl e, c1) \<Rightarrow> (Inl e, c1)
      | (Inr marker, c1) \<Rightarrow>
          if marker = DASH_DASH then (Inr None, c1)
          else if marker \<noteq> CRLF then (Inl BadDelimiter, c1)
          else (case readUntil CRLF_CRLF MAX_PART_HEADER_BYTES c1 of
              (Inl e, c2) \<Rightarrow> (Inl e, c2)
            | (Inr header, c2) \<Rightarrow>
                (case partName header of
                   None \<Rightarrow> (Inl NoPartName, c2)
                 | Some name \<Rightarrow> (Inr (Some name), c2))))"

text \<open>The handler's argument: the fields, and behind them a handle for every binary part.\<close>

definition build_data :: "(string, 'v) jsmap \<Rightarrow> BinarySpec list \<Rightarrow> (string, 'v field) jsmap" where
  "build_data flds declared =
     foldl (\<lambda>d (i, spec). put (bs_name spec) (BinaryPart i (bs_size spec) (bs_type spec)) d)
       (map (\<lambda>(k, v). (k, JsonField v)) flds) (zip [0..<length declared] declared)"

definition parseRpcMultipart :: "(bytes \<Rightarrow> 'v MultipartMeta option) \<Rightarrow> string option \<Rightarrow> bytes list option \<Rightarrow> int \<Rightarrow>
    multipart_error + 'v RpcMultipart" where
  "parseRpcMultipart json contentType body maxBytes =
     (case multipartBoundary contentType of None \<Rightarrow> Inl NoBoundary | Some boundary \<Rightarrow>
      (case body of None \<Rightarrow> Inl EmptyBody | Some chunks \<Rightarrow>
       (let dashBoundary = DASH_DASH @ boundary; bodyDelimiter = CRLF @ dashBoundary
        in case readUntil dashBoundary MAX_PREAMBLE_BYTES \<lparr>cu_buf = [], cu_ended = False, cu_src = chunks\<rparr> of
             (Inl e, _) \<Rightarrow> Inl e
           | (Inr _, c1) \<Rightarrow>
               (case openPart c1 of
                  (Inl e, _) \<Rightarrow> Inl e
                | (Inr metaName, c2) \<Rightarrow>
                    if metaName \<noteq> Some MULTIPART_META_FIELD then Inl (ExpectedMeta metaName)
                    else (case readUntil bodyDelimiter MAX_META_BYTES c2 of
                        (Inl e, _) \<Rightarrow> Inl e
                      | (Inr metaRaw, c3) \<Rightarrow>
                          (case json metaRaw of
                             None \<Rightarrow> Inl MetaNotJson
                           | Some meta \<Rightarrow>
                               (case mt_fields meta of
                                  None \<Rightarrow> Inl FieldsNotObject
                                | Some flds \<Rightarrow>
                                    if sum_list (map bs_size (mt_binary meta)) > maxBytes
                                    then Inl UploadTooLarge
                                    else Inr \<lparr>rm_data = build_data flds (mt_binary meta),
                                              rm_declared = mt_binary meta, rm_delimiter = bodyDelimiter,
                                              rm_maxBytes = maxBytes, rm_cursor = c3, rm_atPart = 0,
                                              rm_seenTotal = 0, rm_finished = (mt_binary meta = []),
                                              rm_consumed = []\<rparr>)))))))"

text \<open>
  The chunks of a part against its declared size and the cap on all parts; what was handed on
  before an error stays handed on.
\<close>

fun check_chunks :: "BinarySpec \<Rightarrow> int \<Rightarrow> nat \<Rightarrow> nat \<Rightarrow> bytes list \<Rightarrow> bytes list \<times> (multipart_error + nat) \<times> nat" where
  "check_chunks spec maxBytes seen tot [] = ([], Inr seen, tot)"
| "check_chunks spec maxBytes seen tot (chunk # rest) =
     (let seen' = seen + length chunk; tot' = tot + length chunk
      in if int seen' > bs_size spec then ([], Inl (LargerThanDeclared (bs_name spec)), tot')
         else if int tot' > maxBytes then ([], Inl UploadTooLarge, tot')
         else (case check_chunks spec maxBytes seen' tot' rest of (out, r, t) \<Rightarrow> (chunk # out, r, t)))"

definition consumePart :: "nat \<Rightarrow> 'v RpcMultipart \<Rightarrow> bytes list \<times> (multipart_error + unit) \<times> 'v RpcMultipart" where
  "consumePart index rm =
     (let spec = rm_declared rm ! index
      in case openPart (rm_cursor rm) of
           (Inl e, c1) \<Rightarrow> ([], Inl e, rm\<lparr>rm_cursor := c1\<rparr>)
         | (Inr name, c1) \<Rightarrow>
             if name \<noteq> Some (bs_name spec) then ([], Inl (ExpectedPart (bs_name spec) name), rm\<lparr>rm_cursor := c1\<rparr>)
             else (case chunksUntil (rm_delimiter rm) c1 of (chunks, ended, c2) \<Rightarrow>
               (case check_chunks spec (rm_maxBytes rm) 0 (rm_seenTotal rm) chunks of (out, r, tot) \<Rightarrow>
                 (let rm1 = rm\<lparr>rm_cursor := c2, rm_seenTotal := tot\<rparr>
                  in case r of
                       Inl e \<Rightarrow> (out, Inl e, rm1)
                     | Inr seen \<Rightarrow>
                         (case ended of
                            Inl e \<Rightarrow> (out, Inl e, rm1)
                          | Inr _ \<Rightarrow>
                              if int seen \<noteq> bs_size spec then (out, Inl (UploadTruncated (bs_name spec)), rm1)
                              else (out, Inr (), rm1\<lparr>rm_atPart := index + 1,
                                      rm_finished := (rm_finished rm \<or> index + 1 = length (rm_declared rm))\<rparr>))))))"

definition stream_part :: "nat \<Rightarrow> 'v RpcMultipart \<Rightarrow> bytes list \<times> (multipart_error + unit) \<times> 'v RpcMultipart" where
  "stream_part index rm =
     (let spec = rm_declared rm ! index
      in if index \<in> set (rm_consumed rm) then ([], Inl (AlreadyRead (bs_name spec)), rm)
         else if index \<noteq> rm_atPart rm then ([], Inl (OutOfOrder (bs_name spec)), rm)
         else consumePart index (rm\<lparr>rm_consumed := rm_consumed rm @ [index]\<rparr>))"

text \<open>\<open>drain\<close>: whether the reader has to be cancelled.\<close>

definition drain_cancels :: "'v RpcMultipart \<Rightarrow> bool" where
  "drain_cancels rm \<longleftrightarrow> \<not> rm_finished rm"

subsection \<open>The cursor reads a byte string\<close>

text \<open>What is left to read: the abstraction under which the chunking disappears.\<close>

definition remaining :: "cursor \<Rightarrow> bytes" where
  "remaining c = cu_buf c @ (if cu_ended c then [] else concat (cu_src c))"

definition occurs_at :: "bytes \<Rightarrow> bytes \<Rightarrow> nat \<Rightarrow> bool" where
  "occurs_at n w p \<longleftrightarrow> p + length n \<le> length w \<and> take (length n) (drop p w) = n"

definition first_at :: "bytes \<Rightarrow> bytes \<Rightarrow> nat \<Rightarrow> bool" where
  "first_at n w p \<longleftrightarrow> occurs_at n w p \<and> (\<forall>q < p. \<not> occurs_at n w q)"

lemma occurs_nth:
  "p + length n \<le> length w \<Longrightarrow> occurs_at n w p \<longleftrightarrow> list_all (\<lambda>j. w ! (p + j) = n ! j) [0..<length n]"
proof -
  assume "p + length n \<le> length w"
  then have "take (length n) (drop p w) = n \<longleftrightarrow> (\<forall>j < length n. w ! (p + j) = n ! j)"
    by (simp add: list_eq_iff_nth_eq)
  with \<open>p + length n \<le> length w\<close> show ?thesis by (simp add: occurs_at_def list_all_iff Ball_def)
qed

lemma find_upt_Some:
  assumes "find P [s..<m] = Some p"
  shows "s \<le> p \<and> p < m \<and> P p \<and> (\<forall>q. s \<le> q \<and> q < p \<longrightarrow> \<not> P q)"
proof -
  obtain k where k: "k < m - s" "P ([s..<m] ! k)" "p = [s..<m] ! k" "\<forall>j < k. \<not> P ([s..<m] ! j)"
    using assms unfolding find_Some_iff length_upt by blast
  have nth: "[s..<m] ! j = s + j" if "j \<le> k" for j using that k(1) by (intro nth_upt) linarith
  have "\<not> P q" if "s \<le> q" "q < p" for q
  proof -
    have "q - s < k" using that k(3) nth [of k] by simp
    moreover from this have "[s..<m] ! (q - s) = q" using nth [of "q - s"] that by simp
    ultimately show ?thesis using k(4) by metis
  qed
  then show ?thesis using k nth [of k] by auto
qed

lemma indexOfSub_Some:
  assumes "indexOfSub w n s = Some p" "\<forall>q < s. \<not> occurs_at n w q"
  shows "first_at n w p"
proof -
  note f = find_upt_Some [OF assms(1) [unfolded indexOfSub_def]]
  have fits: "q + length n \<le> length w" if "q \<le> p" for q using that f by linarith
  have "\<not> occurs_at n w q" if "q < p" for q
    using that f assms(2) occurs_nth [OF fits [of q]] by (cases "q < s") auto
  then show ?thesis using f occurs_nth [OF fits [of p]] by (simp add: first_at_def)
qed

lemma indexOfSub_None:
  assumes "indexOfSub w n s = None" "\<forall>q < s. \<not> occurs_at n w q"
  shows "\<not> occurs_at n w p"
proof (cases "p < s")
  case False
  show ?thesis
  proof
    assume o: "occurs_at n w p"
    then have "p \<in> set [s..<length w + 1 - length n]" using False by (auto simp: occurs_at_def)
    with assms(1) o show False
      using occurs_nth [of p n w] by (auto simp: indexOfSub_def find_None_iff occurs_at_def)
  qed
qed (use assms(2) in blast)

lemma first_at_unique: "first_at n w p \<Longrightarrow> first_at n w q \<Longrightarrow> p = q"
  by (metis first_at_def linorder_neqE_nat)

lemma occurs_at_append: "p + length n \<le> length u \<Longrightarrow> occurs_at n (u @ v) p \<longleftrightarrow> occurs_at n u p"
  by (auto simp: occurs_at_def)

lemma first_at_append: "first_at n u p \<Longrightarrow> first_at n (u @ v) p"
  using occurs_at_append [of _ n u v] by (fastforce simp: first_at_def occurs_at_def)

lemma occurs_at_drop: "n \<noteq> [] \<Longrightarrow> k \<le> p \<Longrightarrow> occurs_at n w p \<longleftrightarrow> occurs_at n (drop k w) (p - k)"
  by (cases "length w < k") (auto simp: occurs_at_def)

lemma first_at_drop:
  assumes "n \<noteq> []" "\<forall>q < k. \<not> occurs_at n w q"
  shows "first_at n w p \<longleftrightarrow> k \<le> p \<and> first_at n (drop k w) (p - k)"
proof -
  have "occurs_at n (drop k w) j \<longleftrightarrow> occurs_at n w (k + j)" for j
    using assms(1) occurs_at_drop [of n k "k + j" w] by simp
  then show ?thesis using assms occurs_at_drop [of n k p w]
    by (auto simp: first_at_def not_less) (metis le_add_diff_inverse less_diff_conv2 not_less add.commute)+
qed

lemma remaining_fill:
  "fill c = (ok, c') \<Longrightarrow> remaining c' = remaining c \<and> (\<not> ok \<longrightarrow> remaining c = cu_buf c)"
  by (auto simp: fill_def remaining_def split: if_splits list.splits)

lemma remaining_take: "n \<le> length (cu_buf c) \<Longrightarrow> take_buf n c = (out, c') \<Longrightarrow>
    out = take n (remaining c) \<and> remaining c' = drop n (remaining c)"
  by (auto simp: take_buf_def remaining_def)

lemma readExact_spec:
  "readExact n c = (r, c') \<Longrightarrow>
   if n \<le> length (remaining c) then r = Inr (take n (remaining c)) \<and> remaining c' = drop n (remaining c)
   else r = Inl Truncated"
proof (induction n c arbitrary: r c' rule: readExact.induct)
  case (1 n c)
  show ?case
  proof (cases "length (cu_buf c) < n")
    case True
    obtain ok c1 where f: "fill c = (ok, c1)" by (cases "fill c")
    note rf = remaining_fill [OF f]
    show ?thesis
    proof (cases ok)
      case True
      with "1.prems" f \<open>length (cu_buf c) < n\<close> have "readExact n c1 = (r, c')"
        by (simp add: readExact.simps [of n c])
      with "1.IH" [OF \<open>length (cu_buf c) < n\<close> f [symmetric] True this] rf show ?thesis by simp
    next
      case False
      with "1.prems" f \<open>length (cu_buf c) < n\<close> have "r = Inl Truncated"
        by (simp add: readExact.simps [of n c])
      with rf False \<open>length (cu_buf c) < n\<close> show ?thesis by simp
    qed
  next
    case False
    obtain o1 c1 where t: "take_buf n c = (o1, c1)" by (cases "take_buf n c")
    with "1.prems" False have "r = Inr o1" "c' = c1" by (simp_all add: readExact.simps [of n c])
    moreover have "n \<le> length (remaining c)" using False by (simp add: remaining_def)
    ultimately show ?thesis using remaining_take [of n c o1 c1] False t by simp
  qed
qed

text \<open>
  Nothing of the needle is missed at a chunk border: the bytes already searched hold no occurrence
  that ends inside them.
\<close>

lemma searched_ok:
  assumes "\<forall>p. \<not> occurs_at n (cu_buf c) p" "fill c = (True, c')"
  shows "\<forall>q < length (cu_buf c) + 1 - length n. \<not> occurs_at n (cu_buf c') q"
proof -
  obtain v where v: "cu_buf c' = cu_buf c @ v" using assms(2) by (auto simp: fill_def split: if_splits list.splits)
  show ?thesis using assms(1) occurs_at_append [of _ n "cu_buf c" v] unfolding v by fastforce
qed

lemma first_in_buf: "first_at n (cu_buf c) p \<Longrightarrow> first_at n (remaining c) p"
  unfolding remaining_def by (rule first_at_append)

lemma readUntil_found:
  assumes "indexOfSub (cu_buf c) n s = Some i" "\<forall>q < s. \<not> occurs_at n (cu_buf c) q"
    and "take_buf i c = (out, c1)" "take_buf (length n) c1 = (x, c2)"
  shows "first_at n (remaining c) i \<and> out = take i (remaining c) \<and> remaining c2 = drop (i + length n) (remaining c)"
proof -
  have f: "first_at n (cu_buf c) i" using assms(1,2) by (rule indexOfSub_Some)
  then have l: "i + length n \<le> length (cu_buf c)" by (simp add: first_at_def occurs_at_def)
  moreover from l have "length n \<le> length (cu_buf c1)" using assms(3) by (auto simp: take_buf_def)
  ultimately show ?thesis
    using first_in_buf [OF f] remaining_take [OF _ assms(3)] remaining_take [OF _ assms(4)]
    by (simp add: add.commute)
qed

lemma readUntil_from_spec:
  "readUntil_from s n limit c = (r, c') \<Longrightarrow> \<forall>q < s. \<not> occurs_at n (cu_buf c) q \<Longrightarrow> n \<noteq> [] \<Longrightarrow>
   (\<forall>out. r = Inr out \<longrightarrow> (\<exists>p. first_at n (remaining c) p \<and> out = take p (remaining c)
      \<and> remaining c' = drop (p + length n) (remaining c)))
   \<and> (\<forall>p. first_at n (remaining c) p \<and> p + length n \<le> Suc limit \<longrightarrow> r \<in> range Inr)
   \<and> (r = Inl Truncated \<longrightarrow> (\<forall>p. \<not> occurs_at n (remaining c) p))"
proof (induction s n limit c arbitrary: r c' rule: readUntil_from.induct)
  case (1 s n limit c)
  show ?case
  proof (cases "indexOfSub (cu_buf c) n s")
    case (Some i)
    obtain o1 c1 x c2 where t: "take_buf i c = (o1, c1)" "take_buf (length n) c1 = (x, c2)"
      by (metis surj_pair)
    with "1.prems" Some have "r = Inr o1" "c' = c2" by (simp_all add: readUntil_from.simps [of s n limit c])
    with readUntil_found [OF Some "1.prems"(2) t] show ?thesis by auto
  next
    case None
    have none: "\<forall>p. \<not> occurs_at n (cu_buf c) p" using indexOfSub_None [OF None "1.prems"(2)] by blast
    have late: "length (cu_buf c) < p + length n" if "first_at n (remaining c) p" for p
    proof (rule ccontr)
      assume "\<not> length (cu_buf c) < p + length n"
      then have "occurs_at n (cu_buf c) p"
        using that occurs_at_append [of p n "cu_buf c"] by (simp add: first_at_def remaining_def)
      with none show False by blast
    qed
    show ?thesis
    proof (cases "length (cu_buf c) > limit")
      case True
      with "1.prems" None have "r = Inl OversizedSection" by (simp add: readUntil_from.simps [of s n limit c])
      with late True show ?thesis by fastforce
    next
      case False
      obtain ok c1 where f: "fill c = (ok, c1)" by (cases "fill c")
      note rf = remaining_fill [OF f]
      show ?thesis
      proof (cases ok)
        case True
        with "1.prems" None False f have "readUntil_from (length (cu_buf c) + 1 - length n) n limit c1 = (r, c')"
          by (simp add: readUntil_from.simps [of s n limit c])
        from "1.IH" [OF None False f [symmetric] True this searched_ok "1.prems"(3)] none f True rf
        show ?thesis by simp
      next
        case False
        with "1.prems" None \<open>\<not> length (cu_buf c) > limit\<close> f have "r = Inl Truncated"
          by (simp add: readUntil_from.simps [of s n limit c])
        with rf False none show ?thesis by (auto simp: first_at_def)
      qed
    qed
  qed
qed

lemma readUntil_spec:
  assumes "readUntil n limit c = (r, c')" "n \<noteq> []"
  shows "(\<forall>out. r = Inr out \<longrightarrow> (\<exists>p. first_at n (remaining c) p \<and> out = take p (remaining c)
      \<and> remaining c' = drop (p + length n) (remaining c)))
   \<and> (\<forall>p. first_at n (remaining c) p \<and> p + length n \<le> Suc limit \<longrightarrow> r \<in> range Inr)
   \<and> (r = Inl Truncated \<longrightarrow> (\<forall>p. \<not> occurs_at n (remaining c) p))"
  using readUntil_from_spec [of 0 n limit c r c'] assms by (simp add: readUntil_def)

text \<open>A section that ends within the limit is read whole, however it is cut into chunks.\<close>

lemma readUntil_exact:
  assumes "remaining c = s @ n @ w" "first_at n (s @ n) (length s)" "length s + length n \<le> Suc limit" "n \<noteq> []"
  shows "\<exists>c'. readUntil n limit c = (Inr s, c') \<and> remaining c' = w"
proof -
  obtain r c' where r: "readUntil n limit c = (r, c')" by fastforce
  have f: "first_at n (remaining c) (length s)"
    using first_at_append [OF assms(2), of w] assms(1) by simp
  with readUntil_spec [OF r assms(4)] assms(3) obtain out where "r = Inr out" by auto
  with readUntil_spec [OF r assms(4)] obtain p where "first_at n (remaining c) p" "out = take p (remaining c)"
    "remaining c' = drop (p + length n) (remaining c)" by blast
  moreover have "p = length s" using first_at_unique f calculation(1) by blast
  ultimately show ?thesis using r \<open>r = Inr out\<close> assms(1) by simp
qed

lemma chunksUntil_spec:
  "chunksUntil n c = (out, r, c') \<Longrightarrow> n \<noteq> [] \<Longrightarrow>
   (case r of
      Inr _ \<Rightarrow> \<exists>p. first_at n (remaining c) p \<and> concat out = take p (remaining c)
          \<and> remaining c' = drop (p + length n) (remaining c)
    | Inl e \<Rightarrow> e = TruncatedPart \<and> (\<forall>p. \<not> occurs_at n (remaining c) p))"
proof (induction n c arbitrary: out r c' rule: chunksUntil.induct)
  case (1 n c)
  show ?case
  proof (cases "indexOfSub (cu_buf c) n 0")
    case (Some i)
    obtain o1 c1 x c2 where t: "take_buf i c = (o1, c1)" "take_buf (length n) c1 = (x, c2)"
      by (metis surj_pair)
    with "1.prems" Some have "r = Inr ()" "c' = c2" "out = (if i > 0 then [o1] else [])"
      by (simp_all add: chunksUntil.simps [of n c])
    with readUntil_found [OF Some _ t] show ?thesis by auto
  next
    case None
    have none: "\<not> occurs_at n (cu_buf c) p" for p using indexOfSub_None [OF None] by blast
    define safe where "safe = length (cu_buf c) - (length n - 1)"
    obtain o1 c1 where t: "(if safe > 0 then case take_buf safe c of (o1, c1) \<Rightarrow> ([o1], c1) else ([], c)) = (o1, c1)"
      by fastforce
    have c1: "concat o1 = take safe (remaining c)" "remaining c1 = drop safe (remaining c)"
      using t by (auto simp: take_buf_def remaining_def safe_def split: if_splits)
    have early: "\<forall>q < safe. \<not> occurs_at n (remaining c) q"
    proof (intro allI impI)
      fix q assume "q < safe"
      then have "q + length n \<le> length (cu_buf c)" using "1.prems"(2) by (cases n) (auto simp: safe_def)
      with none [of q] show "\<not> occurs_at n (remaining c) q" by (simp add: remaining_def occurs_at_append)
    qed
    note shift = first_at_drop [OF "1.prems"(2) early]
    obtain ok c2 where f: "fill c1 = (ok, c2)" by (cases "fill c1")
    note rf = remaining_fill [OF f]
    show ?thesis
    proof (cases ok)
      case True
      obtain out' r' c3 where rec: "chunksUntil n c2 = (out', r', c3)" by (metis surj_pair)
      with "1.prems" None f True t have eq: "out = o1 @ out'" "r = r'" "c' = c3"
        by (simp_all add: chunksUntil.simps [of n c] safe_def Let_def split: if_splits)
      have ih: "case r' of
          Inr _ \<Rightarrow> \<exists>p. first_at n (remaining c2) p \<and> concat out' = take p (remaining c2)
            \<and> remaining c3 = drop (p + length n) (remaining c2)
        | Inl e \<Rightarrow> e = TruncatedPart \<and> (\<forall>p. \<not> occurs_at n (remaining c2) p)"
        using "1.IH" [OF None safe_def t [symmetric] _ f [symmetric] True rec "1.prems"(2)] by simp
      have c2: "remaining c2 = drop safe (remaining c)" using rf c1(2) by simp
      show ?thesis
      proof (cases r')
        case (Inl e)
        then have "\<not> occurs_at n (remaining c) p" for p
          using ih early occurs_at_drop [OF "1.prems"(2), of safe p] c2 by (cases "p < safe") auto
        with ih Inl eq show ?thesis by simp
      next
        case (Inr u)
        with ih c2 obtain p where p: "first_at n (drop safe (remaining c)) p"
          "concat out' = take p (drop safe (remaining c))" "remaining c3 = drop (p + length n) (drop safe (remaining c))"
          by auto
        then have "first_at n (remaining c) (safe + p)" using shift [of "safe + p"] by simp
        moreover have "concat out = take (safe + p) (remaining c)" using eq(1) c1(1) p(2) by (simp add: take_add)
        moreover have "remaining c3 = drop (safe + p + length n) (remaining c)" using p(3) by (simp add: ac_simps)
        ultimately show ?thesis using eq Inr by auto
      qed
    next
      case False
      with "1.prems" None f t have "r = Inl TruncatedPart"
        by (simp add: chunksUntil.simps [of n c] safe_def Let_def split: if_splits)
      moreover have "\<not> occurs_at n (remaining c) p" for p
      proof (cases "p < safe")
        case False
        have "remaining c1 = cu_buf c1" using rf \<open>\<not> ok\<close> by simp
        moreover have "cu_buf c1 = drop safe (cu_buf c)" using t by (auto simp: take_buf_def split: if_splits)
        moreover have "length (cu_buf c) - safe < length n" using "1.prems"(2) by (cases n) (simp_all add: safe_def)
        ultimately have short: "length (remaining c) - safe < length n"
          using arg_cong [OF c1(2), of length] by simp
        show ?thesis
        proof
          assume "occurs_at n (remaining c) p"
          then have "p + length n \<le> length (remaining c)" by (simp add: occurs_at_def)
          with short False show False by linarith
        qed
      qed (use early in blast)
      ultimately show ?thesis by simp
    qed
  qed
qed

subsection \<open>Bodies as a client writes them\<close>

definition part_header :: "string \<Rightarrow> string" where
  "part_header name = ''Content-Disposition: form-data; name='' @ [CHR 0x22] @ name @ [CHR 0x22]"

definition encode_part :: "bytes \<Rightarrow> string \<times> bytes \<Rightarrow> bytes" where
  "encode_part delimiter p = (case p of (name, body) \<Rightarrow>
     CRLF @ part_header name @ CRLF_CRLF @ body @ delimiter)"

definition encode_body :: "string \<Rightarrow> (string \<times> bytes) list \<Rightarrow> bytes" where
  "encode_body boundary parts =
     DASH_DASH @ boundary @ concat (map (encode_part (CRLF @ DASH_DASH @ boundary)) parts) @ DASH_DASH"

text \<open>A name that needs no escaping, and a body in which the delimiter does not occur early.\<close>

definition name_ok :: "string \<Rightarrow> bool" where
  "name_ok name \<longleftrightarrow> CHR 0x22 \<notin> set name \<and> CHR 0x0D \<notin> set name \<and> length name \<le> 16000"

definition free_of :: "bytes \<Rightarrow> bytes \<Rightarrow> bool" where
  "free_of delimiter body \<longleftrightarrow> first_at delimiter (body @ delimiter) (length body)"

lemma split_str_free: "sep \<noteq> [] \<Longrightarrow> hd sep \<notin> set s \<Longrightarrow> split_str sep s = [s]"
proof (induction s)
  case (Cons x s)
  then have "\<not> prefix sep (x # s)" by (cases sep) auto
  with Cons show ?case by simp
qed simp

lemma lower_CD: "js_lower_char (CHR ''C'') = CHR ''c''" "js_lower_char (CHR ''D'') = CHR ''d''"
  by code_simp+

lemma partName_header: "name_ok name \<Longrightarrow> partName (part_header name) = Some name"
proof -
  assume ok: "name_ok name"
  then have cr: "CHR 0x0D \<notin> set (part_header name)" by (simp add: part_header_def name_ok_def)
  have q: "break_first (CHR 0x22) (name @ [CHR 0x22]) = Some (name, [])"
    using ok by (simp add: break_first_Some name_ok_def)
  have "split_str CRLF (part_header name) = [part_header name]"
    using cr by (intro split_str_free) (simp_all add: CRLF_def)
  moreover have "is_disposition (part_header name)"
    by (simp add: is_disposition_def part_header_def js_lower_def lower_CD js_ws_def)
       (simp add: js_lower_char_def)
  moreover have "find_param False ''name'' (part_header name) = Some name"
    by (simp add: part_header_def param_here_def js_ws_def js_lower_def js_lower_char_def q)
  ultimately show ?thesis by (simp add: partName_def)
qed

lemma free_of_head: "n \<noteq> [] \<Longrightarrow> hd n \<notin> set s \<Longrightarrow> first_at n (s @ n) (length s)"
proof -
  assume n: "n \<noteq> []" "hd n \<notin> set s"
  have "\<not> occurs_at n (s @ n) q" if "q < length s" for q
  proof
    assume "occurs_at n (s @ n) q"
    then have "hd (drop q (s @ n)) = hd n" using n(1) by (metis hd_take length_greater_0_conv occurs_at_def)
    then have "s ! q = hd n" using that by (simp add: hd_drop_conv_nth nth_append)
    with that n(2) show False by (metis nth_mem)
  qed
  then show ?thesis by (simp add: first_at_def occurs_at_def)
qed

lemma openPart_encoded:
  assumes "remaining c = CRLF @ part_header name @ CRLF_CRLF @ w" "name_ok name"
  shows "\<exists>c'. openPart c = (Inr (Some name), c') \<and> remaining c' = w"
proof -
  obtain r c1 where r1: "readExact 2 c = (r, c1)" by fastforce
  have c1: "r = Inr CRLF" "remaining c1 = part_header name @ CRLF_CRLF @ w"
    using readExact_spec [OF r1] assms(1) by (simp_all add: CRLF_def)
  have "hd CRLF_CRLF \<notin> set (part_header name)"
    using assms(2) by (simp add: CRLF_CRLF_def CRLF_def part_header_def name_ok_def)
  then have "first_at CRLF_CRLF (part_header name @ CRLF_CRLF) (length (part_header name))"
    by (intro free_of_head) (simp_all add: CRLF_CRLF_def CRLF_def)
  moreover have "length (part_header name) + length CRLF_CRLF \<le> Suc MAX_PART_HEADER_BYTES"
    using assms(2) by (simp add: part_header_def name_ok_def CRLF_CRLF_def CRLF_def MAX_PART_HEADER_BYTES_def)
  ultimately obtain c2 where "readUntil CRLF_CRLF MAX_PART_HEADER_BYTES c1 = (Inr (part_header name), c2)"
    "remaining c2 = w"
    using readUntil_exact [OF c1(2)] by (auto simp: CRLF_CRLF_def CRLF_def)
  then show ?thesis
    using r1 c1(1) partName_header [OF assms(2)] by (simp add: openPart_def CRLF_def DASH_DASH_def)
qed

lemma check_chunks_fits:
  "int (seen + length (concat chunks)) \<le> bs_size spec \<Longrightarrow> int (tot + length (concat chunks)) \<le> maxBytes \<Longrightarrow>
   check_chunks spec maxBytes seen tot chunks
     = (chunks, Inr (seen + length (concat chunks)), tot + length (concat chunks))"
  by (induction chunks arbitrary: seen tot) (auto simp: Let_def)

lemma stream_encoded:
  assumes "remaining (rm_cursor rm) = encode_part (rm_delimiter rm) (bs_name spec, body) @ w"
    and "name_ok (bs_name spec)" "free_of (rm_delimiter rm) body" "rm_delimiter rm \<noteq> []"
    and "rm_declared rm ! index = spec" "bs_size spec = int (length body)"
    and "int (rm_seenTotal rm + length body) \<le> rm_maxBytes rm"
    and "rm_atPart rm = index" "index \<notin> set (rm_consumed rm)"
  shows "\<exists>out rm'. stream_part index rm = (out, Inr (), rm') \<and> concat out = body \<and> remaining (rm_cursor rm') = w
    \<and> rm_declared rm' = rm_declared rm \<and> rm_delimiter rm' = rm_delimiter rm \<and> rm_maxBytes rm' = rm_maxBytes rm
    \<and> rm_seenTotal rm' = rm_seenTotal rm + length body \<and> rm_atPart rm' = Suc index
    \<and> rm_consumed rm' = rm_consumed rm @ [index]
    \<and> rm_finished rm' = (rm_finished rm \<or> Suc index = length (rm_declared rm))"
proof -
  have "remaining (rm_cursor rm) = CRLF @ part_header (bs_name spec) @ CRLF_CRLF @ (body @ rm_delimiter rm @ w)"
    using assms(1) by (simp add: encode_part_def)
  from openPart_encoded [OF this assms(2)] obtain c1 where
    c1: "openPart (rm_cursor rm) = (Inr (Some (bs_name spec)), c1)" "remaining c1 = body @ rm_delimiter rm @ w"
    by blast
  obtain out r c2 where ch: "chunksUntil (rm_delimiter rm) c1 = (out, r, c2)" by (metis surj_pair)
  have f: "first_at (rm_delimiter rm) (remaining c1) (length body)"
    using assms(3) first_at_append [of "rm_delimiter rm" "body @ rm_delimiter rm" "length body" w] c1(2)
    by (simp add: free_of_def)
  then have "r = Inr ()"
    using chunksUntil_spec [OF ch assms(4)] by (cases r) (auto simp: first_at_def)
  with chunksUntil_spec [OF ch assms(4)] obtain p where p: "first_at (rm_delimiter rm) (remaining c1) p"
    "concat out = take p (remaining c1)" "remaining c2 = drop (p + length (rm_delimiter rm)) (remaining c1)"
    by auto
  then have out: "concat out = body" "remaining c2 = w"
    using first_at_unique [OF p(1) f] c1(2) by simp_all
  have "check_chunks spec (rm_maxBytes rm) 0 (rm_seenTotal rm) out
      = (out, Inr (length body), rm_seenTotal rm + length body)"
    using check_chunks_fits [of 0 out spec "rm_seenTotal rm" "rm_maxBytes rm"] out(1) assms(6,7) by simp
  then show ?thesis
    using c1(1) ch \<open>r = Inr ()\<close> out assms(5,6,8,9)
    by (simp add: stream_part_def consumePart_def Let_def)
qed

text \<open>Reading the parts in the given order, each to its end.\<close>

fun read_parts :: "nat list \<Rightarrow> 'v RpcMultipart \<Rightarrow> (bytes \<times> (multipart_error + unit)) list \<times> 'v RpcMultipart" where
  "read_parts [] rm = ([], rm)"
| "read_parts (i # is) rm =
     (case stream_part i rm of (out, r, rm1) \<Rightarrow>
        (case read_parts is rm1 of (rest, rm2) \<Rightarrow> ((concat out, r) # rest, rm2)))"

definition specs_match :: "BinarySpec list \<Rightarrow> (string \<times> bytes) list \<Rightarrow> bool" where
  "specs_match specs parts \<longleftrightarrow>
     map (\<lambda>s. (bs_name s, bs_size s)) specs = map (\<lambda>(n, d). (n, int (length d))) parts"

lemma read_encoded:
  assumes "remaining (rm_cursor rm) = concat (map (encode_part (rm_delimiter rm)) parts) @ w"
    and "\<forall>(n, d) \<in> set parts. name_ok n \<and> free_of (rm_delimiter rm) d" "rm_delimiter rm \<noteq> []"
    and "specs_match (drop (rm_atPart rm) (rm_declared rm)) parts" "rm_atPart rm \<le> length (rm_declared rm)"
    and "int (rm_seenTotal rm + length (concat (map snd parts))) \<le> rm_maxBytes rm"
    and "set (rm_consumed rm) = {0..<rm_atPart rm}"
    and "rm_finished rm \<longleftrightarrow> rm_atPart rm = length (rm_declared rm)"
  shows "\<exists>rm'. read_parts [rm_atPart rm..<length (rm_declared rm)] rm = (map (\<lambda>(n, d). (d, Inr ())) parts, rm')
    \<and> rm_finished rm'"
  using assms
proof (induction parts arbitrary: rm)
  case Nil
  then have "length (rm_declared rm) = rm_atPart rm" by (simp add: specs_match_def)
  with Nil show ?case by simp
next
  case (Cons p parts)
  obtain n d where p: "p = (n, d)" by (cases p)
  let ?k = "rm_atPart rm"
  obtain spec specs where sp: "drop ?k (rm_declared rm) = spec # specs"
    using Cons.prems(4) by (cases "drop ?k (rm_declared rm)") (auto simp: specs_match_def)
  then have k: "?k < length (rm_declared rm)" "rm_declared rm ! ?k = spec" "drop (Suc ?k) (rm_declared rm) = specs"
    by (metis drop_all list.distinct(1) not_less) (metis sp hd_drop_conv_nth drop_all list.distinct(1) list.sel(1) not_less,
       metis sp drop_Suc list.sel(3) tl_drop)
  have spec: "bs_name spec = n" "bs_size spec = int (length d)" "specs_match specs parts"
    using Cons.prems(4) sp p by (auto simp: specs_match_def)
  obtain out rm1 where s: "stream_part ?k rm = (out, Inr (), rm1)" "concat out = d"
    "remaining (rm_cursor rm1) = concat (map (encode_part (rm_delimiter rm)) parts) @ w"
    "rm_declared rm1 = rm_declared rm" "rm_delimiter rm1 = rm_delimiter rm" "rm_maxBytes rm1 = rm_maxBytes rm"
    "rm_seenTotal rm1 = rm_seenTotal rm + length d" "rm_atPart rm1 = Suc ?k"
    "rm_consumed rm1 = rm_consumed rm @ [?k]"
    "rm_finished rm1 = (rm_finished rm \<or> Suc ?k = length (rm_declared rm))"
    using stream_encoded [of rm spec d "concat (map (encode_part (rm_delimiter rm)) parts) @ w" ?k]
      Cons.prems p spec k by auto
  have "\<exists>rm'. read_parts [rm_atPart rm1..<length (rm_declared rm1)] rm1 = (map (\<lambda>(n, d). (d, Inr ())) parts, rm')
      \<and> rm_finished rm'"
    by (rule Cons.IH) (use Cons.prems s spec k p in auto)
  then show ?case using s k(1) p by (auto simp: upt_conv_Cons)
qed


definition demo_json :: "bytes \<Rightarrow> unit MultipartMeta option" where
  "demo_json raw = (if raw = ''{..}''
     then Some \<lparr>mt_fields = Some [], mt_binary = [\<lparr>bs_name = ''file'', bs_size = 3, bs_type = []\<rparr>]\<rparr> else None)"

lemma demo_free: "free_of (CRLF @ DASH_DASH @ ''XX'') ''{..}''" "free_of (CRLF @ DASH_DASH @ ''XX'') ''a-b''"
  unfolding free_of_def by (rule free_of_head; simp add: CRLF_def)+


end
