(* ===== verification/Node_Server.thy ===== *)
theory Node_Server
  imports Fleet
begin

text \<open>
  The server the agents connect to (\<open>apps/server/src/node-server.ts\<close>): enrolment and durable
  tokens, the endpoints an install command is made of, the HTTP requests of an installing agent
  and the life of a socket from its first message to its end.
\<close>

subsection \<open>State\<close>

record TokenEntry =
  te_expiresAt :: ms
  te_downloaded :: bool

record NodeWsData =
  nw_connId :: "string option"
  nw_remoteIp :: "string option"
  nw_heartbeat :: bool

record 'p node_server =
  ns_tokens :: "(string, TokenEntry) jsmap"
  ns_durableTokens :: "(string, string) jsmap"
  ns_durableTokenSet :: "string list"
  ns_tokenFile :: "(string, string) jsmap option"
  ns_agents :: "(string, nat) jsmap"
  ns_sockets :: "(nat, NodeWsData) jsmap"
  ns_fleet :: "'p fleet"

definition HEARTBEAT_INTERVAL_MS :: ms where "HEARTBEAT_INTERVAL_MS = 15000"

definition WS_IDLE_TIMEOUT_S :: int where "WS_IDLE_TIMEOUT_S = 60"

definition NODE_SERVER_PORT :: nat where "NODE_SERVER_PORT = 4142"

definition init_node_server :: "(string, string) jsmap option \<Rightarrow> 'p fleet \<Rightarrow> 'p node_server" where
  "init_node_server file fl =
     \<lparr>ns_tokens = [], ns_durableTokens = read_file file, ns_durableTokenSet = vals (read_file file),
      ns_tokenFile = file, ns_agents = [], ns_sockets = [], ns_fleet = fl\<rparr>"

subsection \<open>Tokens\<close>

definition mintToken :: "string \<Rightarrow> ms \<Rightarrow> 'p node_server \<Rightarrow> (string \<times> ms) \<times> 'p node_server" where
  "mintToken token now ns =
     (let expiresAt = now + 30 * 60 * 1000
      in ((token, expiresAt),
          ns\<lparr>ns_tokens := put token \<lparr>te_expiresAt = expiresAt, te_downloaded = False\<rparr> (ns_tokens ns)\<rparr>))"

definition mintAgentToken :: "string \<Rightarrow> string \<Rightarrow> 'p node_server \<Rightarrow> string \<times> 'p node_server" where
  "mintAgentToken machineId token ns =
     (let durable = put machineId token (ns_durableTokens ns)
      in (token, ns\<lparr>ns_durableTokens := durable, ns_durableTokenSet := vals durable,
                    ns_tokenFile := Some durable\<rparr>))"

definition validateToken :: "ms \<Rightarrow> string \<Rightarrow> 'p node_server \<Rightarrow> bool \<times> 'p node_server" where
  "validateToken now token ns =
     (if token \<in> set (ns_durableTokenSet ns) then (True, ns)
      else case look (ns_tokens ns) token of
             None \<Rightarrow> (False, ns)
           | Some entry \<Rightarrow>
               if now > te_expiresAt entry then (False, ns\<lparr>ns_tokens := del token (ns_tokens ns)\<rparr>)
               else (True, ns))"

definition sweep_tokens :: "ms \<Rightarrow> 'p node_server \<Rightarrow> 'p node_server" where
  "sweep_tokens now ns = ns\<lparr>ns_tokens := drop_where (\<lambda>e. now > te_expiresAt e) (ns_tokens ns)\<rparr>"

subsection \<open>Endpoints and install commands\<close>

definition externalHost :: "string option \<Rightarrow> string option \<Rightarrow> string option" where
  "externalHost wanIp domain = (case domain of Some d \<Rightarrow> Some d | None \<Rightarrow> wanIp)"

definition nonempty :: "string option \<Rightarrow> string option" where
  "nonempty s = (case s of Some t \<Rightarrow> if t = [] then None else Some t | None \<Rightarrow> None)"

text \<open>The base URL, the control socket, and the other address of the pair when there is one.\<close>

definition endpoints :: "string \<Rightarrow> string option \<Rightarrow> string option \<Rightarrow> bool \<Rightarrow> string \<times> string \<times> string option" where
  "endpoints lanIp wanIp domain useExternal =
     (let ext = externalHost wanIp domain;
          swap = useExternal \<and> nonempty ext \<noteq> None;
          primaryHost = (if swap then the ext else lanIp);
          altHost = (if swap then Some lanIp else ext);
          port = to_radix 10 NODE_SERVER_PORT;
          ws = (\<lambda>h. ''wss://'' @ h @ '':'' @ port @ ''/node'')
      in (''https://'' @ primaryHost @ '':'' @ port, ws primaryHost,
          case nonempty altHost of None \<Rightarrow> None | Some h \<Rightarrow> if h = primaryHost then None else Some (ws h)))"

definition dquote :: "string \<Rightarrow> string" where
  "dquote s = [CHR 0x22] @ s @ [CHR 0x22]"

definition unixInstallCommand :: "string \<Rightarrow> string \<Rightarrow> string \<Rightarrow> bool \<Rightarrow> string" where
  "unixInstallCommand pin baseUrl token useExternal =
     ''curl -k --pinnedpubkey '' @ dquote pin @ '' -fsSL ''
       @ dquote (baseUrl @ ''/node-install/'' @ token @ (if useExternal then ''?external=1'' else []))
       @ '' | sudo bash''"

definition windowsInstallCommand :: "string \<Rightarrow> string \<Rightarrow> string \<Rightarrow> string option \<Rightarrow> string \<Rightarrow> string" where
  "windowsInstallCommand pin baseUrl controlWs altControlWs token =
     (let pinned = ''-k --pinnedpubkey '' @ dquote pin;
          exe = dquote (''$env:TEMP'' @ [CHR 0x5C] @ ''sc-agent.exe'');
          crt = dquote (''$env:TEMP'' @ [CHR 0x5C] @ ''sc-agent.crt'');
          altFlag = (case altControlWs of None \<Rightarrow> [] | Some u \<Rightarrow> '' --alt-control '' @ dquote u)
      in ''curl.exe '' @ pinned @ '' -fsSL '' @ dquote (baseUrl @ ''/node-bootstrap/'' @ token @ ''/windows-x64'')
           @ '' -o '' @ exe
           @ ''; curl.exe '' @ pinned @ '' -fsSL '' @ dquote (baseUrl @ ''/node-cert'') @ '' -o '' @ crt
           @ ''; & '' @ exe @ '' --agent --control '' @ dquote controlWs @ altFlag
           @ '' --token '' @ dquote token @ '' --cert '' @ crt)"

definition generateInstallCommand :: "string \<Rightarrow> string \<Rightarrow> string option \<Rightarrow> string \<Rightarrow> ms \<Rightarrow> string \<Rightarrow> string option \<Rightarrow> bool \<Rightarrow>
    'p node_server \<Rightarrow> (string \<times> ms \<times> string option) \<times> 'p node_server" where
  "generateInstallCommand pin lanIp wanIp fresh now platform domain useExternal ns =
     (case mintToken fresh now ns of ((token, expiresAt), ns1) \<Rightarrow>
        (case endpoints lanIp wanIp domain useExternal of (baseUrl, controlWs, altControlWs) \<Rightarrow>
           ((if platform = ''windows'' then windowsInstallCommand pin baseUrl controlWs altControlWs token
             else unixInstallCommand pin baseUrl token useExternal,
             expiresAt, externalHost wanIp domain), ns1)))"

subsection \<open>HTTP\<close>

text \<open>\<open>NodeCrash\<close> is an exception in the handler: the reply is the platform's error page.\<close>

datatype node_reply =
    CertPem
  | InstallScript string bool
  | AgentBinary string
  | BadToken
  | SocketUpgrade
  | NodeNotFound
  | NodeCrash

definition install_match :: "string \<Rightarrow> string option" where
  "install_match path =
     (case split_on (CHR ''/'') path of
        [a, b, token] \<Rightarrow> if a = [] \<and> b = ''node-install'' \<and> token \<noteq> [] then Some token else None
      | _ \<Rightarrow> None)"

definition two_match :: "string \<Rightarrow> string \<Rightarrow> (string \<times> string) option" where
  "two_match head path =
     (case split_on (CHR ''/'') path of
        [a, b, token, platform] \<Rightarrow>
          if a = [] \<and> b = head \<and> token \<noteq> [] \<and> platform \<noteq> [] then Some (token, platform) else None
      | _ \<Rightarrow> None)"

definition node_bootstrap :: "ms \<Rightarrow> string \<Rightarrow> string \<Rightarrow> 'p node_server \<Rightarrow> node_reply \<times> 'p node_server" where
  "node_bootstrap now token platform ns =
     (case validateToken now token ns of
        (False, ns1) \<Rightarrow> (BadToken, ns1)
      | (True, ns1) \<Rightarrow>
          (case look (ns_tokens ns1) token of
             None \<Rightarrow> (NodeCrash, ns1)
           | Some e \<Rightarrow> (AgentBinary platform,
               ns1\<lparr>ns_tokens := put token (e\<lparr>te_downloaded := True\<rparr>) (ns_tokens ns1)\<rparr>)))"

definition node_fetch :: "ms \<Rightarrow> string \<Rightarrow> string \<Rightarrow> bool \<Rightarrow> 'p node_server \<Rightarrow> node_reply \<times> 'p node_server" where
  "node_fetch now method path external ns =
     (if method = ''GET'' \<and> path = ''/node-cert'' then (CertPem, ns)
      else case (method = ''GET'', install_match path) of
        (True, Some token) \<Rightarrow>
          (case validateToken now token ns of
             (False, ns1) \<Rightarrow> (BadToken, ns1)
           | (True, ns1) \<Rightarrow> (InstallScript token external, ns1))
      | _ \<Rightarrow> (case (method = ''GET'', two_match ''node-bootstrap'' path) of
        (True, Some (token, platform)) \<Rightarrow> node_bootstrap now token platform ns
      | _ \<Rightarrow> (case (method = ''GET'', two_match ''node-binary'' path) of
        (True, Some (token, platform)) \<Rightarrow>
          (case validateToken now token ns of
             (False, ns1) \<Rightarrow> (BadToken, ns1)
           | (True, ns1) \<Rightarrow> (AgentBinary platform, ns1))
      | _ \<Rightarrow> if path = ''/node'' then (SocketUpgrade, ns) else (NodeNotFound, ns))))"

subsection \<open>Sockets\<close>

datatype socket_event = WsSend ControlMessage | WsClose int

definition on_open :: "nat \<Rightarrow> string option \<Rightarrow> 'p node_server \<Rightarrow> 'p node_server" where
  "on_open ws remoteIp ns =
     ns\<lparr>ns_sockets := put ws \<lparr>nw_connId = None, nw_remoteIp = remoteIp, nw_heartbeat = False\<rparr> (ns_sockets ns)\<rparr>"

text \<open>\<open>conn\<close> and \<open>r\<close> are the connection id and the handle a successful identification creates.\<close>

definition identify :: "ms \<Rightarrow> nat \<Rightarrow> NodeWsData \<Rightarrow> string \<Rightarrow> nat \<Rightarrow> SystemInfo \<Rightarrow> string \<Rightarrow> AgentMode \<Rightarrow>
    string list option \<Rightarrow> HostCapabilityReport option \<Rightarrow> 'p node_server \<Rightarrow> socket_event list \<times> 'p node_server" where
  "identify now ws data conn r info machineId mode capabilities report ns =
     (let caps = (case capabilities of None \<Rightarrow> [] | Some cs \<Rightarrow> cs);
          proxy = new_host_agent machineId (si_hostname info) (Some info) mode (nw_remoteIp data) caps
                    (case report of None \<Rightarrow> [] | Some rep \<Rightarrow> rep) now;
          fl = (ns_fleet ns)\<lparr>fl_heap := (fl_heap (ns_fleet ns))(r := proxy)\<rparr>;
          beats = ''heartbeat'' \<in> set caps
      in case register_agent now r fl of (active, fl1) \<Rightarrow>
           (WsSend (Acknowledged machineId active) # (if beats then [WsSend Ping] else []),
            ns\<lparr>ns_sockets := put ws (data\<lparr>nw_connId := Some conn, nw_heartbeat := beats\<rparr>) (ns_sockets ns),
               ns_agents := put conn r (ns_agents ns), ns_fleet := fl1\<rparr>))"

definition on_message :: "ms \<Rightarrow> nat \<Rightarrow> string \<Rightarrow> nat \<Rightarrow> 'p NodeMessage option \<Rightarrow> 'p node_server \<Rightarrow>
    socket_event list \<times> 'p node_server" where
  "on_message now ws conn r parsed ns =
     (case (look (ns_sockets ns) ws, parsed) of
        (None, _) \<Rightarrow> ([], ns)
      | (Some data, None) \<Rightarrow> ([WsClose 1003], ns)
      | (Some data, Some msg) \<Rightarrow>
          (case nw_connId data of
             None \<Rightarrow>
               (case msg of
                  Identify token info machineId mode capabilities report \<Rightarrow>
                    (case validateToken now token ns of
                       (False, ns1) \<Rightarrow> ([WsClose 1008], ns1)
                     | (True, ns1) \<Rightarrow> identify now ws data conn r info machineId mode capabilities report ns1)
                | _ \<Rightarrow> ([WsClose 1002], ns))
           | Some c \<Rightarrow>
               (case look (ns_agents ns) c of
                  None \<Rightarrow> ([], ns)
                | Some a \<Rightarrow>
                    ([], ns\<lparr>ns_fleet := (ns_fleet ns)\<lparr>fl_heap := (fl_heap (ns_fleet ns))
                        (a := fst (receive now msg (fl_heap (ns_fleet ns) a)))\<rparr>\<rparr>))))"

definition on_close :: "ms \<Rightarrow> nat \<Rightarrow> 'p node_server \<Rightarrow> 'p node_server" where
  "on_close now ws ns =
     (case look (ns_sockets ns) ws of
        None \<Rightarrow> ns
      | Some data \<Rightarrow>
          (let ns0 = ns\<lparr>ns_sockets := del ws (ns_sockets ns)\<rparr>
           in case nw_connId data of
                None \<Rightarrow> ns0
              | Some c \<Rightarrow>
                  (case look (ns_agents ns0) c of
                     None \<Rightarrow> ns0
                   | Some a \<Rightarrow>
                       (let fl = ns_fleet ns0;
                            fl1 = fl\<lparr>fl_heap := (fl_heap fl)(a := fst (disconnect now (fl_heap fl a)))\<rparr>
                        in ns0\<lparr>ns_agents := del c (ns_agents ns0), ns_fleet := deregister_agent now a fl1\<rparr>))))"

subsection \<open>The fleet follows the sockets\<close>

text \<open>
  One step of the server. Ids and references drawn at an identification are new. A handle works
  on its own (requests, replies, clocks) without losing its socket or its role.
\<close>

inductive node_step :: "'p node_server \<Rightarrow> 'p node_server \<Rightarrow> bool" where
  arrive: "look (ns_sockets ns) ws = None \<Longrightarrow> node_step ns (on_open ws ip ns)"
| message: "look (ns_agents ns) conn = None \<Longrightarrow> r \<notin> referenced (ns_fleet ns) \<Longrightarrow>
    node_step ns (snd (on_message now ws conn r parsed ns))"
| depart: "node_step ns (on_close now ws ns)"
| http: "node_step ns (snd (node_fetch now method path external ns))"
| enrol: "node_step ns (snd (mintToken token now ns))"
| promote: "node_step ns (snd (mintAgentToken machineId token ns))"
| sweep: "node_step ns (sweep_tokens now ns)"
| forget: "node_step ns (ns\<lparr>ns_fleet := snd (remove_server i (ns_fleet ns))\<rparr>)"
| work: "agent_step (issued, fl_heap (ns_fleet ns) r, log) (issued', h, log') \<Longrightarrow>
    ha_active h = ha_active (fl_heap (ns_fleet ns) r) \<Longrightarrow>
    ha_connected h = ha_connected (fl_heap (ns_fleet ns) r) \<Longrightarrow>
    node_step ns (ns\<lparr>ns_fleet := (ns_fleet ns)\<lparr>fl_heap := (fl_heap (ns_fleet ns))(r := h)\<rparr>\<rparr>)"

text \<open>The connection an open socket speaks for, and how connections and sockets hang together.\<close>

definition spoken :: "'p node_server \<Rightarrow> nat \<Rightarrow> string option" where
  "spoken ns ws = (case look (ns_sockets ns) ws of None \<Rightarrow> None | Some data \<Rightarrow> nw_connId data)"

definition wired :: "(string \<Rightarrow> nat option) \<Rightarrow> (nat \<Rightarrow> string option) \<Rightarrow> bool" where
  "wired handle socket \<longleftrightarrow>
     (\<forall>c c' r. handle c = Some r \<longrightarrow> handle c' = Some r \<longrightarrow> c = c')
     \<and> (\<forall>c. (\<exists>r. handle c = Some r) \<longleftrightarrow> (\<exists>ws. socket ws = Some c))
     \<and> (\<forall>ws ws' c. socket ws = Some c \<longrightarrow> socket ws' = Some c \<longrightarrow> ws = ws')"

lemma wired_put:
  assumes w: "wired handle socket" and "handle c = None" "socket ws = None" "r \<notin> ran handle"
  shows "wired (handle(c \<mapsto> r)) (socket(ws \<mapsto> c))"
proof -
  have new: "socket v \<noteq> Some c" for v using w assms(2) unfolding wired_def by (metis option.distinct(1))
  have fresh: "handle d \<noteq> Some r" for d using assms(4) by (auto simp: ran_def)
  show ?thesis
    unfolding wired_def
  proof (intro conjI allI)
    fix d
    have "(\<exists>q. handle d = Some q) \<longleftrightarrow> (\<exists>v. socket v = Some d)" using w unfolding wired_def by blast
    moreover have "v \<noteq> ws" if "socket v = Some d" for v using that assms(3) by auto
    ultimately show "(\<exists>q. (handle(c \<mapsto> r)) d = Some q) \<longleftrightarrow> (\<exists>v. (socket(ws \<mapsto> c)) v = Some d)"
      by (cases "d = c") auto
  qed (use w new fresh in \<open>auto simp: wired_def\<close>)
qed

lemma wired_drop:
  assumes w: "wired handle socket" and "socket ws = Some c"
  shows "wired (handle(c := None)) (socket(ws := None))"
    and "handle c = Some r \<Longrightarrow> ran (handle(c := None)) = ran handle - {r}"
proof -
  have only: "v = ws" if "socket v = Some c" for v using that w assms(2) unfolding wired_def by blast
  show "wired (handle(c := None)) (socket(ws := None))"
    unfolding wired_def
  proof (intro conjI allI)
    fix d
    have "(\<exists>q. handle d = Some q) \<longleftrightarrow> (\<exists>v. socket v = Some d)" using w unfolding wired_def by blast
    then show "(\<exists>q. (handle(c := None)) d = Some q) \<longleftrightarrow> (\<exists>v. (socket(ws := None)) v = Some d)"
      using only assms(2) by (metis fun_upd_apply option.distinct(1) option.inject)
  qed (use w in \<open>auto simp: wired_def split: if_splits\<close>)
  show "ran (handle(c := None)) = ran handle - {r}" if "handle c = Some r"
  proof -
    have inj: "handle d = Some r \<longleftrightarrow> d = c" for d using \<open>handle c = Some r\<close> w unfolding wired_def by blast
    have "x \<in> ran (handle(c := None)) \<longleftrightarrow> x \<in> ran handle \<and> x \<noteq> r" for x
      using inj [of c] unfolding ran_def mem_Collect_eq fun_upd_apply by (metis inj option.inject option.distinct(1))
    then show ?thesis by blast
  qed
qed

definition node_ok :: "nat \<Rightarrow> 'p node_server \<Rightarrow> bool" where
  "node_ok local ns \<longleftrightarrow>
     fleet_ok (ns_fleet ns) \<and> wired (look (ns_agents ns)) (spoken ns)
     \<and> referenced (ns_fleet ns) = insert local (ran (look (ns_agents ns))) \<and> local \<notin> ran (look (ns_agents ns))
     \<and> (\<forall>r\<in>referenced (ns_fleet ns). ha_connected (fl_heap (ns_fleet ns) r))"

text \<open>The tokens are no part of it.\<close>

lemma node_ok_tokens:
  "node_ok local ns \<Longrightarrow> ns_agents ns' = ns_agents ns \<Longrightarrow> ns_sockets ns' = ns_sockets ns \<Longrightarrow>
   ns_fleet ns' = ns_fleet ns \<Longrightarrow> node_ok local ns'"
  by (simp add: node_ok_def spoken_def [abs_def])

lemma validateToken_keeps [simp]:
  "ns_agents (snd (validateToken now token ns)) = ns_agents ns"
  "ns_sockets (snd (validateToken now token ns)) = ns_sockets ns"
  "ns_fleet (snd (validateToken now token ns)) = ns_fleet ns"
  by (simp_all add: validateToken_def split: option.split)

lemma node_bootstrap_keeps [simp]:
  "ns_agents (snd (node_bootstrap now token platform ns)) = ns_agents ns"
  "ns_sockets (snd (node_bootstrap now token platform ns)) = ns_sockets ns"
  "ns_fleet (snd (node_bootstrap now token platform ns)) = ns_fleet ns"
  by (simp_all add: node_bootstrap_def split_beta split: option.split bool.split del: map_of_eq_Some_iff)

lemma node_fetch_keeps [simp]:
  "ns_agents (snd (node_fetch now method path external ns)) = ns_agents ns"
  "ns_sockets (snd (node_fetch now method path external ns)) = ns_sockets ns"
  "ns_fleet (snd (node_fetch now method path external ns)) = ns_fleet ns"
  by (simp_all add: node_fetch_def split_beta split: option.split bool.split)

text \<open>A handle that changes without its role or its connection.\<close>

lemma node_ok_heap:
  assumes "node_ok local ns" "same_host (fl_heap (ns_fleet ns) r) h"
    "ha_active h = ha_active (fl_heap (ns_fleet ns) r)" "ha_connected h = ha_connected (fl_heap (ns_fleet ns) r)"
  shows "node_ok local (ns\<lparr>ns_fleet := (ns_fleet ns)\<lparr>fl_heap := (fl_heap (ns_fleet ns))(r := h)\<rparr>\<rparr>)"
proof -
  let ?fl = "(ns_fleet ns)\<lparr>fl_heap := (fl_heap (ns_fleet ns))(r := h)\<rparr>"
  have "fleet_ok ?fl"
    by (rule fleet_ok_heap) (use assms in \<open>auto simp: node_ok_def same_handle_def same_host_def\<close>)
  moreover have "referenced ?fl = referenced (ns_fleet ns)" by (simp add: referenced_def)
  ultimately show ?thesis using assms by (simp add: node_ok_def spoken_def [abs_def])
qed

lemma disconnect_same: "same_host a (fst (disconnect now a)) \<and> ha_active (fst (disconnect now a)) = ha_active a"
proof -
  have "ha_active (fst (reject_all rids now b)) = ha_active b" for rids and b :: "'a host_agent"
    by (induction rids arbitrary: b) (simp_all add: split_beta settle_keeps [OF surjective_pairing])
  then show ?thesis
    using reject_all_same [of "a\<lparr>ha_connected := False\<rparr>" "keys (ha_pending a)" now]
    by (simp add: disconnect_def same_host_def split_beta)
qed

lemma receive_keeps: "receive now msg a = (a', ev) \<Longrightarrow> ha_active a' = ha_active a \<and> ha_connected a' = ha_connected a"
proof (cases "\<exists>rid out. settle rid out now a = (a', ev)")
  case False
  assume r: "receive now msg a = (a', ev)"
  have "settle rid out now a \<noteq> (a', ev)" for rid out using False by blast
  with r show ?thesis by (cases msg) (auto simp: receive_def Let_def split: if_splits option.splits)
qed (auto dest: settle_keeps)

lemma identify_ok:
  assumes ok: "node_ok local ns" and "look (ns_agents ns) conn = None" "spoken ns ws = None" "r \<notin> referenced (ns_fleet ns)"
  shows "node_ok local (snd (identify now ws data conn r info machineId mode capabilities report ns))"
proof -
  define caps where "caps = (case capabilities of None \<Rightarrow> [] | Some cs \<Rightarrow> cs)"
  define proxy where "proxy = (new_host_agent machineId (si_hostname info) (Some info) mode (nw_remoteIp data) caps
       (case report of None \<Rightarrow> [] | Some rep \<Rightarrow> rep) now :: 'a host_agent)"
  let ?fl = "(ns_fleet ns)\<lparr>fl_heap := (fl_heap (ns_fleet ns))(r := proxy)\<rparr>"
  define fl1 where "fl1 = snd (register_agent now r ?fl)"
  define ns1 where "ns1 = snd (identify now ws data conn r info machineId mode capabilities report ns)"
  have ns1: "ns_fleet ns1 = fl1" "look (ns_agents ns1) = (look (ns_agents ns))(conn \<mapsto> r)"
    "spoken ns1 = (spoken ns)(ws \<mapsto> conn)"
    by (simp_all add: ns1_def fl1_def identify_def Let_def spoken_def [abs_def] caps_def proxy_def fun_eq_iff
        split_beta del: map_of_eq_Some_iff)
  have fok: "fleet_ok (ns_fleet ns)" using ok by (simp add: node_ok_def)
  have ref: "referenced fl1 = insert r (referenced (ns_fleet ns))"
    unfolding fl1_def by (rule referenced_register [OF fok assms(4)])
  have "ha_connected (fl_heap fl1 a)" if "a \<in> referenced fl1" for a
  proof -
    have "r \<notin> set (connections_of (ha_id proxy) ?fl)"
      using assms(4) referenced_split [of "ns_fleet ns" r "ha_id proxy"] fok
      by (simp add: connections_of_def fleet_ok_def each_keys)
    then have "\<exists>act. fl_heap fl1 a = (fl_heap ?fl a)\<lparr>ha_active := act\<rparr>"
      unfolding fl1_def by (rule register_connections(2)) simp
    then obtain act where "fl_heap fl1 a = (fl_heap ?fl a)\<lparr>ha_active := act\<rparr>" ..
    then show ?thesis using ok that ref by (auto simp: node_ok_def proxy_def new_host_agent_def)
  qed
  moreover have "wired (look (ns_agents ns1)) (spoken ns1)"
    unfolding ns1 by (rule wired_put) (use ok assms in \<open>auto simp: node_ok_def\<close>)
  moreover have "fleet_ok fl1" unfolding fl1_def by (rule register_ok [OF fok assms(4)])
  ultimately show ?thesis
    using ok assms(2,4) ref unfolding ns1_def [symmetric] by (auto simp: node_ok_def ns1 ran_map_upd)
qed

lemma on_message_ok:
  assumes ok: "node_ok local ns" and "look (ns_agents ns) conn = None" "r \<notin> referenced (ns_fleet ns)"
  shows "node_ok local (snd (on_message now ws conn r parsed ns))"
proof (cases "look (ns_sockets ns) ws")
  case None
  then show ?thesis using ok by (simp add: on_message_def)
next
  case (Some data)
  note sock = this
  show ?thesis
  proof (cases parsed)
    case None
    then show ?thesis using ok sock by (simp add: on_message_def del: map_of_eq_Some_iff)
  next
    case (Some msg)
    note parsed = this
    show ?thesis
    proof (cases "nw_connId data")
      case None
      note unknown = this
      then have sp: "spoken ns ws = None" using sock by (simp add: spoken_def del: map_of_eq_Some_iff)
      show ?thesis
      proof (cases "\<exists>token info mid mode caps rep. msg = Identify token info mid mode caps rep")
        case True
        then obtain token info mid mode caps rep where msg: "msg = Identify token info mid mode caps rep" by blast
        obtain valid ns1 where v: "validateToken now token ns = (valid, ns1)" by fastforce
        have k: "ns_agents ns1 = ns_agents ns" "ns_sockets ns1 = ns_sockets ns" "ns_fleet ns1 = ns_fleet ns"
          using validateToken_keeps [of now token ns] v by simp_all
        have ok1: "node_ok local ns1" by (rule node_ok_tokens [OF ok k])
        have "node_ok local (snd (identify now ws data conn r info mid mode caps rep ns1))"
          by (rule identify_ok [OF ok1]) (use assms k sp in \<open>simp_all add: spoken_def\<close>)
        then show ?thesis
          using sock parsed unknown msg v ok1 by (cases valid) (simp_all add: on_message_def del: map_of_eq_Some_iff)
      next
        case False
        then have "on_message now ws conn r parsed ns = ([WsClose 1002], ns)"
          using sock parsed unknown by (cases msg) (simp_all add: on_message_def del: map_of_eq_Some_iff)
        then show ?thesis using ok by simp
      qed
    next
      case (Some c)
      note known = this
      show ?thesis
      proof (cases "look (ns_agents ns) c")
        case None
        then show ?thesis using ok sock parsed known by (simp add: on_message_def del: map_of_eq_Some_iff)
      next
        case (Some a)
        obtain h ev where h: "receive now msg (fl_heap (ns_fleet ns) a) = (h, ev)" by fastforce
        have "node_ok local (ns\<lparr>ns_fleet := (ns_fleet ns)\<lparr>fl_heap := (fl_heap (ns_fleet ns))(a := h)\<rparr>\<rparr>)"
          by (rule node_ok_heap [OF ok receive_same [OF h]]) (use receive_keeps [OF h] in simp_all)
        then show ?thesis
          using Some h sock parsed known by (simp add: on_message_def del: map_of_eq_Some_iff)
      qed
    qed
  qed
qed

lemma on_close_ok:
  assumes ok: "node_ok local ns"
  shows "node_ok local (on_close now ws ns)"
proof (cases "look (ns_sockets ns) ws")
  case None
  then show ?thesis using ok by (simp add: on_close_def)
next
  case (Some data)
  note sock = this
  let ?ns0 = "ns\<lparr>ns_sockets := del ws (ns_sockets ns)\<rparr>"
  have sp0: "spoken ?ns0 = (spoken ns)(ws := None)"
    by (simp add: spoken_def fun_eq_iff del: map_of_eq_Some_iff)
  show ?thesis
  proof (cases "nw_connId data")
    case None
    then have "spoken ns ws = None" using sock by (simp add: spoken_def del: map_of_eq_Some_iff)
    then have "spoken ?ns0 = spoken ns" unfolding sp0 by auto
    then have "node_ok local ?ns0" using ok by (simp add: node_ok_def)
    then show ?thesis using sock None by (simp add: on_close_def del: map_of_eq_Some_iff)
  next
    case (Some c)
    have sp: "spoken ns ws = Some c" using sock Some by (simp add: spoken_def del: map_of_eq_Some_iff)
    have w: "wired (look (ns_agents ns)) (spoken ns)" using ok by (simp add: node_ok_def)
    obtain a where a: "look (ns_agents ns) c = Some a" using w sp unfolding wired_def by blast
    define fl1 where "fl1 = (ns_fleet ns)\<lparr>fl_heap := (fl_heap (ns_fleet ns))(a := fst (disconnect now (fl_heap (ns_fleet ns) a)))\<rparr>"
    define ns' where "ns' = ?ns0\<lparr>ns_agents := del c (ns_agents ns), ns_fleet := deregister_agent now a fl1\<rparr>"
    have out: "on_close now ws ns = ns'"
      using sock Some a by (simp add: on_close_def ns'_def fl1_def Let_def del: map_of_eq_Some_iff)
    have ns': "look (ns_agents ns') = (look (ns_agents ns))(c := None)" "spoken ns' = (spoken ns)(ws := None)"
      "ns_fleet ns' = deregister_agent now a fl1"
      using sp0 by (simp_all add: ns'_def spoken_def [abs_def] fun_eq_iff del: map_of_eq_Some_iff)
    have same: "same_handle (fl_heap (ns_fleet ns) b) (fl_heap fl1 b)" for b
      using disconnect_same [of "fl_heap (ns_fleet ns) a" now] by (simp add: fl1_def same_handle_def same_host_def)
    have f1: "fleet_ok fl1"
      unfolding fl1_def by (rule fleet_ok_heap) (use ok same in \<open>simp_all add: node_ok_def fl1_def\<close>)
    have r1: "referenced fl1 = referenced (ns_fleet ns)" by (simp add: fl1_def referenced_def)
    have ra: "a \<in> ran (look (ns_agents ns))" using a by (rule ranI)
    then have ain: "a \<in> referenced fl1" using ok r1 by (simp add: node_ok_def)
    have ref: "referenced (ns_fleet ns') = referenced (ns_fleet ns) - {a}"
      unfolding ns' using referenced_deregister [OF f1 ain] r1 by simp
    have "ha_connected (fl_heap (ns_fleet ns') b)" if "b \<in> referenced (ns_fleet ns')" for b
    proof -
      obtain act where "fl_heap (ns_fleet ns') b = (fl_heap fl1 b)\<lparr>ha_active := act\<rparr>"
        using deregister_connections(2) [OF f1 ain refl, of now b] unfolding ns' by blast
      then show ?thesis using that ref ok by (simp add: fl1_def node_ok_def)
    qed
    moreover have "wired (look (ns_agents ns')) (spoken ns')" unfolding ns' by (rule wired_drop(1) [OF w sp])
    moreover have "fleet_ok (ns_fleet ns')" unfolding ns' by (rule deregister_ok [OF f1])
    moreover have "ran (look (ns_agents ns')) = ran (look (ns_agents ns)) - {a}"
      unfolding ns' by (rule wired_drop(2) [OF w sp a])
    ultimately show ?thesis using ok ref ra unfolding out by (auto simp: node_ok_def)
  qed
qed

lemma node_step_ok: "node_step ns ns' \<Longrightarrow> node_ok local ns \<Longrightarrow> node_ok local ns'"
proof (induction rule: node_step.induct)
  case (arrive ns ws ip)
  then have "spoken (on_open ws ip ns) = spoken ns"
    by (simp add: on_open_def spoken_def fun_eq_iff del: map_of_eq_None_iff map_of_eq_Some_iff)
  then show ?case using arrive by (simp add: node_ok_def on_open_def)
next
  case (forget ns i)
  let ?fl = "snd (remove_server i (ns_fleet ns))"
  have c: "fl_connections ?fl = fl_connections (ns_fleet ns)" "fl_heap ?fl = fl_heap (ns_fleet ns)"
    by (simp_all add: remove_server_def)
  then have "fleet_ok ?fl" "referenced ?fl = referenced (ns_fleet ns)"
    using forget by (simp_all add: node_ok_def fleet_ok_def referenced_def)
  then show ?case using forget c by (simp add: node_ok_def spoken_def [abs_def])
next
  case (work issued ns r log issued' h log')
  then show ?case using node_ok_heap agent_step_same by blast
qed (auto intro: on_message_ok on_close_ok node_ok_tokens
       simp: mintToken_def mintAgentToken_def sweep_tokens_def Let_def)

interpretation nodes: invariant_store "node_ok local" node_step for local
  by unfold_locales (rule node_step_ok)

lemma init_node_ok:
  "ha_active (heap local) \<Longrightarrow> ha_connected (heap local) \<Longrightarrow>
   node_ok local (init_node_server file (init_fleet ffile heap local now))"
  using init_fleet_ok [of heap local ffile now]
  by (simp add: node_ok_def init_node_server_def spoken_def [abs_def] wired_def init_fleet_def referenced_def ran_def)

lemma fleet_get_referenced: "fleet_get i fl = Inr r \<Longrightarrow> fleet_ok fl \<Longrightarrow> r \<in> referenced fl \<and> ha_id (fl_heap fl r) = i"
proof -
  assume g: "fleet_get i fl = Inr r" and ok: "fleet_ok fl"
  then obtain refs where l: "look (fl_connections fl) i = Some refs" "activeOf (fl_heap fl) refs = Some r"
    by (auto simp: fleet_get_def split: option.splits)
  have "group_ok (fl_heap fl) i refs" by (rule fleet_ok_look [OF ok l(1)])
  moreover from this have "r \<in> set refs"
    using activeOf_spec [of refs "fl_heap fl"] l(2) newest_highest_in by (fastforce simp: group_ok_def)
  ultimately show ?thesis using map_of_SomeD [OF l(1)] by (auto simp: group_ok_def referenced_iff)
qed

lemma newest_highest_unique: "newest_highest rank refs r \<Longrightarrow> newest_highest rank refs q \<Longrightarrow> r = q"
proof -
  assume n: "newest_highest rank refs r" "newest_highest rank refs q"
  obtain xs ys where r: "refs = xs @ r # ys" "\<forall>x\<in>set xs. rank x \<le> rank r" "\<forall>y\<in>set ys. rank y < rank r"
    using n(1) unfolding newest_highest_def by blast
  obtain us vs where q: "refs = us @ q # vs" "\<forall>x\<in>set us. rank x \<le> rank q" "\<forall>y\<in>set vs. rank y < rank q"
    using n(2) unfolding newest_highest_def by blast
  have "xs @ r # ys = us @ q # vs" using r(1) q(1) by simp
  then consider zs where "xs = us @ zs" "zs @ r # ys = q # vs" | zs where "xs @ zs = us" "r # ys = zs @ q # vs"
    by (auto simp: append_eq_append_conv2)
  then show "r = q"
  proof cases
    case (1 zs)
    then show ?thesis using r(2) q(3) by (cases zs) fastforce+
  next
    case (2 zs)
    then show ?thesis using q(2) r(3) by (cases zs) fastforce+
  qed
qed


definition demo_info :: SystemInfo where
  "demo_info = \<lparr>si_hostname = ''web'', si_os = ''Linux'', si_kernel = ''6.1'', si_arch = ''x64'', si_primaryIp = ''10.0.0.7'',
     si_cpuModel = ''cpu'', si_cpuCores = 4, si_uptimeSeconds = 60, si_capturedAt = 5, si_agentVersion = None,
     si_install = None\<rparr>"

definition demo_node :: "unit node_server" where
  "demo_node =
     (let n0 = init_node_server None (init_fleet None demo_heap 0 5);
          n1 = snd (mintToken ''t1'' 6 n0);
          n2 = on_open 7 (Some ''10.0.0.7'') n1
      in snd (on_message 8 7 ''c1'' 1 (Some (Identify ''t1'' demo_info ''m1'' Installed None None)) n2))"


text \<open>
  A machine id and a mode are what the agent says they are: whoever holds any token that is
  valid, the durable token of another machine included, becomes the acting connection of the
  machine it names as soon as nothing connected there outranks the mode it claims.
\<close>

lemma any_token_claims_any_machine:
  assumes "look (ns_sockets ns) ws = Some data" "nw_connId data = None" "validateToken now token ns = (True, ns)"
    and "r \<notin> referenced (ns_fleet ns)" "fleet_ok (ns_fleet ns)"
    and "\<forall>a\<in>set (connections_of machineId (ns_fleet ns)). rank_of (fl_heap (ns_fleet ns)) a \<le> MODE_RANK mode"
  shows "fleet_get machineId (ns_fleet (snd (on_message now ws conn r
      (Some (Identify token info machineId mode caps rep)) ns))) = Inr r"
proof -
  define h where "h = (new_host_agent machineId (si_hostname info) (Some info) mode (nw_remoteIp data)
     (case caps of None \<Rightarrow> [] | Some cs \<Rightarrow> cs) (case rep of None \<Rightarrow> [] | Some x \<Rightarrow> x) now :: 'a host_agent)"
  let ?fl = "(ns_fleet ns)\<lparr>fl_heap := (fl_heap (ns_fleet ns))(r := h)\<rparr>"
  define fl1 where "fl1 = snd (register_agent now r ?fl)"
  define refs where "refs = connections_of machineId (ns_fleet ns)"
  have id: "ha_id h = machineId" "ha_mode h = mode" by (simp_all add: h_def new_host_agent_def)
  have out: "ns_fleet (snd (on_message now ws conn r (Some (Identify token info machineId mode caps rep)) ns)) = fl1"
    using assms(1-3)
    by (simp add: on_message_def identify_def Let_def fl1_def h_def split_beta del: map_of_eq_Some_iff)
  have new: "r \<notin> set refs"
    using assms(4,5) referenced_split [of "ns_fleet ns" r machineId] by (simp add: refs_def fleet_ok_def each_keys)
  have c: "connections_of machineId ?fl = refs" by (simp add: refs_def connections_of_def)
  have "fl_connections fl1 = put machineId (refs @ [r]) (fl_connections ?fl)"
    unfolding c [symmetric] fl1_def by (rule register_connections(1)) (use new id c in simp_all)
  moreover have "activeOf (fl_heap fl1) (refs @ [r]) = activeOf (fl_heap ?fl) (refs @ [r])"
  proof (rule activeOf_cong)
    fix a
    have "\<exists>act. fl_heap fl1 a = (fl_heap ?fl a)\<lparr>ha_active := act\<rparr>"
      unfolding fl1_def by (rule register_connections(2) [of r machineId]) (use new id c in simp_all)
    then show "ha_mode (fl_heap fl1 a) = ha_mode (fl_heap ?fl a)" by auto
  qed
  moreover have "newest_highest (rank_of (fl_heap ?fl)) (refs @ [r]) r"
    unfolding newest_highest_def
    by (intro exI [of _ refs] exI [of _ "[]"]) (use assms(6) new id in \<open>auto simp: rank_of_def refs_def\<close>)
  moreover from this have "activeOf (fl_heap ?fl) (refs @ [r]) = Some r"
    using activeOf_spec [of "refs @ [r]" "fl_heap ?fl"] newest_highest_unique new by blast
  ultimately show ?thesis unfolding out by (simp add: fleet_get_def)
qed

end
