(* ===== verification/Refresh.thy ===== *)
theory Refresh
  imports Prelude
begin

text \<open>
  Refresh tokens (\<open>apps/server/src/features/oidc/refresh.ts\<close>, class \<open>RefreshTokenStore\<close>): rotation
  chains with reuse detection, stored by digest and written to a file after every change.

  Parameters: \<open>dg\<close> is the SHA-256 hex digest, of which only the freshness of a new token's digest
  is used; \<open>tok\<close> and \<open>next\<close> are \<open>mint()\<close>, \<open>fam\<close> is \<open>randomUUID()\<close>, \<open>now\<close> is \<open>Date.now()\<close>.
\<close>

definition REFRESH_TTL_MS :: ms where
  "REFRESH_TTL_MS = 60 * 24 * 60 * 60 * 1000"

definition SPENT_TTL_MS :: ms where
  "SPENT_TTL_MS = 7 * 24 * 60 * 60 * 1000"

record RefreshRecord =
  f_familyId :: string
  f_userId :: uid
  f_clientId :: string
  f_scope :: string
  f_issuedAt :: ms
  f_expiresAt :: ms
  f_usedAt :: "ms option"

record RefreshGrant =
  g_familyId :: string
  g_userId :: uid
  g_clientId :: string
  g_scope :: string

record refresh_store =
  tokens :: "(string, RefreshRecord) jsmap"
  tokensFile :: "(string, RefreshRecord) jsmap option"

datatype rotation = Rotated RefreshGrant string | Reused | NoGrant

definition persistTokens :: "refresh_store \<Rightarrow> refresh_store" where
  "persistTokens st = st\<lparr>tokensFile := Some (tokens st)\<rparr>"

text \<open>The deletion loops: drop what the predicate selects and write only if something went.\<close>

definition delete_where :: "(RefreshRecord \<Rightarrow> bool) \<Rightarrow> refresh_store \<Rightarrow> refresh_store" where
  "delete_where p st =
     (if list_ex p (vals (tokens st)) then persistTokens (st\<lparr>tokens := drop_where p (tokens st)\<rparr>)
      else st)"

definition revokeFamily :: "string \<Rightarrow> refresh_store \<Rightarrow> refresh_store" where
  "revokeFamily fam = delete_where (\<lambda>r. f_familyId r = fam)"

definition revokeForUser :: "uid \<Rightarrow> refresh_store \<Rightarrow> refresh_store" where
  "revokeForUser i = delete_where (\<lambda>r. f_userId r = i)"

definition revokeForClient :: "string \<Rightarrow> refresh_store \<Rightarrow> refresh_store" where
  "revokeForClient c = delete_where (\<lambda>r. f_clientId r = c)"

definition pruneExpiredTokens :: "ms \<Rightarrow> refresh_store \<Rightarrow> refresh_store" where
  "pruneExpiredTokens now = delete_where (\<lambda>r.
     f_expiresAt r < now \<or> (case f_usedAt r of None \<Rightarrow> False | Some u \<Rightarrow> u + SPENT_TTL_MS < now))"

definition init_refresh :: "(string, RefreshRecord) jsmap option \<Rightarrow> ms \<Rightarrow> refresh_store" where
  "init_refresh file now = pruneExpiredTokens now \<lparr>tokens = read_file file, tokensFile = file\<rparr>"

definition dropStaleTombstones :: "ms \<Rightarrow> refresh_store \<Rightarrow> refresh_store" where
  "dropStaleTombstones now st =
     st\<lparr>tokens := drop_where (\<lambda>r. case f_usedAt r of None \<Rightarrow> False | Some u \<Rightarrow> u < now - SPENT_TTL_MS)
          (tokens st)\<rparr>"

definition append_token :: "(string \<Rightarrow> string) \<Rightarrow> ms \<Rightarrow> string \<Rightarrow> string \<Rightarrow> uid \<Rightarrow> string \<Rightarrow> string \<Rightarrow>
    refresh_store \<Rightarrow> refresh_store" where
  "append_token dg now tok fam userId clientId scope st =
     (let st1 = dropStaleTombstones now st
      in persistTokens (st1\<lparr>tokens := put (dg tok)
           \<lparr>f_familyId = fam, f_userId = userId, f_clientId = clientId, f_scope = scope,
            f_issuedAt = now, f_expiresAt = now + REFRESH_TTL_MS, f_usedAt = None\<rparr> (tokens st1)\<rparr>))"

definition issue :: "(string \<Rightarrow> string) \<Rightarrow> ms \<Rightarrow> string \<Rightarrow> string \<Rightarrow> uid \<Rightarrow> string \<Rightarrow> string \<Rightarrow>
    refresh_store \<Rightarrow> string \<times> refresh_store" where
  "issue dg now tok fam userId clientId scope st =
     (tok, append_token dg now tok fam userId clientId scope st)"

definition rotate_token :: "(string \<Rightarrow> string) \<Rightarrow> ms \<Rightarrow> string \<Rightarrow> string \<Rightarrow> refresh_store \<Rightarrow>
    rotation \<times> refresh_store" where
  "rotate_token dg now next tok st =
     (case look (tokens st) (dg tok) of
        None \<Rightarrow> (NoGrant, st)
      | Some rec \<Rightarrow>
          if f_usedAt rec \<noteq> None then (Reused, revokeFamily (f_familyId rec) st)
          else if f_expiresAt rec < now
            then (NoGrant, persistTokens (st\<lparr>tokens := del (dg tok) (tokens st)\<rparr>))
          else (Rotated \<lparr>g_familyId = f_familyId rec, g_userId = f_userId rec,
                         g_clientId = f_clientId rec, g_scope = f_scope rec\<rparr> next,
                append_token dg now next (f_familyId rec) (f_userId rec) (f_clientId rec) (f_scope rec)
                  (st\<lparr>tokens := put (dg tok) (rec\<lparr>f_usedAt := Some now\<rparr>) (tokens st)\<rparr>)))"

definition revoke_token :: "(string \<Rightarrow> string) \<Rightarrow> string \<Rightarrow> refresh_store \<Rightarrow> bool \<times> refresh_store" where
  "revoke_token dg tok st =
     (case look (tokens st) (dg tok) of
        None \<Rightarrow> (False, st)
      | Some rec \<Rightarrow> (True, revokeFamily (f_familyId rec) st))"

record ConnectedApp =
  c_familyId :: string
  c_clientId :: string
  c_scope :: string
  c_issuedAt :: ms
  c_expiresAt :: ms

fun newest_by_family :: "uid \<Rightarrow> RefreshRecord list \<Rightarrow> (string, RefreshRecord) jsmap \<Rightarrow>
    (string, RefreshRecord) jsmap" where
  "newest_by_family i [] m = m"
| "newest_by_family i (rec # recs) m =
     newest_by_family i recs
       (if f_userId rec \<noteq> i \<or> f_usedAt rec \<noteq> None then m
        else case look m (f_familyId rec) of
               None \<Rightarrow> put (f_familyId rec) rec m
             | Some seen \<Rightarrow> if f_issuedAt rec > f_issuedAt seen then put (f_familyId rec) rec m else m)"

definition listForUser :: "uid \<Rightarrow> refresh_store \<Rightarrow> ConnectedApp list" where
  "listForUser i st =
     sort_key (\<lambda>c. - c_issuedAt c)
       (map (\<lambda>(fam, rec). \<lparr>c_familyId = fam, c_clientId = f_clientId rec, c_scope = f_scope rec,
                           c_issuedAt = f_issuedAt rec, c_expiresAt = f_expiresAt rec\<rparr>)
         (newest_by_family i (vals (tokens st)) []))"

subsection \<open>Operations as events\<close>

text \<open>
  The store's operations as labels, with the random values they draw. \<open>Restart\<close> is a process
  restart: the file is read back and pruned.
\<close>

datatype refresh_op =
    Issue string string uid string string   \<comment> \<open>token, family, user, client, scope\<close>
  | Rotate string string                     \<comment> \<open>next token, presented token\<close>
  | Revoke string
  | RevokeFamily string
  | RevokeForUser uid
  | RevokeForClient string
  | Restart

fun refresh_do :: "(string \<Rightarrow> string) \<Rightarrow> ms \<times> refresh_op \<Rightarrow> refresh_store \<Rightarrow> refresh_store" where
  "refresh_do dg (now, Issue tok fam i c s) st = snd (issue dg now tok fam i c s st)"
| "refresh_do dg (now, Rotate next tok) st = snd (rotate_token dg now next tok st)"
| "refresh_do dg (now, Revoke tok) st = snd (revoke_token dg tok st)"
| "refresh_do dg (now, RevokeFamily fam) st = revokeFamily fam st"
| "refresh_do dg (now, RevokeForUser i) st = revokeForUser i st"
| "refresh_do dg (now, RevokeForClient c) st = revokeForClient c st"
| "refresh_do dg (now, Restart) st = init_refresh (tokensFile st) now"

text \<open>Random values are fresh: a new token's digest is no key, a new chain's id no chain's.\<close>

fun fresh_for :: "(string \<Rightarrow> string) \<Rightarrow> refresh_op \<Rightarrow> refresh_store \<Rightarrow> bool" where
  "fresh_for dg (Issue tok fam i c s) st \<longleftrightarrow>
     look (tokens st) (dg tok) = None \<and> list_all (\<lambda>r. f_familyId r \<noteq> fam) (vals (tokens st))"
| "fresh_for dg (Rotate next tok) st \<longleftrightarrow> look (tokens st) (dg next) = None"
| "fresh_for dg _ st \<longleftrightarrow> True"

inductive refresh_step :: "(string \<Rightarrow> string) \<Rightarrow> refresh_store \<Rightarrow> refresh_store \<Rightarrow> bool" for dg where
  step: "fresh_for dg ev st \<Longrightarrow> refresh_step dg st (refresh_do dg (now, ev) st)"

subsection \<open>The chain invariant\<close>

definition live :: "RefreshRecord \<Rightarrow> bool" where
  "live r \<longleftrightarrow> f_usedAt r = None"

definition same_chain :: "RefreshRecord \<Rightarrow> RefreshRecord \<Rightarrow> bool" where
  "same_chain r q \<longleftrightarrow> f_userId r = f_userId q \<and> f_clientId r = f_clientId q \<and> f_scope r = f_scope q"

text \<open>
  Within a family every token is for one user, client and scope, and at most one is live.
\<close>

definition chains_ok :: "(string, RefreshRecord) jsmap \<Rightarrow> bool" where
  "chains_ok m \<longleftrightarrow> unique_keys m \<and>
     (\<forall>k r j q. look m k = Some r \<longrightarrow> look m j = Some q \<longrightarrow> f_familyId r = f_familyId q \<longrightarrow>
        same_chain r q \<and> (live r \<longrightarrow> live q \<longrightarrow> k = j))"

definition refresh_inv :: "refresh_store \<Rightarrow> bool" where
  "refresh_inv st \<longleftrightarrow> chains_ok (tokens st) \<and> read_file (tokensFile st) = tokens st"

lemma delete_where_tokens [simp]: "tokens (delete_where p st) = drop_where p (tokens st)"
  by (auto simp: delete_where_def persistTokens_def drop_where_none)

lemma delete_where_file:
  "read_file (tokensFile st) = tokens st \<Longrightarrow>
   read_file (tokensFile (delete_where p st)) = drop_where p (tokens st)"
  by (auto simp: delete_where_def persistTokens_def drop_where_none)

lemma chains_ok_drop: "chains_ok m \<Longrightarrow> chains_ok (drop_where p m)"
  unfolding chains_ok_def by (auto simp: look_drop_where_Some simp del: map_of_eq_Some_iff)

lemma chains_ok_del: "chains_ok m \<Longrightarrow> chains_ok (del k m)"
  unfolding chains_ok_def by (auto split: if_splits simp del: map_of_eq_Some_iff)

lemma delete_where_inv [inv_intros]: "refresh_inv st \<Longrightarrow> refresh_inv (delete_where p st)"
  by (simp add: refresh_inv_def chains_ok_drop delete_where_file)

lemma append_simps:
  "tokens (append_token dg now tok fam i c s st) =
     put (dg tok) \<lparr>f_familyId = fam, f_userId = i, f_clientId = c, f_scope = s, f_issuedAt = now,
       f_expiresAt = now + REFRESH_TTL_MS, f_usedAt = None\<rparr> (tokens (dropStaleTombstones now st))"
  "tokensFile (append_token dg now tok fam i c s st) = Some (tokens (append_token dg now tok fam i c s st))"
  by (simp_all add: append_token_def persistTokens_def Let_def)

text \<open>A token whose family has no other live token may join it.\<close>

lemma chains_ok_put:
  assumes "chains_ok m" "\<And>j q. look m j = Some q \<Longrightarrow> f_familyId q = f_familyId r \<Longrightarrow> j \<noteq> k \<Longrightarrow>
      same_chain r q \<and> (live r \<longrightarrow> \<not> live q)"
  shows "chains_ok (put k r m)"
  unfolding chains_ok_def
proof (intro conjI allI impI)
  show "unique_keys (put k r m)" using assms(1) by (simp add: chains_ok_def)
next
  fix j1 r1 j2 r2
  assume a: "look (put k r m) j1 = Some r1" "look (put k r m) j2 = Some r2"
    "f_familyId r1 = f_familyId r2"
  consider "j1 = k" "j2 = k" | "j1 = k" "j2 \<noteq> k" | "j1 \<noteq> k" "j2 = k" | "j1 \<noteq> k" "j2 \<noteq> k" by blast
  then have "same_chain r1 r2 \<and> (live r1 \<longrightarrow> live r2 \<longrightarrow> j1 = j2)"
  proof cases
    case 1 with a show ?thesis by (simp add: same_chain_def)
  next
    case 2 with a assms(2) [of j2 r2] show ?thesis by simp
  next
    case 3 with a assms(2) [of j1 r1] show ?thesis by (auto simp: same_chain_def)
  next
    case 4 with a assms(1) show ?thesis unfolding chains_ok_def look_put by metis
  qed
  then show "same_chain r1 r2" "live r1 \<Longrightarrow> live r2 \<Longrightarrow> j1 = j2" by simp_all
qed

lemma dropStale_tokens: "tokens (dropStaleTombstones now st) =
    drop_where (\<lambda>r. case f_usedAt r of None \<Rightarrow> False | Some u \<Rightarrow> u < now - SPENT_TTL_MS) (tokens st)"
  by (simp add: dropStaleTombstones_def)

lemma append_inv:
  assumes "chains_ok (tokens st)"
    and "\<And>j q. look (tokens st) j = Some q \<Longrightarrow> f_familyId q = fam \<Longrightarrow>
      f_userId q = i \<and> f_clientId q = c \<and> f_scope q = s \<and> \<not> live q"
  shows "refresh_inv (append_token dg now tok fam i c s st)"
proof -
  from assms(1) have u: "unique_keys (tokens st)" by (simp add: chains_ok_def)
  have "chains_ok (tokens (append_token dg now tok fam i c s st))"
    unfolding append_simps dropStale_tokens
  proof (rule chains_ok_put)
    show "chains_ok (drop_where (\<lambda>r. case f_usedAt r of None \<Rightarrow> False | Some u \<Rightarrow> u < now - SPENT_TTL_MS)
        (tokens st))" using assms(1) by (rule chains_ok_drop)
  qed (use assms(2) in \<open>auto simp: look_drop_where_Some [OF u] same_chain_def
      simp del: map_of_eq_Some_iff\<close>)
  then show ?thesis by (simp add: refresh_inv_def append_simps)
qed

lemma issue_inv [inv_intros]:
  assumes "refresh_inv st" "fresh_for dg (Issue tok fam i c s) st"
  shows "refresh_inv (snd (issue dg now tok fam i c s st))"
  using assms append_inv [of st fam i c s dg now tok]
  by (force simp: issue_def refresh_inv_def list_all_iff dest: map_of_SomeD simp del: map_of_eq_Some_iff)

lemma rotate_inv [inv_intros]:
  assumes inv: "refresh_inv st"
  shows "refresh_inv (snd (rotate_token dg now next tok st))"
proof (cases "look (tokens st) (dg tok)")
  case (Some rec)
  let ?st = "st\<lparr>tokens := put (dg tok) (rec\<lparr>f_usedAt := Some now\<rparr>) (tokens st)\<rparr>"
  from inv have ok: "chains_ok (tokens st)" by (simp add: refresh_inv_def)
  have fam: "same_chain rec q \<and> (live rec \<longrightarrow> live q \<longrightarrow> j = dg tok)"
    if "look (tokens st) j = Some q" "f_familyId q = f_familyId rec" for j q
    using ok Some that unfolding chains_ok_def by metis
  have ok': "chains_ok (tokens ?st)"
    using fam by (simp, intro chains_ok_put [OF ok]) (auto simp: same_chain_def live_def)
  have dead: "f_userId q = f_userId rec \<and> f_clientId q = f_clientId rec \<and> f_scope q = f_scope rec
      \<and> \<not> live q"
    if "live rec" "look (tokens ?st) j = Some q" "f_familyId q = f_familyId rec" for j q
    using fam that by (auto simp: same_chain_def live_def simp del: map_of_eq_Some_iff split: if_splits)
  have "refresh_inv (append_token dg now next (f_familyId rec) (f_userId rec) (f_clientId rec)
      (f_scope rec) ?st)" if "f_usedAt rec = None"
    by (rule append_inv [OF ok']) (rule dead [OF iffD2 [OF live_def that]], assumption+)
  moreover have "refresh_inv (persistTokens (st\<lparr>tokens := del (dg tok) (tokens st)\<rparr>))"
    using ok by (simp add: refresh_inv_def persistTokens_def chains_ok_del)
  ultimately show ?thesis
    using inv delete_where_inv [OF inv, of "\<lambda>r. f_familyId r = f_familyId rec"]
    unfolding rotate_token_def Some revokeFamily_def by simp
qed (use inv in \<open>simp add: rotate_token_def\<close>)

lemma init_refresh_inv [inv_intros]:
  "refresh_inv st \<Longrightarrow> refresh_inv (init_refresh (tokensFile st) now)"
  unfolding init_refresh_def pruneExpiredTokens_def
  by (intro inv_intros) (simp add: refresh_inv_def)

lemma refresh_do_inv:
  assumes "fresh_for dg ev st" "refresh_inv st"
  shows "refresh_inv (refresh_do dg (now, ev) st)"
proof (cases ev)
  case (Issue tok fam i c s)
  with assms issue_inv [of st dg tok fam i c s now] show ?thesis by simp
next
  case (Revoke tok)
  with assms(2) delete_where_inv [OF assms(2)] show ?thesis
    by (simp add: revoke_token_def revokeFamily_def split: option.split)
qed (use assms(2) in \<open>simp_all add: rotate_inv init_refresh_inv delete_where_inv revokeFamily_def
      revokeForUser_def revokeForClient_def\<close>)

interpretation refresh_chains: invariant_store refresh_inv "refresh_step dg"
  by unfold_locales (auto elim!: refresh_step.cases intro: refresh_do_inv)

lemma init_refresh_None: "refresh_inv (init_refresh None now)"
  unfolding init_refresh_def pruneExpiredTokens_def
  by (intro inv_intros) (simp add: refresh_inv_def chains_ok_def)

subsection \<open>What becomes of a spent token\<close>

text \<open>
  A family is sealed by the tombstone under \<open>key\<close> when that tombstone is present and every token
  of the family has the same user and client, or the family is gone altogether.
\<close>

definition sealed :: "string \<Rightarrow> string \<Rightarrow> ms \<Rightarrow> ms \<Rightarrow> uid \<Rightarrow> string \<Rightarrow> (string, RefreshRecord) jsmap \<Rightarrow> bool"
where
  "sealed key fam t e u c m \<longleftrightarrow> unique_keys m \<and>
     ((\<exists>rec. look m key = Some rec \<and> f_familyId rec = fam \<and> f_usedAt rec = Some t \<and> f_expiresAt rec = e)
        \<and> (\<forall>k q. look m k = Some q \<longrightarrow> f_familyId q = fam \<longrightarrow> f_userId q = u \<and> f_clientId q = c)
      \<or> (\<forall>k q. look m k = Some q \<longrightarrow> f_familyId q \<noteq> fam))"

lemma sealed_drop:
  assumes "sealed key fam t e u c m"
    and "(\<forall>q. f_familyId q = fam \<longrightarrow> f_userId q = u \<longrightarrow> f_clientId q = c \<longrightarrow> f_usedAt q = Some t \<longrightarrow>
            f_expiresAt q = e \<longrightarrow> \<not> p q)
       \<or> (\<forall>q. f_familyId q = fam \<longrightarrow> f_userId q = u \<longrightarrow> f_clientId q = c \<longrightarrow> p q)"
  shows "sealed key fam t e u c (drop_where p m)"
proof -
  have un: "unique_keys m" using assms(1) by (simp add: sealed_def)
  show ?thesis
    using assms unfolding sealed_def look_drop_where_Some [OF un]
    by (elim conjE disjE) (simp, metis)+
qed

lemma sealed_put:
  assumes "sealed key fam t e u c m"
    and "f_familyId r = fam \<Longrightarrow> \<exists>k q. look m k = Some q \<and> f_familyId q = fam
          \<and> f_userId q = f_userId r \<and> f_clientId q = f_clientId r"
    and "k = key \<Longrightarrow> \<not> (\<exists>q. look m key = Some q \<and> f_familyId q = fam \<and> f_usedAt q \<noteq> None)"
  shows "sealed key fam t e u c (put k r m)"
  using assms unfolding sealed_def look_put by (elim conjE disjE) (simp, metis option.distinct(1))+

lemma sealed_del:
  assumes "sealed key fam t e u c m"
    and "k = key \<Longrightarrow> \<not> (\<exists>q. look m key = Some q \<and> f_familyId q = fam \<and> f_usedAt q \<noteq> None)"
  shows "sealed key fam t e u c (del k m)"
  using assms unfolding sealed_def look_del
  by (elim conjE disjE) (simp, metis option.distinct(1), auto simp del: map_of_eq_Some_iff split: if_splits)

text \<open>Events that cannot break the seal: drawn values are new and the tombstone is still due.\<close>

fun keeps_seal :: "(string \<Rightarrow> string) \<Rightarrow> string \<Rightarrow> string \<Rightarrow> ms \<Rightarrow> ms \<Rightarrow> ms \<times> refresh_op \<Rightarrow> bool" where
  "keeps_seal dg key fam t e (now, Issue tok f i c s) \<longleftrightarrow>
     now \<le> t + SPENT_TTL_MS \<and> f \<noteq> fam \<and> dg tok \<noteq> key"
| "keeps_seal dg key fam t e (now, Rotate next tok) \<longleftrightarrow> now \<le> t + SPENT_TTL_MS \<and> dg next \<noteq> key"
| "keeps_seal dg key fam t e (now, Restart) \<longleftrightarrow> now \<le> t + SPENT_TTL_MS \<and> now \<le> e"
| "keeps_seal dg key fam t e (now, ev) \<longleftrightarrow> True"

lemma sealed_append:
  assumes "sealed key fam t e u c (tokens st)" "now \<le> t + SPENT_TTL_MS" "dg tok \<noteq> key"
    and "f = fam \<Longrightarrow> i = u \<and> cl = c \<and> (\<exists>q. look (tokens st) key = Some q \<and> f_familyId q = fam
       \<and> f_usedAt q = Some t)"
  shows "sealed key fam t e u c (tokens (append_token dg now tok f i cl s st))"
proof -
  let ?p = "\<lambda>r. case f_usedAt r of None \<Rightarrow> False | Some u \<Rightarrow> u < now - SPENT_TTL_MS"
  have un: "unique_keys (tokens st)" using assms(1) by (simp add: sealed_def)
  have d: "sealed key fam t e u c (drop_where ?p (tokens st))"
    by (rule sealed_drop [OF assms(1)]) (use assms(2) in auto)
  have "\<exists>k q. look (drop_where ?p (tokens st)) k = Some q \<and> f_familyId q = fam \<and> f_userId q = i
      \<and> f_clientId q = cl" if f: "f = fam"
  proof -
    from assms(4) [OF f] obtain q where q: "look (tokens st) key = Some q" "f_familyId q = fam"
      "f_usedAt q = Some t" "i = u" "cl = c" by blast
    with assms(1) have "f_userId q = i \<and> f_clientId q = cl" unfolding sealed_def by metis
    with q assms(2) show ?thesis
      unfolding look_drop_where_Some [OF un] by (intro exI [of _ key] exI [of _ q]) auto
  qed
  with d assms(3) show ?thesis
    unfolding append_simps dropStale_tokens by (intro sealed_put) auto
qed

lemma sealed_rotate:
  assumes "sealed key fam t e u c (tokens st)" "now \<le> t + SPENT_TTL_MS" "dg next \<noteq> key"
  shows "sealed key fam t e u c (tokens (snd (rotate_token dg now next tok st)))"
proof (cases "look (tokens st) (dg tok)")
  case (Some rec)
  show ?thesis
  proof (cases "f_usedAt rec")
    case None
    have notomb: "\<not> (\<exists>q. look (tokens st) key = Some q \<and> f_familyId q = fam \<and> f_usedAt q \<noteq> None)"
      if "dg tok = key" using Some None that by auto
    let ?st = "st\<lparr>tokens := put (dg tok) (rec\<lparr>f_usedAt := Some now\<rparr>) (tokens st)\<rparr>"
    have 1: "sealed key fam t e u c (tokens ?st)"
      using Some notomb by (simp, intro sealed_put [OF assms(1)]) auto
    have "f_userId rec = u \<and> f_clientId rec = c \<and> (\<exists>q. look (tokens ?st) key = Some q
        \<and> f_familyId q = fam \<and> f_usedAt q = Some t)" if "f_familyId rec = fam"
      using assms(1) Some None that unfolding sealed_def by (auto simp del: map_of_eq_Some_iff)
    with 1 assms(2,3)
    have 2: "sealed key fam t e u c (tokens (append_token dg now next (f_familyId rec) (f_userId rec)
        (f_clientId rec) (f_scope rec) ?st))" by (intro sealed_append) blast+
    have "sealed key fam t e u c (del (dg tok) (tokens st))"
      by (rule sealed_del [OF assms(1)]) (use notomb in blast)
    with 2 Some None show ?thesis by (simp add: rotate_token_def persistTokens_def)
  next
    case (Some w)
    have "sealed key fam t e u c (drop_where (\<lambda>r. f_familyId r = f_familyId rec) (tokens st))"
      by (rule sealed_drop [OF assms(1)]) auto
    with Some \<open>look _ _ = Some rec\<close> show ?thesis by (simp add: rotate_token_def revokeFamily_def)
  qed
qed (use assms(1) in \<open>simp add: rotate_token_def\<close>)

lemma synced_do:
  assumes "read_file (tokensFile st) = tokens st"
  shows "read_file (tokensFile (refresh_do dg ev st)) = tokens (refresh_do dg ev st)"
  using assms
  by (induction dg ev st rule: refresh_do.induct)
     (auto simp: issue_def rotate_token_def revoke_token_def revokeFamily_def revokeForUser_def
       revokeForClient_def init_refresh_def pruneExpiredTokens_def append_simps delete_where_file
       persistTokens_def split: option.split)

lemma sealed_do:
  assumes "sealed key fam t e u c (tokens st)" "read_file (tokensFile st) = tokens st"
    and "keeps_seal dg key fam t e ev"
  shows "sealed key fam t e u c (tokens (refresh_do dg ev st))"
proof -
  obtain now x where ev: "ev = (now, x)" by (cases ev)
  note drop = sealed_drop [OF assms(1)]
  show ?thesis
  proof (cases x)
    case (Issue tok f i cl s)
    with assms ev show ?thesis by (auto simp: issue_def intro!: sealed_append)
  next
    case (Rotate nxt tok)
    with assms ev show ?thesis by (auto intro!: sealed_rotate)
  next
    case (Revoke tok)
    have "sealed key fam t e u c (drop_where (\<lambda>r. f_familyId r = f) (tokens st))" for f
      by (rule drop) auto
    with Revoke assms(1) ev show ?thesis
      by (simp add: revoke_token_def revokeFamily_def split: option.split)
  next
    case (RevokeFamily f)
    then show ?thesis using ev by (simp add: revokeFamily_def) (rule drop, auto)
  next
    case (RevokeForUser i)
    then show ?thesis using ev by (simp add: revokeForUser_def) (rule drop, auto)
  next
    case (RevokeForClient i)
    then show ?thesis using ev by (simp add: revokeForClient_def) (rule drop, auto)
  next
    case Restart
    then show ?thesis using ev assms(2,3)
      by (simp add: init_refresh_def pruneExpiredTokens_def) (rule drop, auto split: option.split)
  qed
qed

lemma sealed_run:
  assumes "sealed key fam t e u c (tokens st)" "read_file (tokensFile st) = tokens st"
    and "list_all (keeps_seal dg key fam t e) evs"
  shows "sealed key fam t e u c (tokens (fold (refresh_do dg) evs st))"
  using assms
  by (induction evs arbitrary: st) (auto simp: synced_do sealed_do)

lemma sealed_replay:
  assumes "sealed (dg tok) fam t e u c (tokens st)"
  shows "\<exists>out st'. rotate_token dg now next tok st = (out, st')
    \<and> (\<forall>g n. out = Rotated g n \<longrightarrow> g_familyId g \<noteq> fam)
    \<and> (\<forall>k r. look (tokens st') k = Some r \<longrightarrow> f_familyId r \<noteq> fam)"
proof (cases "\<exists>rec. look (tokens st) (dg tok) = Some rec \<and> f_familyId rec = fam \<and> f_usedAt rec = Some t")
  case True
  have un: "unique_keys (tokens st)" using assms by (simp add: sealed_def)
  from True show ?thesis
    by (auto simp: rotate_token_def revokeFamily_def look_drop_where_Some [OF un]
        simp del: map_of_eq_Some_iff)
next
  case False
  with assms have gone: "\<forall>k q. look (tokens st) k = Some q \<longrightarrow> f_familyId q \<noteq> fam" and
    un: "unique_keys (tokens st)" unfolding sealed_def by blast+
  show ?thesis
  proof (cases "look (tokens st) (dg tok)")
    case (Some rec)
    with gone have "f_familyId rec \<noteq> fam" by blast
    with Some gone un show ?thesis
      by (auto simp: rotate_token_def revokeFamily_def append_simps dropStale_tokens persistTokens_def
          look_drop_where_Some simp del: map_of_eq_Some_iff split: if_splits)
  qed (use gone in \<open>auto simp: rotate_token_def\<close>)
qed

subsection \<open>Revocation by user\<close>

definition holds_token :: "refresh_store \<Rightarrow> uid \<Rightarrow> string \<Rightarrow> bool" where
  "holds_token st i k \<longleftrightarrow> list_ex (\<lambda>(k', r). k' = k \<and> f_userId r = i) (tokens st)"

interpretation refresh_credentials: credential_store revokeForUser holds_token
  by unfold_locales (auto simp: holds_token_def revokeForUser_def list_ex_iff)

lemma rotated_holds:
  assumes "fst (rotate_token dg now next tok st) = Rotated g n"
  shows "holds_token st (g_userId g) (dg tok)"
  using assms
  by (auto simp: rotate_token_def holds_token_def list_ex_iff dest!: map_of_SomeD split: option.splits if_splits)

subsection \<open>The list of connected apps\<close>

definition live_of :: "uid \<Rightarrow> RefreshRecord \<Rightarrow> bool" where
  "live_of i r \<longleftrightarrow> f_userId r = i \<and> live r"

lemma live_of_eq: "live_of i = (\<lambda>r. f_userId r = i \<and> live r)"
  by (simp add: live_of_def fun_eq_iff)

lemma newest_by_family_put:
  assumes "unique_keys m" "\<And>fam. fam \<in> set (keys m) \<Longrightarrow> fam \<notin> f_familyId ` set (filter (live_of i) rs)"
    and "distinct (map f_familyId (filter (live_of i) rs))"
  shows "newest_by_family i rs m = m @ map (\<lambda>r. (f_familyId r, r)) (filter (live_of i) rs)"
  using assms
proof (induction rs arbitrary: m)
  case (Cons r rs)
  show ?case
  proof (cases "live_of i r")
    case False
    then have "newest_by_family i (r # rs) m = newest_by_family i rs m"
      by (auto simp: live_of_def live_def)
    with Cons False show ?thesis by simp
  next
    case True
    with Cons.prems(2) have new: "look m (f_familyId r) = None"
      by (force simp: map_of_eq_None_iff)
    have "newest_by_family i (r # rs) m = newest_by_family i rs (m @ [(f_familyId r, r)])"
      using True new by (auto simp: live_of_def live_def put_fresh)
    also have "\<dots> = (m @ [(f_familyId r, r)]) @ map (\<lambda>r. (f_familyId r, r)) (filter (live_of i) rs)"
      using Cons.prems True new by (intro Cons.IH) (auto simp: map_of_eq_None_iff image_iff)
    finally show ?thesis using True by simp
  qed
qed simp

lemma live_families_distinct:
  assumes "chains_ok m"
  shows "distinct (map f_familyId (filter live (vals m)))"
proof -
  have u: "unique_keys m" using assms by (simp add: chains_ok_def)
  have "distinct (filter (\<lambda>(k, r). live r) m)" using u by (simp add: distinct_map)
  moreover have "inj_on (\<lambda>(k, r). f_familyId r) (set (filter (\<lambda>(k, r). live r) m))"
  proof (rule inj_onI, clarsimp)
    fix k r j q assume "(k, r) \<in> set m" "(j, q) \<in> set m" "live r" "live q" "f_familyId r = f_familyId q"
    with assms u show "k = j \<and> r = q" unfolding chains_ok_def by (metis map_of_is_SomeI option.inject)
  qed
  ultimately have "distinct (map (\<lambda>(k, r). f_familyId r) (filter (\<lambda>(k, r). live r) m))"
    by (simp add: distinct_map)
  then show ?thesis by (simp add: filter_map o_def case_prod_unfold)
qed

lemma listForUser_eq:
  assumes "chains_ok (tokens st)"
  shows "listForUser i st = sort_key (\<lambda>c. - c_issuedAt c)
    (map (\<lambda>r. \<lparr>c_familyId = f_familyId r, c_clientId = f_clientId r, c_scope = f_scope r,
               c_issuedAt = f_issuedAt r, c_expiresAt = f_expiresAt r\<rparr>)
      (filter (live_of i) (vals (tokens st))))"
proof -
  have f: "filter (live_of i) rs = filter (\<lambda>r. f_userId r = i) (filter live rs)" for rs
    by (auto simp: live_of_def intro: filter_cong)
  have "distinct (map f_familyId (filter (live_of i) (vals (tokens st))))"
    unfolding f using live_families_distinct [OF assms] by (rule distinct_map_filter)
  then have "newest_by_family i (vals (tokens st)) [] =
      [] @ map (\<lambda>r. (f_familyId r, r)) (filter (live_of i) (vals (tokens st)))"
    by (intro newest_by_family_put) auto
  then show ?thesis by (simp add: listForUser_def comp_def del: filter_map)
qed

lemma unique_keys_rotate:
  "unique_keys (tokens st) \<Longrightarrow> unique_keys (tokens (snd (rotate_token dg now next tok st)))"
  by (auto simp: rotate_token_def revokeFamily_def append_simps dropStale_tokens persistTokens_def
      split: option.split)

lemma sealed_start:
  assumes "refresh_inv st" "look (tokens st) (dg tok) = Some rec"
    and "rotate_token dg t next tok st = (Rotated g next, st1)" "dg next \<noteq> dg tok"
  shows "sealed (dg tok) (f_familyId rec) t (f_expiresAt rec) (f_userId rec) (f_clientId rec) (tokens st1)"
proof -
  let ?st = "st\<lparr>tokens := put (dg tok) (rec\<lparr>f_usedAt := Some t\<rparr>) (tokens st)\<rparr>"
  have ok: "chains_ok (tokens st)" using assms(1) by (simp add: refresh_inv_def)
  have st1: "st1 = append_token dg t next (f_familyId rec) (f_userId rec) (f_clientId rec) (f_scope rec) ?st"
    using assms(2,3) by (auto simp: rotate_token_def split: if_splits)
  have "\<forall>k q. look (tokens st) k = Some q \<longrightarrow> f_familyId q = f_familyId rec \<longrightarrow>
      f_userId q = f_userId rec \<and> f_clientId q = f_clientId rec"
    using ok assms(2) unfolding chains_ok_def same_chain_def by metis
  then have "sealed (dg tok) (f_familyId rec) t (f_expiresAt rec) (f_userId rec) (f_clientId rec) (tokens ?st)"
    using ok unfolding sealed_def chains_ok_def by (intro conjI disjI1) (auto simp del: map_of_eq_Some_iff)
  then show ?thesis
    unfolding st1 using assms(4) by (intro sealed_append) (auto simp: SPENT_TTL_MS_def)
qed

subsection \<open>Properties\<close>


text \<open>
  C13. Reuse detection over any history. Once a token has been exchanged at time \<open>t\<close>, then after
  any sequence of the store's operations by other parties within the seven days its tombstone
  is kept (fresh random values, and restarts only while the token itself has not passed its
  expiry), presenting it again never yields a grant of its chain, and from then on no token of
  the chain is stored: neither the thief's nor the holder's works.
\<close>

theorem replay_kills_the_chain:
  assumes "refresh_inv st" "look (tokens st) (dg tok) = Some rec"
    and "rotate_token dg t next tok st = (Rotated g next, st1)" "dg next \<noteq> dg tok"
    and "list_all (keeps_seal dg (dg tok) (f_familyId rec) t (f_expiresAt rec)) evs"
    and "rotate_token dg now next2 tok (fold (refresh_do dg) evs st1) = (out, st2)"
  shows "(\<forall>g' n. out = Rotated g' n \<longrightarrow> g_familyId g' \<noteq> g_familyId g)
    \<and> list_all (\<lambda>r. f_familyId r \<noteq> g_familyId g) (vals (tokens st2))"
proof -
  have fam: "g_familyId g = f_familyId rec" and unused: "f_usedAt rec = None"
    using assms(2,3) by (auto simp: rotate_token_def split: if_splits)
  have "sealed (dg tok) (f_familyId rec) t (f_expiresAt rec) (f_userId rec) (f_clientId rec) (tokens st1)"
    by (rule sealed_start [OF assms(1,2,3,4)])
  moreover have "read_file (tokensFile st1) = tokens st1"
    using rotate_inv [OF assms(1), of dg t "next" tok] assms(3) by (simp add: refresh_inv_def)
  ultimately have seal: "sealed (dg tok) (f_familyId rec) t (f_expiresAt rec) (f_userId rec)
      (f_clientId rec) (tokens (fold (refresh_do dg) evs st1))"
    using assms(5) by (rule sealed_run)
  from sealed_replay [of dg tok, OF seal, of now next2] assms(6) fam
  have "(\<forall>g' n. out = Rotated g' n \<longrightarrow> g_familyId g' \<noteq> g_familyId g)
    \<and> (\<forall>k r. look (tokens st2) k = Some r \<longrightarrow> f_familyId r \<noteq> g_familyId g)" by auto
  moreover have "unique_keys (tokens st2)"
    using unique_keys_rotate [of "fold (refresh_do dg) evs st1" dg now next2 tok] assms(6)
      seal by (simp add: sealed_def)
  ultimately show ?thesis by (auto simp: list_all_iff)
qed

text \<open>
  C15. Revocation by user. After it no presented token yields a grant for that user and the
  user's connected apps are empty; a token of anyone else resolves to the same grant as before,
  and is refused or recognised as reused exactly as before.
\<close>

theorem revoke_for_user_is_complete:
  assumes "refresh_inv st"
  shows "(\<forall>g n. fst (rotate_token dg now next tok (revokeForUser i st)) = Rotated g n \<longrightarrow> g_userId g \<noteq> i)
    \<and> listForUser i (revokeForUser i st) = []
    \<and> ((\<forall>r. look (tokens st) (dg tok) = Some r \<longrightarrow> f_userId r \<noteq> i) \<longrightarrow>
         fst (rotate_token dg now next tok (revokeForUser i st)) = fst (rotate_token dg now next tok st))
    \<and> (j \<noteq> i \<longrightarrow> listForUser j (revokeForUser i st) = listForUser j st)"
proof -
  have ok: "chains_ok (tokens st)" using assms by (simp add: refresh_inv_def)
  then have u: "unique_keys (tokens st)" by (simp add: chains_ok_def)
  have ok': "chains_ok (tokens (revokeForUser i st))"
    using ok by (simp add: revokeForUser_def chains_ok_drop)
  have l: "filter (live_of j) (vals (drop_where (\<lambda>r. f_userId r = i) m)) =
      (if j = i then [] else filter (live_of j) (vals m))" for j and m :: "(string, RefreshRecord) jsmap"
    by (induction m) (auto simp: drop_where_def live_of_eq)
  have "g_userId g \<noteq> i" if "fst (rotate_token dg now next tok (revokeForUser i st)) = Rotated g n" for g n
    using rotated_holds [OF that] refresh_credentials.revoke_ends by blast
  moreover have "fst (rotate_token dg now next tok (revokeForUser i st)) = fst (rotate_token dg now next tok st)"
    if "\<forall>r. look (tokens st) (dg tok) = Some r \<longrightarrow> f_userId r \<noteq> i"
    using that by (auto simp: rotate_token_def revokeForUser_def look_drop_where [OF u]
        simp del: map_of_eq_Some_iff split: option.split)
  ultimately show ?thesis
    unfolding listForUser_eq [OF ok] listForUser_eq [OF ok']
    unfolding revokeForUser_def delete_where_tokens l by auto
qed

text \<open>Concrete runs, with the identity for the digest.\<close>

definition demo_tokens :: refresh_store where
  "demo_tokens = snd (issue id 0 ''a'' ''fam'' ''u1'' ''cli'' ''openid'' (init_refresh None 0))"

lemma demo_tokens_inv: "refresh_inv demo_tokens"
  unfolding demo_tokens_def by (rule issue_inv [OF init_refresh_None]) code_simp


theorem replay_kills_the_chain_witness:
  "\<exists>st2 :: refresh_store. list_all (\<lambda>r. f_familyId r \<noteq> ''fam'') (vals (tokens st2))"
proof -
  let ?st1 = "snd (rotate_token id 5 ''b'' ''a'' demo_tokens)"
  let ?g = "\<lparr>g_familyId = ''fam'', g_userId = ''u1'', g_clientId = ''cli'', g_scope = ''openid''\<rparr>"
  let ?evs = "[(6, Rotate ''c'' ''b''), (7, Restart), (8, Issue ''d'' ''fam2'' ''u1'' ''cli'' ''openid'')]"
  have "\<exists>rec. look (tokens demo_tokens) ''a'' = Some rec \<and> f_familyId rec = ''fam''
      \<and> f_expiresAt rec = REFRESH_TTL_MS"
    by (simp add: demo_tokens_def issue_def append_simps dropStale_tokens init_refresh_def
        pruneExpiredTokens_def drop_where_def)
  then obtain rec where rec: "look (tokens demo_tokens) (id ''a'') = Some rec"
    "f_familyId rec = ''fam''" "f_expiresAt rec = REFRESH_TTL_MS" by auto
  have "fst (rotate_token id 5 ''b'' ''a'' demo_tokens) = Rotated ?g ''b''" by code_simp
  then have rot: "rotate_token id 5 ''b'' ''a'' demo_tokens = (Rotated ?g ''b'', ?st1)"
    by (simp add: prod_eq_iff)
  have evs: "list_all (keeps_seal id (id ''a'') (f_familyId rec) 5 (f_expiresAt rec)) ?evs"
    by (simp add: rec SPENT_TTL_MS_def REFRESH_TTL_MS_def)
  have "id ''b'' \<noteq> id ''a''" by simp
  moreover obtain out st2
    where "rotate_token id 9 ''e'' ''a'' (fold (refresh_do id) ?evs ?st1) = (out, st2)"
    by (rule prod.exhaust)
  ultimately have "list_all (\<lambda>r. f_familyId r \<noteq> g_familyId ?g) (vals (tokens st2))"
    using replay_kills_the_chain [OF demo_tokens_inv rec(1) rot _ evs] by blast
  then show ?thesis by auto
qed

theorem revoke_for_user_is_complete_witness:
  "refresh_inv demo_tokens \<and> listForUser ''u1'' (revokeForUser ''u1'' demo_tokens) = []"
  using revoke_for_user_is_complete [OF demo_tokens_inv, of id 0 "[]" "[]" "''u1''"] demo_tokens_inv
  by blast

text \<open>
  A restart forgets a tombstone when the spent token's own expiry has passed, even inside the
  window it is meant to be kept for: the replay is then merely unknown and the chain lives on.
\<close>

lemma restart_forgets_a_tombstone:
  "let st = snd (rotate_token id REFRESH_TTL_MS ''b'' ''a'' demo_tokens);
       st' = init_refresh (tokensFile st) (REFRESH_TTL_MS + 1)
   in fst (rotate_token id (REFRESH_TTL_MS + 2) ''c'' ''a'' st) = Reused
    \<and> fst (rotate_token id (REFRESH_TTL_MS + 2) ''c'' ''a'' st') = NoGrant
    \<and> keys (tokens st') = [''b'']"
  by code_simp

end
