(* ===== verification/Oidc_Tokens.thy ===== *)
theory Oidc_Tokens
  imports Protocol
begin

text \<open>
  What the provider says about a user to a relying party
  (\<open>apps/server/src/features/oidc/tokens.ts\<close>): scopes, the groups claim, the claims of ID
  tokens and access tokens.

  Signing is left out: a token is its payload, sealed by a function \<open>sign\<close> and opened by a
  function \<open>unseal\<close> (the RS256 signature check), which are parameters wherever they are used.
\<close>

definition ID_TOKEN_TTL_S :: int where "ID_TOKEN_TTL_S = 5 * 60"
definition ACCESS_TOKEN_TTL_S :: int where "ACCESS_TOKEN_TTL_S = 60 * 60"

definition hasScope :: "string \<Rightarrow> string \<Rightarrow> bool" where
  "hasScope scope wanted \<longleftrightarrow> wanted \<in> set (js_words scope)"

text \<open>The namespace node of a prefix; null and the empty string mean every \<open>app.*\<close> node.\<close>

definition prefix_node :: "string option \<Rightarrow> string option" where
  "prefix_node p = (case p of None \<Rightarrow> None | Some s \<Rightarrow> if s = [] then None else Some (''app.'' @ s))"

definition in_scope :: "string option \<Rightarrow> permission \<Rightarrow> bool" where
  "in_scope node p \<longleftrightarrow> (case node of None \<Rightarrow> prefix ''app.'' p | Some n \<Rightarrow> p = n \<or> prefix (n @ ''.'') p)"

definition groupsForClient :: "UserInfo \<Rightarrow> string option \<Rightarrow> permission list \<Rightarrow> string list \<Rightarrow> permission list"
where
  "groupsForClient user groupPrefix knownAppNodes declaredRoles =
     (let node = prefix_node groupPrefix
      in if \<not> isOwner user then filter (in_scope node) (permissions user)
         else let owned = push_new [] (filter (in_scope node) (knownAppNodes @ permissions user))
              in sort (case node of
                   None \<Rightarrow> owned
                 | Some n \<Rightarrow> push_new owned
                     (if declaredRoles \<noteq> [] then map (\<lambda>role. n @ ''.'' @ role) declaredRoles
                      else [n @ ''.admin''])))"

text \<open>\<open>email_verified\<close> is true exactly when \<open>cl_email\<close> is present.\<close>

record claims =
  cl_sub :: uid
  cl_preferred_username :: "string option"
  cl_email :: "string option"
  cl_groups :: "permission list option"

definition scopedClaims :: "UserInfo \<Rightarrow> string \<Rightarrow> string option \<Rightarrow> permission list \<Rightarrow> string list \<Rightarrow> claims" where
  "scopedClaims user scope groupPrefix knownAppNodes declaredRoles =
     \<lparr>cl_sub = user_id user,
      cl_preferred_username = (if hasScope scope ''profile'' then Some (user_name user) else None),
      cl_email = (if hasScope scope ''email''
                  then (case user_email user of None \<Rightarrow> None | Some e \<Rightarrow> if e = [] then None else Some e)
                  else None),
      cl_groups = (if hasScope scope ''groups''
                   then Some (groupsForClient user groupPrefix knownAppNodes declaredRoles) else None)\<rparr>"

text \<open>The payload of either kind of token; times are in seconds.\<close>

record jwt = claims +
  j_iss :: string
  j_aud :: string
  j_exp :: int
  j_iat :: int
  j_auth_time :: "int option"
  j_nonce :: "string option"
  j_scope :: "string option"

definition buildIdToken :: "UserInfo \<Rightarrow> string \<Rightarrow> string \<Rightarrow> string option \<Rightarrow> int \<Rightarrow> string \<Rightarrow> string option \<Rightarrow>
    permission list \<Rightarrow> string list \<Rightarrow> ms \<Rightarrow> jwt" where
  "buildIdToken user issuer clientId nonce authTime scope groupPrefix known declared now =
     (let c = scopedClaims user scope groupPrefix known declared; s = now div 1000
      in \<lparr>cl_sub = cl_sub c, cl_preferred_username = cl_preferred_username c, cl_email = cl_email c,
          cl_groups = cl_groups c, j_iss = issuer, j_aud = clientId, j_exp = s + ID_TOKEN_TTL_S,
          j_iat = s, j_auth_time = Some authTime,
          j_nonce = (case nonce of None \<Rightarrow> None | Some n \<Rightarrow> if n = [] then None else Some n),
          j_scope = None\<rparr>)"

definition buildAccessToken :: "UserInfo \<Rightarrow> string \<Rightarrow> string \<Rightarrow> string \<Rightarrow> ms \<Rightarrow> jwt" where
  "buildAccessToken user issuer clientId scope now =
     (let s = now div 1000
      in \<lparr>cl_sub = user_id user, cl_preferred_username = None, cl_email = None, cl_groups = None,
          j_iss = issuer, j_aud = clientId, j_exp = s + ACCESS_TOKEN_TTL_S, j_iat = s,
          j_auth_time = None, j_nonce = None, j_scope = Some scope\<rparr>)"

text \<open>\<open>verifyJwt\<close>: the signature, then the expiry.\<close>

definition verifyJwt :: "(string \<Rightarrow> jwt option) \<Rightarrow> ms \<Rightarrow> string \<Rightarrow> jwt option" where
  "verifyJwt unseal now token =
     (case unseal token of None \<Rightarrow> None
      | Some p \<Rightarrow> if j_exp p * 1000 < now then None else Some p)"

subsection \<open>The groups claim\<close>

lemma groups_in_scope:
  assumes "p \<in> set (groupsForClient user pre known declared)"
  shows "in_scope (prefix_node pre) p"
proof (cases "prefix_node pre")
  case None
  then show ?thesis using assms by (auto simp: groupsForClient_def Let_def split: if_splits)
next
  case (Some n)
  then show ?thesis using assms
    by (auto simp: groupsForClient_def in_scope_def Let_def split: if_splits)
qed

lemma set_groups_member:
  "\<not> isOwner user \<Longrightarrow> set (groupsForClient user pre known declared) =
    {p \<in> set (permissions user). in_scope (prefix_node pre) p}"
  by (auto simp: groupsForClient_def Let_def)

lemma in_scope_app: "in_scope (prefix_node pre) p \<Longrightarrow> prefix ''app.'' p"
  by (auto simp: in_scope_def prefix_node_def prefix_def split: option.splits if_splits)

lemma not_panel: "prefix ''app.'' p \<Longrightarrow> \<not> prefix ''panel.'' p \<and> p \<noteq> ''*''"
  by (auto simp: prefix_def)

subsection \<open>Property\<close>

text \<open>
  C24. The groups claim. Only \<open>app.*\<close> nodes reach a relying party, never a node of the control
  plane or the owner's star, and with a namespace only nodes of that namespace. Anyone but the
  owner is told to hold exactly what they hold of it; the owner's list is sorted, without
  repetition, and holds the nodes in use, the account's own, and every role the app declares
  (the guessed admin leaf where it declares none).
\<close>

theorem groups_claim_exact:
  fixes declared :: "string list"
  shows "(\<forall>p \<in> set (groupsForClient user pre known declared).
           prefix ''app.'' p \<and> \<not> prefix ''panel.'' p \<and> p \<noteq> ''*''
           \<and> (\<forall>s. pre = Some s \<and> s \<noteq> [] \<longrightarrow> p = ''app.'' @ s \<or> prefix (''app.'' @ s @ ''.'') p))
    \<and> (\<not> isOwner user \<longrightarrow> groupsForClient user pre known declared =
          filter (in_scope (prefix_node pre)) (permissions user))
    \<and> (isOwner user \<longrightarrow>
          sorted (groupsForClient user pre known declared)
        \<and> distinct (groupsForClient user pre known declared)
        \<and> set (filter (in_scope (prefix_node pre)) (known @ permissions user))
            \<subseteq> set (groupsForClient user pre known declared)
        \<and> (\<forall>s. pre = Some s \<and> s \<noteq> [] \<longrightarrow>
             set (map (\<lambda>r. ''app.'' @ s @ ''.'' @ r) (if declared = [] then [''admin''] else declared))
               \<subseteq> set (groupsForClient user pre known declared)))"
proof -
  have "prefix ''app.'' p \<and> \<not> prefix ''panel.'' p \<and> p \<noteq> ''*''
      \<and> (\<forall>s. pre = Some s \<and> s \<noteq> [] \<longrightarrow> p = ''app.'' @ s \<or> prefix (''app.'' @ s @ ''.'') p)"
    if p: "p \<in> set (groupsForClient user pre known declared)" for p
    using groups_in_scope [OF p] in_scope_app [OF groups_in_scope [OF p]] not_panel [of p]
    by (auto simp: in_scope_def prefix_node_def)
  then show ?thesis
    by (auto simp: groupsForClient_def prefix_node_def Let_def split: option.split)
qed

theorem groups_claim_exact_witness:
  "groupsForClient
     \<lparr>isOwner = True, permissions = [''*''], user_id = ''u'', user_name = ''ann'', user_roleIds = [],
      user_createdAt = 0, user_systemUser = None, user_email = None\<rparr>
     (Some ''immich'') [''app.jellyfin.user'', ''app.immich.user''] []
   = [''app.immich.admin'', ''app.immich.user'']
   \<and> set (groupsForClient
       \<lparr>isOwner = False, permissions = [''panel.x'', ''app.a.b''], user_id = ''u'', user_name = ''ann'',
        user_roleIds = [], user_createdAt = 0, user_systemUser = None, user_email = None\<rparr> None [] [])
     = {''app.a.b''}"
proof -
  let ?u = "\<lparr>isOwner = False, permissions = [''panel.x'', ''app.a.b''], user_id = ''u'', user_name = ''ann'',
        user_roleIds = [], user_createdAt = 0, user_systemUser = None, user_email = None\<rparr>"
  have "groupsForClient ?u None [] [] = filter (in_scope (prefix_node None)) (permissions ?u)"
    using groups_claim_exact [of ?u None "[]" "[]"] by simp
  also have "\<dots> = [''app.a.b'']" by code_simp
  finally show ?thesis by simp code_simp
qed

end
