(* ===== verification/Oidc_Store.thy ===== *)
theory Oidc_Store
  imports Prelude
begin

text \<open>
  Client registrations and authorization codes (\<open>apps/server/src/features/oidc/store.ts\<close>, class
  \<open>OidcStore\<close>). Codes are kept in memory, registrations and the signing key in files.

  Parameters: \<open>is_url\<close> tells whether \<open>new URL\<close> accepts a string, \<open>verify\<close> is
  \<open>Bun.password.verify\<close>; secrets, hashes, ids, codes and key pairs are drawn outside the model.
\<close>

definition CODE_TTL_MS :: ms where "CODE_TTL_MS = 60 * 1000"

datatype oidc_error =
    ClientNameRequired
  | InvalidRedirectUri string
  | UnknownClient
  | NoRedirectUris
  | RedirectMismatch
  | PkceRequired

record OidcClient =
  oc_id :: string
  oc_name :: string
  oc_redirectUris :: "string list"
  oc_createdAt :: ms
  oc_appId :: "string option"
  oc_groupPrefix :: "string option"

record OidcClientRecord = OidcClient +
  oc_secretHash :: string

definition toPublic :: "OidcClientRecord \<Rightarrow> OidcClient" where
  "toPublic rec = OidcClient.truncate rec"

record SigningKey =
  k_kid :: string
  k_privateKeyPem :: string
  k_publicKeyPem :: string
  k_createdAt :: ms

record AuthCodeRecord =
  ac_userId :: uid
  ac_clientId :: string
  ac_redirectUri :: string
  ac_scope :: string
  ac_codeChallenge :: string
  ac_nonce :: "string option"
  ac_issuedAt :: ms
  ac_expiresAt :: ms

record oidc_store =
  clients :: "(string, OidcClientRecord) jsmap"
  signingKey :: "SigningKey option"
  codes :: "(string, AuthCodeRecord) jsmap"
  clientsFile :: "(string, OidcClientRecord) jsmap option"
  keyFile :: "SigningKey option"

record OidcAuthorizeParams =
  ap_clientId :: string
  ap_redirectUri :: string
  ap_scope :: string
  ap_state :: string
  ap_nonce :: "string option"
  ap_codeChallenge :: string
  ap_codeChallengeMethod :: string

definition persistClients :: "oidc_store \<Rightarrow> oidc_store" where
  "persistClients st = st\<lparr>clientsFile := Some (clients st)\<rparr>"

text \<open>\<open>fresh\<close> is the key pair \<open>createSigningKey\<close> generates when the file has none.\<close>

definition init_oidc :: "(string, OidcClientRecord) jsmap option \<Rightarrow> SigningKey option \<Rightarrow> SigningKey \<Rightarrow>
    oidc_store" where
  "init_oidc file key fresh =
     (let k = (case key of None \<Rightarrow> fresh | Some k \<Rightarrow> k)
      in \<lparr>clients = read_file file, signingKey = Some k, codes = [], clientsFile = file,
          keyFile = Some k\<rparr>)"

definition assertClientName :: "string \<Rightarrow> oidc_error + string" where
  "assertClientName name = (let t = js_trim name in if t = [] then Inl ClientNameRequired else Inr t)"

fun first_bad :: "(string \<Rightarrow> bool) \<Rightarrow> string list \<Rightarrow> string option" where
  "first_bad is_url [] = None"
| "first_bad is_url (u # us) = (if is_url u then first_bad is_url us else Some u)"

definition assertRedirectUris :: "(string \<Rightarrow> bool) \<Rightarrow> string list \<Rightarrow> oidc_error + string list" where
  "assertRedirectUris is_url us =
     (let uris = filter (\<lambda>u. u \<noteq> []) (map js_trim us)
      in case first_bad is_url uris of Some u \<Rightarrow> Inl (InvalidRedirectUri u) | None \<Rightarrow> Inr uris)"

definition listClients :: "oidc_store \<Rightarrow> OidcClient list" where
  "listClients st = map toPublic (vals (clients st))"

definition getClient :: "string \<Rightarrow> oidc_store \<Rightarrow> OidcClient option" where
  "getClient i st = map_option toPublic (look (clients st) i)"

definition createClient :: "(string \<Rightarrow> bool) \<Rightarrow> string \<Rightarrow> string \<Rightarrow> string \<Rightarrow> ms \<Rightarrow> string \<Rightarrow> string list \<Rightarrow>
    string option \<Rightarrow> oidc_store \<Rightarrow> (oidc_error, OidcClient \<times> string, oidc_store) result" where
  "createClient is_url uuid secret hash now name uris appId st =
     (case assertClientName name of Inl e \<Rightarrow> (Inl e, st) | Inr n \<Rightarrow>
      (case assertRedirectUris is_url uris of Inl e \<Rightarrow> (Inl e, st) | Inr us \<Rightarrow>
        (let rec = \<lparr>oc_id = uuid, oc_name = n, oc_redirectUris = us, oc_createdAt = now,
                    oc_appId = (case appId of None \<Rightarrow> None | Some a \<Rightarrow> if a = [] then None else Some a),
                    oc_groupPrefix = None, oc_secretHash = hash\<rparr>
         in (Inr (toPublic rec, secret), persistClients (st\<lparr>clients := put uuid rec (clients st)\<rparr>)))))"

definition updateClient :: "(string \<Rightarrow> bool) \<Rightarrow> OidcClient \<Rightarrow> oidc_store \<Rightarrow>
    (oidc_error, unit, oidc_store) result" where
  "updateClient is_url nxt st =
     (case look (clients st) (oc_id nxt) of None \<Rightarrow> (Inl UnknownClient, st) | Some existing \<Rightarrow>
      (case assertClientName (oc_name nxt) of Inl e \<Rightarrow> (Inl e, st) | Inr n \<Rightarrow>
       (case assertRedirectUris is_url (oc_redirectUris nxt) of Inl e \<Rightarrow> (Inl e, st) | Inr us \<Rightarrow>
         (Inr (), persistClients (st\<lparr>clients := put (oc_id nxt)
            (existing\<lparr>oc_name := n, oc_redirectUris := us, oc_appId := oc_appId nxt\<rparr>) (clients st)\<rparr>)))))"

definition regenerateSecret :: "string \<Rightarrow> string \<Rightarrow> string \<Rightarrow> oidc_store \<Rightarrow>
    (oidc_error, string, oidc_store) result" where
  "regenerateSecret secret hash clientId st =
     (case look (clients st) clientId of None \<Rightarrow> (Inl UnknownClient, st) | Some rec \<Rightarrow>
        (Inr secret, persistClients (st\<lparr>clients :=
           put clientId (rec\<lparr>oc_secretHash := hash\<rparr>) (clients st)\<rparr>)))"

definition deleteClient :: "string \<Rightarrow> oidc_store \<Rightarrow> oidc_store" where
  "deleteClient clientId st =
     (if look (clients st) clientId = None then st
      else persistClients (st\<lparr>clients := del clientId (clients st)\<rparr>))"

definition validateRequest :: "OidcAuthorizeParams \<Rightarrow> oidc_store \<Rightarrow> oidc_error + OidcClient" where
  "validateRequest ps st =
     (case look (clients st) (ap_clientId ps) of None \<Rightarrow> Inl UnknownClient | Some rec \<Rightarrow>
        if oc_redirectUris rec = [] then Inl NoRedirectUris
        else if ap_redirectUri ps \<notin> set (oc_redirectUris rec) then Inl RedirectMismatch
        else if ap_codeChallengeMethod ps \<noteq> ''S256'' \<or> ap_codeChallenge ps = [] then Inl PkceRequired
        else Inr (toPublic rec))"

definition verifyClientSecret :: "(string \<Rightarrow> string \<Rightarrow> bool) \<Rightarrow> string \<Rightarrow> string \<Rightarrow> oidc_store \<Rightarrow>
    OidcClient option" where
  "verifyClientSecret verify clientId secret st =
     (case look (clients st) clientId of None \<Rightarrow> None | Some rec \<Rightarrow>
        if verify secret (oc_secretHash rec) then Some (toPublic rec) else None)"

definition issueCode :: "string \<Rightarrow> ms \<Rightarrow> uid \<Rightarrow> string \<Rightarrow> string \<Rightarrow> string \<Rightarrow> string \<Rightarrow> string option \<Rightarrow>
    oidc_store \<Rightarrow> oidc_store" where
  "issueCode code now userId clientId redirectUri scope challenge nonce st =
     st\<lparr>codes := put code \<lparr>ac_userId = userId, ac_clientId = clientId, ac_redirectUri = redirectUri,
        ac_scope = scope, ac_codeChallenge = challenge, ac_nonce = nonce, ac_issuedAt = now,
        ac_expiresAt = now + CODE_TTL_MS\<rparr> (codes st)\<rparr>"

definition consumeCode :: "ms \<Rightarrow> string \<Rightarrow> oidc_store \<Rightarrow> AuthCodeRecord option \<times> oidc_store" where
  "consumeCode now code st =
     (case look (codes st) code of
        None \<Rightarrow> (None, st\<lparr>codes := del code (codes st)\<rparr>)
      | Some rec \<Rightarrow> (if ac_expiresAt rec < now then None else Some rec,
                     st\<lparr>codes := del code (codes st)\<rparr>))"

subsection \<open>Codes are used once\<close>

definition code_held :: "oidc_store \<Rightarrow> string \<Rightarrow> bool" where
  "code_held st c \<longleftrightarrow> look (codes st) c \<noteq> None"

lemma consume_codes: "codes (snd (consumeCode now c st)) = del c (codes st)"
  by (simp add: consumeCode_def split: option.split)

lemma consume_frame [simp]: "clients (snd (consumeCode now c st)) = clients st"
  by (simp add: consumeCode_def split: option.split)

lemma consume_Some:
  "fst (consumeCode now c st) = Some rec \<longleftrightarrow> look (codes st) c = Some rec \<and> now \<le> ac_expiresAt rec"
  by (auto simp: consumeCode_def split: option.split)

interpretation auth_codes: single_use consumeCode code_held
  by unfold_locales (auto simp: consume_codes code_held_def consume_Some split: if_splits)

subsection \<open>Registrations\<close>

definition client_ok :: "(string \<Rightarrow> bool) \<Rightarrow> string \<Rightarrow> OidcClientRecord \<Rightarrow> bool" where
  "client_ok is_url k r \<longleftrightarrow> oc_id r = k \<and> oc_name r \<noteq> []
     \<and> list_all (\<lambda>u. u \<noteq> [] \<and> is_url u) (oc_redirectUris r)"

definition oidc_inv :: "(string \<Rightarrow> bool) \<Rightarrow> oidc_store \<Rightarrow> bool" where
  "oidc_inv is_url st \<longleftrightarrow> each (client_ok is_url) (clients st) \<and> read_file (clientsFile st) = clients st"

inductive oidc_step :: "(string \<Rightarrow> bool) \<Rightarrow> oidc_store \<Rightarrow> oidc_store \<Rightarrow> bool" for is_url where
  create: "look (clients st) uuid = None \<Longrightarrow>
     oidc_step is_url st (snd (createClient is_url uuid secret hash now name uris appId st))"
| update: "oidc_step is_url st (snd (updateClient is_url nxt st))"
| regenerate: "oidc_step is_url st (snd (regenerateSecret secret hash i st))"
| delete: "oidc_step is_url st (deleteClient i st)"
| issue: "oidc_step is_url st (issueCode code now u c r s ch n st)"
| consume: "oidc_step is_url st (snd (consumeCode now code st))"

lemma persistClients_simps [simp]:
  "clients (persistClients st) = clients st" "clientsFile (persistClients st) = Some (clients st)"
  by (simp_all add: persistClients_def)

lemma first_bad_None: "first_bad is_url us = None \<longleftrightarrow> list_all is_url us"
  by (induction us) auto

lemma assertRedirectUris_ok:
  "assertRedirectUris is_url us = Inr vs \<Longrightarrow> list_all (\<lambda>u. u \<noteq> [] \<and> is_url u) vs"
  by (auto simp: assertRedirectUris_def Let_def first_bad_None list_all_iff split: option.splits)

lemma assertClientName_ok: "assertClientName n = Inr m \<Longrightarrow> m \<noteq> []"
  by (auto simp: assertClientName_def Let_def split: if_splits)

interpretation registrations: invariant_store "oidc_inv is_url" "oidc_step is_url"
proof
  fix s s' assume "oidc_step is_url s s'" and inv: "oidc_inv is_url s"
  then show "oidc_inv is_url s'"
  proof (induction rule: oidc_step.induct)
    case (create st uuid secret hash now name uris appId)
    then show ?case
      by (auto simp: createClient_def oidc_inv_def client_ok_def Let_def split: sum.split
          dest: assertClientName_ok assertRedirectUris_ok intro!: each_put)
  next
    case (update st nxt)
    show ?case
    proof (cases "look (clients st) (oc_id nxt)")
      case (Some r)
      have "oc_id r = oc_id nxt"
        using each_look [OF _ Some, of "client_ok is_url"] update by (auto simp: oidc_inv_def client_ok_def)
      with Some update show ?thesis
        by (auto simp: updateClient_def oidc_inv_def client_ok_def split: sum.split
            dest: assertClientName_ok assertRedirectUris_ok intro!: each_put)
    qed (use update in \<open>simp add: updateClient_def\<close>)
  next
    case (regenerate st secret hash i)
    then show ?case
      using each_look [of "client_ok is_url" "clients st" i]
      by (auto simp: regenerateSecret_def oidc_inv_def client_ok_def split: option.split intro!: each_put)
  qed (auto simp: deleteClient_def issueCode_def consumeCode_def oidc_inv_def split: option.split)
qed

end
