(* ===== verification/Oidc.thy ===== *)
theory Oidc
  imports Auth Apps Refresh Device Oidc_Tokens Oidc_Store
begin

text \<open>
  The OpenID Connect provider (\<open>apps/server/src/features/oidc/feature.ts\<close>): the operations of
  the SPA and the raw HTTP endpoints, over the account, role, app, registration, refresh-token
  and device-code stores.

  Parameters, in \<open>oidc_env\<close>: \<open>Bun.password.verify\<close>, the SHA-256 hex digest of a refresh token,
  the base64url SHA-256 of a PKCE verifier, the sealing and opening of a signed token, base64
  decoding, and whether \<open>new URL\<close> accepts a string. A request is its Authorization header and its form body; a handler runs to its end
  before the next one. JSON and URL building are left out of the responses.
\<close>

record oidc_env =
  env_verify :: "string \<Rightarrow> string \<Rightarrow> bool"
  env_digest :: "string \<Rightarrow> string"
  env_pkce :: "string \<Rightarrow> string"
  env_sign :: "jwt \<Rightarrow> string"
  env_unseal :: "string \<Rightarrow> jwt option"
  env_base64 :: "string \<Rightarrow> string"
  env_is_url :: "string \<Rightarrow> bool"

record sso =
  sso_auth :: auth_store
  sso_roles :: role_store
  sso_apps :: app_store
  sso_oidc :: oidc_store
  sso_refresh :: refresh_store
  sso_devices :: device_store
  sso_primaryUrl :: "string option"

datatype sso_error =
    NotAuthenticated
  | NoPrimaryUrl
  | ClientError oidc_error
  | EmailRequired string
  | NoAppAccess string
  | DeviceCodeGone
  | AppNotRegistered

type_synonym http_error = "nat \<times> string"

record token_response =
  tr_access_token :: string
  tr_scope :: string
  tr_id_token :: "string option"
  tr_refresh_token :: "string option"

text \<open>A value JavaScript treats as true: present and not empty.\<close>

definition truthy :: "string option \<Rightarrow> string option" where
  "truthy x = (case x of Some [] \<Rightarrow> None | _ \<Rightarrow> x)"

type_synonym form = "(string \<times> string) list"

definition get_field :: "form \<Rightarrow> string \<Rightarrow> string option" where
  "get_field body k = truthy (map_of body k)"

definition known_apps :: "sso \<Rightarrow> permission list" where
  "known_apps w = knownAppPermissions (sso_roles w) (sso_auth w)"

definition user_of :: "sso \<Rightarrow> uid \<Rightarrow> UserInfo option" where
  "user_of w i = getUserById (sso_roles w) i (sso_auth w)"

definition clientCredentials :: "oidc_env \<Rightarrow> string option \<Rightarrow> form \<Rightarrow> (string \<times> string) option" where
  "clientCredentials env basic body =
     (let from_body = (case (get_field body ''client_id'', get_field body ''client_secret'') of
            (Some i, Some s) \<Rightarrow> Some (i, s) | _ \<Rightarrow> None)
      in case basic of
           Some h \<Rightarrow>
             if prefix ''Basic '' h then
               (let decoded = env_base64 env (drop 6 h)
                in case index_of CHR '':'' decoded of
                     Some sep \<Rightarrow> Some (take sep decoded, drop (Suc sep) decoded)
                   | None \<Rightarrow> from_body)
             else from_body
         | None \<Rightarrow> from_body)"

text \<open>\<open>/^Bearer\s+(.+)$/i\<close>: the token is what follows the white space (no line breaks in a header).\<close>

definition bearerToken :: "string option \<Rightarrow> string option" where
  "bearerToken header =
     (case truthy header of None \<Rightarrow> None
      | Some h \<Rightarrow>
          if js_lower (take 6 h) = ''bearer'' \<and> (case drop 6 h of [] \<Rightarrow> False | c # _ \<Rightarrow> js_ws c)
          then (let rest = dropWhile js_ws (drop 6 h)
                in if rest \<noteq> [] then Some rest
                   else if length (drop 6 h) > 1 then Some [last h] else None)
          else None)"

definition effectiveGroupPrefix :: "OidcClient \<Rightarrow> app_store \<Rightarrow> string option" where
  "effectiveGroupPrefix client ast =
     (case slugFor (oc_appId client) ast of Some s \<Rightarrow> Some s | None \<Rightarrow> oc_groupPrefix client)"

definition linked_app :: "OidcClient \<Rightarrow> app_store \<Rightarrow> App option" where
  "linked_app client ast = (case truthy (oc_appId client) of None \<Rightarrow> None | Some a \<Rightarrow> get_app a ast)"

definition declaredRolesFor :: "OidcClient \<Rightarrow> app_store \<Rightarrow> string list" where
  "declaredRolesFor client ast = (case linked_app client ast of None \<Rightarrow> [] | Some app \<Rightarrow> a_roles app)"

definition assertMayAccess :: "UserInfo \<Rightarrow> OidcClient \<Rightarrow> string \<Rightarrow> sso \<Rightarrow> sso_error + unit" where
  "assertMayAccess user client scope w =
     (if hasScope scope ''email'' \<and> truthy (user_email user) = None then Inl (EmailRequired (oc_name client))
      else case linked_app client (sso_apps w) of
             None \<Rightarrow> Inr ()
           | Some linked \<Rightarrow>
               if a_requireRole linked = Some True
                  \<and> groupsForClient user (Some (a_slug linked)) (known_apps w) (a_roles linked) = []
               then Inl (NoAppAccess (a_name linked)) else Inr ())"

subsection \<open>Operations\<close>

definition op_createClient :: "(string \<Rightarrow> bool) \<Rightarrow> string \<Rightarrow> string \<Rightarrow> string \<Rightarrow> ms \<Rightarrow> string \<Rightarrow> string list \<Rightarrow>
    string option \<Rightarrow> sso \<Rightarrow> (sso_error, OidcClient \<times> string, sso) result" where
  "op_createClient is_url uuid secret hash now name uris appId w =
     (case truthy (sso_primaryUrl w) of None \<Rightarrow> (Inl NoPrimaryUrl, w) | Some _ \<Rightarrow>
        (case createClient is_url uuid secret hash now name uris appId (sso_oidc w) of
           (Inl e, o1) \<Rightarrow> (Inl (ClientError e), w\<lparr>sso_oidc := o1\<rparr>)
         | (Inr r, o1) \<Rightarrow> (Inr r, w\<lparr>sso_oidc := o1\<rparr>)))"

definition op_updateClient :: "(string \<Rightarrow> bool) \<Rightarrow> OidcClient \<Rightarrow> sso \<Rightarrow> (sso_error, unit, sso) result" where
  "op_updateClient is_url nxt w =
     (case updateClient is_url nxt (sso_oidc w) of
        (Inl e, o1) \<Rightarrow> (Inl (ClientError e), w\<lparr>sso_oidc := o1\<rparr>)
      | (Inr u, o1) \<Rightarrow> (Inr u, w\<lparr>sso_oidc := o1\<rparr>))"

definition op_deleteClient :: "string \<Rightarrow> sso \<Rightarrow> sso" where
  "op_deleteClient i w =
     w\<lparr>sso_oidc := deleteClient i (sso_oidc w), sso_refresh := revokeForClient i (sso_refresh w)\<rparr>"

definition op_regenerateSecret :: "string \<Rightarrow> string \<Rightarrow> string \<Rightarrow> sso \<Rightarrow> (sso_error, string, sso) result" where
  "op_regenerateSecret secret hash i w =
     (case regenerateSecret secret hash i (sso_oidc w) of
        (Inl e, o1) \<Rightarrow> (Inl (ClientError e), w\<lparr>sso_oidc := o1\<rparr>)
      | (Inr s, o1) \<Rightarrow> (Inr s, w\<lparr>sso_oidc := o1\<rparr>))"

definition op_listGrants :: "uid \<Rightarrow> sso \<Rightarrow> (ConnectedApp \<times> string) list" where
  "op_listGrants i w =
     map (\<lambda>g. (g, case find (\<lambda>c. oc_id c = c_clientId g) (listClients (sso_oidc w)) of
                    Some c \<Rightarrow> oc_name c | None \<Rightarrow> ''(deleted client)''))
       (listForUser i (sso_refresh w))"

definition op_revokeGrant :: "string \<Rightarrow> sso \<Rightarrow> sso" where
  "op_revokeGrant fam w = w\<lparr>sso_refresh := revokeFamily fam (sso_refresh w)\<rparr>"

definition op_getAuthorizeRequest :: "OidcAuthorizeParams \<Rightarrow> sso \<Rightarrow> sso_error + (string \<times> string)" where
  "op_getAuthorizeRequest ps w =
     (case validateRequest ps (sso_oidc w) of
        Inl e \<Rightarrow> Inl (ClientError e) | Inr client \<Rightarrow> Inr (oc_name client, ap_redirectUri ps))"

text \<open>The answer is the redirect URI with the code and the state that are set on it.\<close>

definition op_completeAuthorize :: "string \<Rightarrow> ms \<Rightarrow> UserInfo option \<Rightarrow> OidcAuthorizeParams \<Rightarrow> sso \<Rightarrow>
    (sso_error, string \<times> string \<times> string, sso) result" where
  "op_completeAuthorize code now caller ps w =
     (case caller of None \<Rightarrow> (Inl NotAuthenticated, w) | Some user \<Rightarrow>
      (case validateRequest ps (sso_oidc w) of Inl e \<Rightarrow> (Inl (ClientError e), w) | Inr client \<Rightarrow>
       (case assertMayAccess user client (ap_scope ps) w of Inl e \<Rightarrow> (Inl e, w) | Inr _ \<Rightarrow>
         (Inr (ap_redirectUri ps, code, ap_state ps),
          w\<lparr>sso_oidc := issueCode code now (user_id user) (oc_id client) (ap_redirectUri ps) (ap_scope ps)
               (ap_codeChallenge ps) (ap_nonce ps) (sso_oidc w)\<rparr>))))"

definition op_getDeviceRequest :: "ms \<Rightarrow> string \<Rightarrow> sso \<Rightarrow> (string \<times> string \<times> string) option \<times> sso" where
  "op_getDeviceRequest now typed w =
     (case findPending now typed (sso_devices w) of (out, ds) \<Rightarrow>
        (map_option (\<lambda>rec. (formatUserCode (dv_userCode rec),
            (case getClient (dv_clientId rec) (sso_oidc w) of Some c \<Rightarrow> oc_name c
             | None \<Rightarrow> ''(deleted client)''), dv_scope rec)) out,
         w\<lparr>sso_devices := ds\<rparr>))"

definition op_approveDevice :: "ms \<Rightarrow> UserInfo option \<Rightarrow> string \<Rightarrow> sso \<Rightarrow> (sso_error, unit, sso) result" where
  "op_approveDevice now caller typed w =
     (case caller of None \<Rightarrow> (Inl NotAuthenticated, w) | Some user \<Rightarrow>
      (case findPending now typed (sso_devices w) of
         (None, ds) \<Rightarrow> (Inl DeviceCodeGone, w\<lparr>sso_devices := ds\<rparr>)
       | (Some rec, ds) \<Rightarrow>
          (let w1 = w\<lparr>sso_devices := ds\<rparr>
           in case getClient (dv_clientId rec) (sso_oidc w1) of
                None \<Rightarrow> (Inl AppNotRegistered, w1)
              | Some client \<Rightarrow>
                  (case assertMayAccess user client (dv_scope rec) w1 of
                     Inl e \<Rightarrow> (Inl e, w1)
                   | Inr _ \<Rightarrow> (Inr (), w1\<lparr>sso_devices :=
                        snd (resolve_device now typed True (user_id user) ds)\<rparr>)))))"

definition op_denyDevice :: "ms \<Rightarrow> UserInfo option \<Rightarrow> string \<Rightarrow> sso \<Rightarrow> (sso_error, unit, sso) result" where
  "op_denyDevice now caller typed w =
     (case caller of None \<Rightarrow> (Inl NotAuthenticated, w) | Some user \<Rightarrow>
        (Inr (), w\<lparr>sso_devices := snd (resolve_device now typed False (user_id user) (sso_devices w))\<rparr>))"

subsection \<open>HTTP endpoints\<close>

text \<open>
  \<open>hasOfflineAccess\<close> is the scope test of \<open>hasScope\<close>. A refresh chain draws its token \<open>rtok\<close>
  and its id \<open>fam\<close>; \<open>next\<close> is the token a rotation draws.
\<close>

definition hasOfflineAccess :: "string \<Rightarrow> bool" where
  "hasOfflineAccess scope \<longleftrightarrow> hasScope scope ''offline_access''"

definition tokenResponse :: "oidc_env \<Rightarrow> UserInfo \<Rightarrow> OidcClient \<Rightarrow> string \<Rightarrow> string \<Rightarrow> ms \<Rightarrow> token_response" where
  "tokenResponse env user client scope issuer now =
     \<lparr>tr_access_token = env_sign env (buildAccessToken user issuer (oc_id client) scope now),
      tr_scope = scope, tr_id_token = None, tr_refresh_token = None\<rparr>"

definition refreshGrant :: "oidc_env \<Rightarrow> ms \<Rightarrow> string \<Rightarrow> string option \<Rightarrow> form \<Rightarrow> sso \<Rightarrow>
    (http_error, token_response, sso) result" where
  "refreshGrant env now nxt basic body w =
     (case (get_field body ''refresh_token'', clientCredentials env basic body) of
        (Some presented, Some (cid, secret)) \<Rightarrow>
          (case verifyClientSecret (env_verify env) cid secret (sso_oidc w) of
             None \<Rightarrow> (Inl (401, ''invalid_client''), w)
           | Some client \<Rightarrow>
               (case rotate_token (env_digest env) now nxt presented (sso_refresh w) of
                  (NoGrant, rs) \<Rightarrow> (Inl (400, ''invalid_grant''), w\<lparr>sso_refresh := rs\<rparr>)
                | (Reused, rs) \<Rightarrow> (Inl (400, ''invalid_grant''), w\<lparr>sso_refresh := rs\<rparr>)
                | (Rotated g tok, rs) \<Rightarrow>
                    if g_clientId g \<noteq> oc_id client then
                      (Inl (400, ''invalid_grant''), w\<lparr>sso_refresh := revokeFamily (g_familyId g) rs\<rparr>)
                    else (case user_of w (g_userId g) of
                        None \<Rightarrow> (Inl (400, ''invalid_grant''), w\<lparr>sso_refresh := revokeFamily (g_familyId g) rs\<rparr>)
                      | Some user \<Rightarrow>
                          (case truthy (sso_primaryUrl w) of
                             None \<Rightarrow> (Inl (500, ''server_error''), w\<lparr>sso_refresh := rs\<rparr>)
                           | Some issuer \<Rightarrow>
                               (Inr ((tokenResponse env user client (g_scope g) issuer now)
                                      \<lparr>tr_refresh_token := Some tok\<rparr>), w\<lparr>sso_refresh := rs\<rparr>)))))
      | _ \<Rightarrow> (Inl (400, ''invalid_request''), w))"

text \<open>The tokens both interactive grants hand out, and the chain they start.\<close>

definition id_and_refresh :: "oidc_env \<Rightarrow> ms \<Rightarrow> string \<Rightarrow> string \<Rightarrow> UserInfo \<Rightarrow> OidcClient \<Rightarrow> string \<Rightarrow>
    string option \<Rightarrow> int \<Rightarrow> string \<Rightarrow> sso \<Rightarrow> token_response \<times> sso" where
  "id_and_refresh env now rtok fam user client scope nonce authTime issuer w =
     (let idt = buildIdToken user issuer (oc_id client) nonce authTime scope
            (effectiveGroupPrefix client (sso_apps w)) (known_apps w) (declaredRolesFor client (sso_apps w)) now;
          r = (tokenResponse env user client scope issuer now)\<lparr>tr_id_token := Some (env_sign env idt)\<rparr>
      in if hasOfflineAccess scope then
           (let (tok, rs) = issue (env_digest env) now rtok fam (user_id user) (oc_id client) scope (sso_refresh w)
            in (r\<lparr>tr_refresh_token := Some tok\<rparr>, w\<lparr>sso_refresh := rs\<rparr>))
         else (r, w))"

definition poll_code :: "poll_error \<Rightarrow> string" where
  "poll_code e = (case e of AuthorizationPending \<Rightarrow> ''authorization_pending'' | SlowDown \<Rightarrow> ''slow_down''
     | AccessDenied \<Rightarrow> ''access_denied'' | ExpiredToken \<Rightarrow> ''expired_token''
     | InvalidDeviceCode \<Rightarrow> ''invalid_grant'')"

definition deviceGrant :: "oidc_env \<Rightarrow> ms \<Rightarrow> string \<Rightarrow> string \<Rightarrow> string option \<Rightarrow> form \<Rightarrow> sso \<Rightarrow>
    (http_error, token_response, sso) result" where
  "deviceGrant env now rtok fam basic body w =
     (case (get_field body ''device_code'', clientCredentials env basic body) of
        (Some dc, Some (cid, secret)) \<Rightarrow>
          (case verifyClientSecret (env_verify env) cid secret (sso_oidc w) of
             None \<Rightarrow> (Inl (401, ''invalid_client''), w)
           | Some client \<Rightarrow>
               (case poll_device now dc (oc_id client) (sso_devices w) of
                  (Inl e, ds) \<Rightarrow> (Inl (400, poll_code e), w\<lparr>sso_devices := ds\<rparr>)
                | (Inr rec, ds) \<Rightarrow>
                    (let w1 = w\<lparr>sso_devices := ds\<rparr>
                     in case user_of w1 (case dv_userId rec of Some i \<Rightarrow> i | None \<Rightarrow> []) of
                          None \<Rightarrow> (Inl (400, ''invalid_grant''), w1)
                        | Some user \<Rightarrow>
                            (case truthy (sso_primaryUrl w1) of
                               None \<Rightarrow> (Inl (500, ''server_error''), w1)
                             | Some issuer \<Rightarrow>
                                 (let (r, w2) = id_and_refresh env now rtok fam user client (dv_scope rec) None
                                      ((case dv_approvedAt rec of Some t \<Rightarrow> t | None \<Rightarrow> 0) div 1000) issuer w1
                                  in (Inr r, w2))))))
      | _ \<Rightarrow> (Inl (400, ''invalid_request''), w))"

text \<open>The code flow: what follows the consumption of the code, then the whole of it.\<close>

definition exchangeCode :: "oidc_env \<Rightarrow> ms \<Rightarrow> string \<Rightarrow> string \<Rightarrow> OidcClient \<Rightarrow> string \<Rightarrow> string \<Rightarrow>
    AuthCodeRecord \<Rightarrow> sso \<Rightarrow> (http_error, token_response, sso) result" where
  "exchangeCode env now rtok fam client redirectUri codeVerifier grant w1 =
     (if ac_clientId grant \<noteq> oc_id client \<or> ac_redirectUri grant \<noteq> redirectUri
      then (Inl (400, ''invalid_grant''), w1)
      else if env_pkce env codeVerifier \<noteq> ac_codeChallenge grant
      then (Inl (400, ''invalid_grant''), w1)
      else (case user_of w1 (ac_userId grant) of
          None \<Rightarrow> (Inl (400, ''invalid_grant''), w1)
        | Some user \<Rightarrow>
            (case truthy (sso_primaryUrl w1) of
               None \<Rightarrow> (Inl (500, ''server_error''), w1)
             | Some issuer \<Rightarrow>
                 (let (r, w2) = id_and_refresh env now rtok fam user client (ac_scope grant)
                      (ac_nonce grant) (ac_issuedAt grant div 1000) issuer w1
                  in (Inr r, w2)))))"

definition codeGrant :: "oidc_env \<Rightarrow> ms \<Rightarrow> string \<Rightarrow> string \<Rightarrow> string option \<Rightarrow> form \<Rightarrow> sso \<Rightarrow>
    (http_error, token_response, sso) result" where
  "codeGrant env now rtok fam basic body w =
     (case (get_field body ''code'', get_field body ''redirect_uri'', get_field body ''code_verifier'',
            clientCredentials env basic body) of
        (Some code, Some redirectUri, Some codeVerifier, Some (cid, secret)) \<Rightarrow>
          (case verifyClientSecret (env_verify env) cid secret (sso_oidc w) of
             None \<Rightarrow> (Inl (401, ''invalid_client''), w)
           | Some client \<Rightarrow>
               (case consumeCode now code (sso_oidc w) of
                  (None, o1) \<Rightarrow> (Inl (400, ''invalid_grant''), w\<lparr>sso_oidc := o1\<rparr>)
                | (Some grant, o1) \<Rightarrow>
                    exchangeCode env now rtok fam client redirectUri codeVerifier grant (w\<lparr>sso_oidc := o1\<rparr>)))
      | _ \<Rightarrow> (Inl (400, ''invalid_request''), w))"

definition DEVICE_CODE_GRANT :: string where
  "DEVICE_CODE_GRANT = ''urn:ietf:params:oauth:grant-type:device_code''"

definition token_endpoint :: "oidc_env \<Rightarrow> ms \<Rightarrow> string \<Rightarrow> string \<Rightarrow> string option \<Rightarrow> form \<Rightarrow> sso \<Rightarrow>
    (http_error, token_response, sso) result" where
  "token_endpoint env now tok fam basic body w =
     (if map_of body ''grant_type'' = Some ''refresh_token'' then refreshGrant env now tok basic body w
      else if map_of body ''grant_type'' = Some DEVICE_CODE_GRANT then deviceGrant env now tok fam basic body w
      else if map_of body ''grant_type'' = Some ''authorization_code'' then codeGrant env now tok fam basic body w
      else (Inl (400, ''unsupported_grant_type''), w))"

text \<open>The answer of a pairing request: device code, displayed code, verification address, lifetime.\<close>

definition device_authorization :: "oidc_env \<Rightarrow> ms \<Rightarrow> string \<Rightarrow> (nat \<Rightarrow> nat \<Rightarrow> nat) \<Rightarrow> string option \<Rightarrow>
    string option \<Rightarrow> string option \<Rightarrow> form \<Rightarrow> sso \<Rightarrow>
    (http_error, string \<times> string \<times> string \<times> int, sso) result" where
  "device_authorization env now dc rnd ip ua basic body w =
     (case truthy (sso_primaryUrl w) of None \<Rightarrow> (Inl (500, ''server_error''), w) | Some url \<Rightarrow>
      (case clientCredentials env basic body of None \<Rightarrow> (Inl (400, ''invalid_request''), w) | Some (cid, secret) \<Rightarrow>
       (case verifyClientSecret (env_verify env) cid secret (sso_oidc w) of
          None \<Rightarrow> (Inl (401, ''invalid_client''), w)
        | Some client \<Rightarrow>
            (case request_device now dc rnd (oc_id client)
                (case get_field body ''scope'' of Some s \<Rightarrow> s | None \<Rightarrow> ''openid'') ip ua (sso_devices w) of
               (Inl _, ds) \<Rightarrow> (Inl (429, ''slow_down''), w\<lparr>sso_devices := ds\<rparr>)
             | (Inr rec, ds) \<Rightarrow>
                 (Inr (dv_deviceCode rec, formatUserCode (dv_userCode rec), url @ ''/device'',
                       (dv_expiresAt rec - now + 500) div 1000), w\<lparr>sso_devices := ds\<rparr>)))))"

definition revoke_endpoint :: "oidc_env \<Rightarrow> string option \<Rightarrow> form \<Rightarrow> sso \<Rightarrow> (http_error, unit, sso) result" where
  "revoke_endpoint env basic body w =
     (case clientCredentials env basic body of None \<Rightarrow> (Inl (401, ''invalid_client''), w) | Some (cid, secret) \<Rightarrow>
       (case verifyClientSecret (env_verify env) cid secret (sso_oidc w) of
          None \<Rightarrow> (Inl (401, ''invalid_client''), w)
        | Some _ \<Rightarrow>
            (Inr (), case get_field body ''token'' of None \<Rightarrow> w | Some t \<Rightarrow>
               w\<lparr>sso_refresh := snd (revoke_token (env_digest env) t (sso_refresh w))\<rparr>)))"

definition userinfo :: "oidc_env \<Rightarrow> ms \<Rightarrow> string option \<Rightarrow> sso \<Rightarrow> http_error + claims" where
  "userinfo env now auth_header w =
     (case (case bearerToken auth_header of None \<Rightarrow> None | Some t \<Rightarrow> verifyJwt (env_unseal env) now t) of
        None \<Rightarrow> Inl (401, ''invalid_token'')
      | Some payload \<Rightarrow>
          (case ((case truthy (Some (cl_sub payload)) of None \<Rightarrow> None | Some i \<Rightarrow> user_of w i),
                 (case truthy (Some (j_aud payload)) of None \<Rightarrow> None | Some c \<Rightarrow> getClient c (sso_oidc w))) of
             (Some user, Some client) \<Rightarrow>
               Inr (scopedClaims user (case j_scope payload of Some s \<Rightarrow> s | None \<Rightarrow> [])
                 (effectiveGroupPrefix client (sso_apps w)) (known_apps w)
                 (declaredRolesFor client (sso_apps w)))
           | _ \<Rightarrow> Inl (401, ''invalid_token'')))"

text \<open>\<open>/.well-known/openid-configuration\<close>: the addresses of the discovery document.\<close>

definition discovery_endpoints :: "sso \<Rightarrow> http_error + (string \<times> string) list" where
  "discovery_endpoints w =
     (case truthy (sso_primaryUrl w) of
        None \<Rightarrow> Inl (404, ''Primary URL is not configured'')
      | Some issuer \<Rightarrow> Inr
          [(''issuer'', issuer), (''authorization_endpoint'', issuer @ ''/oidc/authorize''),
           (''token_endpoint'', issuer @ ''/oidc/token''),
           (''userinfo_endpoint'', issuer @ ''/oidc/userinfo''),
           (''device_authorization_endpoint'', issuer @ ''/oidc/device_authorization''),
           (''jwks_uri'', issuer @ ''/.well-known/jwks.json''),
           (''revocation_endpoint'', issuer @ ''/oidc/revoke'')])"

subsection \<open>Every request as a step\<close>

text \<open>
  A signed-in caller is a current account. Random values are fresh; apps and registrations change
  by their own operations, accounts and roles by theirs.
\<close>

inductive sso_step :: "oidc_env \<Rightarrow> sso \<Rightarrow> sso \<Rightarrow> bool" for env where
  complete: "look (codes (sso_oidc w)) code = None \<Longrightarrow>
     sso_step env w (snd (op_completeAuthorize code now caller ps w))"
| token: "look (tokens (sso_refresh w)) (env_digest env tok) = None \<Longrightarrow>
     list_all (\<lambda>r. f_familyId r \<noteq> fam) (vals (tokens (sso_refresh w))) \<Longrightarrow>
     sso_step env w (snd (token_endpoint env now tok fam basic body w))"
| pair: "look (sso_devices w) dc = None \<Longrightarrow> (\<And>a i. rnd a i < length USER_CODE_ALPHABET) \<Longrightarrow>
     sso_step env w (snd (device_authorization env now dc rnd ip ua basic body w))"
| lookup: "sso_step env w (snd (op_getDeviceRequest now typed w))"
| approve: "sso_step env w (snd (op_approveDevice now caller typed w))"
| deny: "sso_step env w (snd (op_denyDevice now caller typed w))"
| revoke: "sso_step env w (snd (revoke_endpoint env basic body w))"
| new_client: "look (clients (sso_oidc w)) uuid = None \<Longrightarrow>
     sso_step env w (snd (op_createClient (env_is_url env) uuid secret hash now name uris appId w))"
| edit_client: "sso_step env w (snd (op_updateClient (env_is_url env) nxt w))"
| drop_client: "sso_step env w (op_deleteClient i w)"
| new_secret: "sso_step env w (snd (op_regenerateSecret secret hash i w))"
| revoke_grant: "sso_step env w (op_revokeGrant f w)"
| accounts: "auth_step (sso_auth w) a \<Longrightarrow> sso_step env w (w\<lparr>sso_auth := a\<rparr>)"
| roles: "role_step (sso_roles w) r \<Longrightarrow> sso_step env w (w\<lparr>sso_roles := r\<rparr>)"
| registry: "app_step (sso_apps w) a \<Longrightarrow> sso_step env w (w\<lparr>sso_apps := a\<rparr>)"
| primary_url: "sso_step env w (w\<lparr>sso_primaryUrl := u\<rparr>)"

definition may_access :: "UserInfo \<Rightarrow> OidcClient \<Rightarrow> string \<Rightarrow> sso \<Rightarrow> bool" where
  "may_access user client scope w \<longleftrightarrow>
     (hasScope scope ''email'' \<longrightarrow> (\<exists>e. user_email user = Some e \<and> e \<noteq> []))
     \<and> (\<forall>i app. oc_appId client = Some i \<longrightarrow> i \<noteq> [] \<longrightarrow> look (apps (sso_apps w)) i = Some app \<longrightarrow>
          a_requireRole app = Some True \<longrightarrow>
          groupsForClient user (Some (a_slug app)) (known_apps w) (a_roles app) \<noteq> [])"

lemma truthy_iff: "truthy x = Some v \<longleftrightarrow> x = Some v \<and> v \<noteq> []"
  by (auto simp: truthy_def split: option.splits list.splits)

lemma assertMayAccess_iff: "assertMayAccess user client scope w = Inr () \<longleftrightarrow> may_access user client scope w"
proof -
  have e: "truthy (user_email user) = None \<longleftrightarrow> \<not> (\<exists>e. user_email user = Some e \<and> e \<noteq> [])"
    by (auto simp: truthy_iff simp flip: not_Some_eq)
  show ?thesis
  proof (cases "linked_app client (sso_apps w)")
    case None
    then show ?thesis
      by (auto simp: assertMayAccess_def may_access_def e linked_app_def get_app_def truthy_def
          split: option.splits list.splits if_splits)
  next
    case (Some app)
    then obtain i raw where "oc_appId client = Some i" "i \<noteq> []" "look (apps (sso_apps w)) i = Some raw"
      "app = read_app raw"
      by (auto simp: linked_app_def get_app_def truthy_iff split: option.splits)
    with Some show ?thesis
      by (auto simp: assertMayAccess_def may_access_def e read_app_def)
  qed
qed

lemma truthy_Some [simp]: "v \<noteq> [] \<Longrightarrow> truthy (Some v) = Some v"
  by (simp add: truthy_iff)

text \<open>Only a completed authorization adds a code, only an approval approves a device.\<close>

definition codes_of :: "sso \<Rightarrow> (string \<times> AuthCodeRecord) set" where
  "codes_of w = {(c, r). look (codes (sso_oidc w)) c = Some r}"

definition approvals_of :: "sso \<Rightarrow> (string \<times> uid option \<times> string \<times> string) set" where
  "approvals_of w = {(dc, dv_userId r, dv_clientId r, dv_scope r) | dc r.
     look (sso_devices w) dc = Some r \<and> dv_status r = DevApproved}"

lemma consume_codes_of: "{(c, r). look (codes (snd (consumeCode now code st))) c = Some r}
    \<subseteq> {(c, r). look (codes st) c = Some r}"
  by (auto simp: consume_codes split: if_splits)

lemma client_ops_codes:
  "createClient is_url uuid secret hash now name uris appId st = (out1, st') \<Longrightarrow> codes st' = codes st"
  "updateClient is_url nxt st = (out2, st') \<Longrightarrow> codes st' = codes st"
  "regenerateSecret secret hash i st = (out3, st') \<Longrightarrow> codes st' = codes st"
  "codes (deleteClient i st) = codes st"
  by (auto simp: createClient_def updateClient_def regenerateSecret_def deleteClient_def persistClients_def
      Let_def split: sum.splits option.splits if_splits)

lemma op_client_frames:
  "sso_devices (snd (op_createClient is_url uuid secret hash now name uris appId w)) = sso_devices w"
  "codes (sso_oidc (snd (op_createClient is_url uuid secret hash now name uris appId w))) = codes (sso_oidc w)"
  "sso_devices (snd (op_updateClient is_url nxt w)) = sso_devices w"
  "codes (sso_oidc (snd (op_updateClient is_url nxt w))) = codes (sso_oidc w)"
  "sso_devices (snd (op_regenerateSecret secret hash i w)) = sso_devices w"
  "codes (sso_oidc (snd (op_regenerateSecret secret hash i w))) = codes (sso_oidc w)"
  by (auto simp: op_createClient_def op_updateClient_def op_regenerateSecret_def
      split: option.split prod.split sum.split dest: client_ops_codes(1-3))

lemma id_and_refresh_frame:
  "id_and_refresh env now rtok fam user client scope nonce authTime issuer w = (r, w') \<Longrightarrow>
   sso_oidc w' = sso_oidc w \<and> sso_devices w' = sso_devices w \<and> sso_auth w' = sso_auth w"
  by (auto simp: id_and_refresh_def Let_def split: if_splits prod.splits)

text \<open>What a successful exchange of an authorization code, or of a device code, went through.\<close>

lemma codeGrant_Inr:
  assumes "codeGrant env now rtok fam basic body w = (Inr r, w')"
  obtains code v cid secret client grant user issuer where
    "get_field body ''code'' = Some code" "get_field body ''code_verifier'' = Some v"
    "get_field body ''redirect_uri'' = Some (ac_redirectUri grant)"
    "clientCredentials env basic body = Some (cid, secret)"
    "verifyClientSecret (env_verify env) cid secret (sso_oidc w) = Some client"
    "look (codes (sso_oidc w)) code = Some grant" "now \<le> ac_expiresAt grant"
    "ac_clientId grant = oc_id client" "env_pkce env v = ac_codeChallenge grant"
    "user_of w (ac_userId grant) = Some user" "truthy (sso_primaryUrl w) = Some issuer"
    "id_and_refresh env now rtok fam user client (ac_scope grant) (ac_nonce grant)
       (ac_issuedAt grant div 1000) issuer
       (w\<lparr>sso_oidc := (sso_oidc w)\<lparr>codes := del code (codes (sso_oidc w))\<rparr>\<rparr>) = (r, w')"
proof -
  have u: "user_of (w\<lparr>sso_oidc := x\<rparr>) = user_of w" for x by (simp add: user_of_def fun_eq_iff)
  from assms obtain code v red cid secret where
    f: "get_field body ''code'' = Some code" "get_field body ''code_verifier'' = Some v"
    "get_field body ''redirect_uri'' = Some red" "clientCredentials env basic body = Some (cid, secret)"
    by (auto simp: codeGrant_def split: option.splits)
  from assms f obtain client where c: "verifyClientSecret (env_verify env) cid secret (sso_oidc w) = Some client"
    by (auto simp: codeGrant_def split: option.splits)
  obtain grant o1 where g: "consumeCode now code (sso_oidc w) = (Some grant, o1)"
    using assms f c by (auto simp: codeGrant_def split: option.splits prod.splits)
  then have g': "look (codes (sso_oidc w)) code = Some grant" "now \<le> ac_expiresAt grant"
    "o1 = (sso_oidc w)\<lparr>codes := del code (codes (sso_oidc w))\<rparr>"
    by (auto simp: consumeCode_def split: option.splits if_splits)
  have x: "exchangeCode env now rtok fam client red v grant (w\<lparr>sso_oidc := o1\<rparr>) = (Inr r, w')"
    using assms f c g by (simp add: codeGrant_def)
  then have "ac_clientId grant = oc_id client \<and> ac_redirectUri grant = red \<and> env_pkce env v = ac_codeChallenge grant"
    by (auto simp: exchangeCode_def split: if_splits)
  moreover from this x obtain user issuer where "user_of w (ac_userId grant) = Some user"
    "truthy (sso_primaryUrl w) = Some issuer"
    by (auto simp: exchangeCode_def u split: option.splits)
  ultimately show thesis
    using x f c g' u by (intro that) (auto simp: exchangeCode_def Let_def split: prod.splits)
qed

lemma consume_pair: "consumeCode now code st = (out, st') \<Longrightarrow> st' = st\<lparr>codes := del code (codes st)\<rparr>"
  by (auto simp: consumeCode_def split: option.splits)

lemma codes_of_del: "codes_of (w\<lparr>sso_oidc := (sso_oidc w)\<lparr>codes := del c (codes (sso_oidc w))\<rparr>\<rparr>) \<subseteq> codes_of w"
  by (auto simp: codes_of_def split: if_splits)

lemma codes_of_cong: "codes (sso_oidc w') = codes (sso_oidc w) \<Longrightarrow> codes_of w' = codes_of w"
  by (simp add: codes_of_def)

lemma approvals_cong: "sso_devices w' = sso_devices w \<Longrightarrow> approvals_of w' = approvals_of w"
  by (simp add: approvals_of_def)

lemma exchangeCode_frame:
  "exchangeCode env now rtok fam client redirectUri v grant w1 = (out, w') \<Longrightarrow>
   sso_oidc w' = sso_oidc w1 \<and> sso_devices w' = sso_devices w1"
  by (auto simp: exchangeCode_def Let_def split: if_splits option.splits prod.splits dest!: id_and_refresh_frame)

lemma codeGrant_frame:
  assumes "codeGrant env now rtok fam basic body w = (out, w')"
  shows "codes_of w' \<subseteq> codes_of w \<and> sso_devices w' = sso_devices w"
proof (cases "\<exists>code red v cid secret client. get_field body ''code'' = Some code
    \<and> get_field body ''redirect_uri'' = Some red \<and> get_field body ''code_verifier'' = Some v
    \<and> clientCredentials env basic body = Some (cid, secret)
    \<and> verifyClientSecret (env_verify env) cid secret (sso_oidc w) = Some client")
  case True
  then obtain code red v cid secret client where
    f: "get_field body ''code'' = Some code" "get_field body ''redirect_uri'' = Some red"
    "get_field body ''code_verifier'' = Some v" "clientCredentials env basic body = Some (cid, secret)"
    "verifyClientSecret (env_verify env) cid secret (sso_oidc w) = Some client" by blast
  obtain g o1 where g: "consumeCode now code (sso_oidc w) = (g, o1)" by (rule prod.exhaust)
  have o1: "o1 = (sso_oidc w)\<lparr>codes := del code (codes (sso_oidc w))\<rparr>" by (rule consume_pair [OF g])
  have "sso_oidc w' = o1 \<and> sso_devices w' = sso_devices w"
  proof (cases g)
    case None
    with assms f g show ?thesis by (auto simp: codeGrant_def)
  next
    case (Some grant)
    with assms f g have "exchangeCode env now rtok fam client red v grant (w\<lparr>sso_oidc := o1\<rparr>) = (out, w')"
      by (simp add: codeGrant_def)
    from exchangeCode_frame [OF this] show ?thesis by simp
  qed
  then show ?thesis by (auto simp: codes_of_def o1 split: if_splits)
next
  case False
  then have "w' = w" using assms unfolding codeGrant_def
    by (cases "get_field body ''code''"; cases "get_field body ''redirect_uri''";
        cases "get_field body ''code_verifier''"; cases "clientCredentials env basic body")
       (auto split: option.splits)
  then show ?thesis by simp
qed

lemma refreshGrant_frame:
  "refreshGrant env now nxt basic body w = (out, w') \<Longrightarrow> sso_oidc w' = sso_oidc w \<and> sso_devices w' = sso_devices w"
  by (auto simp: refreshGrant_def split: option.splits prod.splits rotation.splits if_splits)

text \<open>No step of the device store but an approval adds an approved request.\<close>

definition approved :: "device_store \<Rightarrow> (string \<times> uid option \<times> string \<times> string) set" where
  "approved m = {(dc, dv_userId r, dv_clientId r, dv_scope r) | dc r.
     look m dc = Some r \<and> dv_status r = DevApproved}"

lemma approvals_of_approved: "approvals_of w = approved (sso_devices w)"
  by (simp add: approvals_of_def approved_def)

lemma approved_put:
  "dv_status r = DevApproved \<Longrightarrow> look m k = Some q \<and> dv_status q = DevApproved \<and> dv_userId q = dv_userId r
     \<and> dv_clientId q = dv_clientId r \<and> dv_scope q = dv_scope r \<Longrightarrow> approved (put k r m) \<subseteq> approved m"
  "dv_status r \<noteq> DevApproved \<Longrightarrow> approved (put k r m) \<subseteq> approved m"
  by (fastforce simp: approved_def split: if_splits)+

lemma approved_del: "approved (del k m) \<subseteq> approved m"
  by (fastforce simp: approved_def split: if_splits)

lemma approved_prune: "unique_keys m \<Longrightarrow> approved (prune_devices now m) \<subseteq> approved m"
  unfolding approved_def prune_devices_def look_drop_where_Some by blast

lemma approved_poll: "poll_device now dc cid m = (out, m') \<Longrightarrow> approved m' \<subseteq> approved m"
proof (cases "look m dc")
  case (Some rec)
  assume p: "poll_device now dc cid m = (out, m')"
  let ?m1 = "put dc (rec\<lparr>dv_lastPolledAt := now\<rparr>) m"
  have 1: "approved ?m1 \<subseteq> approved m"
    using Some approved_put(1) [of "rec\<lparr>dv_lastPolledAt := now\<rparr>" m dc rec]
      approved_put(2) [of "rec\<lparr>dv_lastPolledAt := now\<rparr>" dc m]
    by (cases "dv_status rec = DevApproved") simp_all
  from p Some have "m' = m \<or> m' = del dc m \<or> m' = ?m1 \<or> m' = del dc ?m1"
    by (auto simp: poll_device_def Let_def split: if_splits)
  with 1 approved_del [of dc m] approved_del [of dc ?m1] show ?thesis by blast
qed (auto simp: poll_device_def)

lemma deviceGrant_frame:
  assumes "deviceGrant env now rtok fam basic body w = (out, w')"
  shows "sso_oidc w' = sso_oidc w \<and> approved (sso_devices w') \<subseteq> approved (sso_devices w)"
proof -
  from assms have "sso_oidc w' = sso_oidc w \<and> (sso_devices w' = sso_devices w
      \<or> (\<exists>dc cid o1 ds. poll_device now dc cid (sso_devices w) = (o1, ds) \<and> sso_devices w' = ds))"
    by (auto simp: deviceGrant_def Let_def split: option.splits prod.splits sum.splits
        dest!: id_and_refresh_frame)
  then show ?thesis by (metis approved_poll order_refl)
qed

lemma approved_request:
  assumes "device_inv m" "look m dc = None"
  shows "approved (snd (request_device now dc rnd cid scope ip ua m)) \<subseteq> approved m"
proof -
  have u: "unique_keys m" using assms(1) by (simp add: device_inv_def each_def)
  have "approved (put dc r (prune_devices now m)) \<subseteq> approved m" if "dv_status r \<noteq> DevApproved" for r
    using approved_put(2) [OF that] approved_prune [OF u] by blast
  then show ?thesis using approved_prune [OF u]
    by (auto simp: request_device_def Let_def split: sum.split)
qed

lemma resolve_device_eq:
  assumes "findPending now typed m = (Some rec, ds)"
  shows "snd (resolve_device now typed ok i m) = put (dv_deviceCode rec)
    (rec\<lparr>dv_status := (if ok then DevApproved else DevDenied), dv_userId := Some i, dv_approvedAt := Some now\<rparr>) ds"
  using assms by (simp add: resolve_device_def Let_def)

lemma approved_deny: "unique_keys m \<Longrightarrow> approved (snd (resolve_device now typed False i m)) \<subseteq> approved m"
proof (cases "findPending now typed m")
  case (Pair out ds)
  assume u: "unique_keys m"
  have ds: "ds = prune_devices now m" using Pair by (simp add: findPending_def Let_def split: if_splits)
  show ?thesis
  proof (cases out)
    case None
    with Pair ds approved_prune [OF u] show ?thesis by (simp add: resolve_device_def)
  next
    case (Some rec)
    let ?r = "rec\<lparr>dv_status := DevDenied, dv_userId := Some i, dv_approvedAt := Some now\<rparr>"
    have "approved (put (dv_deviceCode rec) ?r ds) \<subseteq> approved ds" by (rule approved_put(2)) simp
    with Some Pair ds approved_prune [OF u] resolve_device_eq [of now typed m rec ds False i] show ?thesis
      by (auto simp del: fun_upd_apply)
  qed
qed

lemma approve_outcome:
  assumes inv: "device_inv (sso_devices w)" and op: "op_approveDevice now caller typed w = (out, w')"
  shows "sso_oidc w' = sso_oidc w \<and>
    (approved (sso_devices w') \<subseteq> approved (sso_devices w)
     \<or> (\<exists>user client (rec :: DeviceRequestRecord). out = Inr () \<and> caller = Some user
          \<and> getClient (dv_clientId rec) (sso_oidc w) = Some client \<and> may_access user client (dv_scope rec) w
          \<and> approved (sso_devices w') \<subseteq> insert (dv_deviceCode rec, Some (user_id user), dv_clientId rec, dv_scope rec)
               (approved (sso_devices w))))"
proof (cases caller)
  case (Some user)
  have u: "unique_keys (sso_devices w)" using inv by (simp add: device_inv_def each_def)
  obtain f ds where f: "findPending now typed (sso_devices w) = (f, ds)" by (rule prod.exhaust)
  then have ds: "ds = prune_devices now (sso_devices w)" by (simp add: findPending_def Let_def split: if_splits)
  note pr = approved_prune [OF u, of now, folded ds]
  show ?thesis
  proof (cases f)
    case None
    with op Some f pr show ?thesis by (auto simp: op_approveDevice_def)
  next
    case [simp]: (Some rec)
    let ?w1 = "w\<lparr>sso_devices := ds\<rparr>"
    show ?thesis
    proof (cases "\<exists>client. getClient (dv_clientId rec) (sso_oidc w) = Some client
        \<and> assertMayAccess user client (dv_scope rec) ?w1 = Inr ()")
      case False
      then have "w' = ?w1" using op \<open>caller = _\<close> f unfolding op_approveDevice_def Let_def
        by (auto split: option.splits sum.splits)
      with pr show ?thesis by simp
    next
      case True
      then obtain client where c: "getClient (dv_clientId rec) (sso_oidc w) = Some client"
        "assertMayAccess user client (dv_scope rec) ?w1 = Inr ()" by blast
      have ok: "may_access user client (dv_scope rec) w"
        using c(2) unfolding assertMayAccess_iff by (simp add: may_access_def known_apps_def)
      have w': "out = Inr ()" "w' = ?w1\<lparr>sso_devices := snd (resolve_device now typed True (user_id user) ds)\<rparr>"
        using op \<open>caller = _\<close> f c unfolding op_approveDevice_def Let_def by auto
      have "prune_devices now ds = ds"
        unfolding ds prune_devices_def drop_where_def by (simp add: case_prod_unfold)
      then have "findPending now typed ds = findPending now typed (sso_devices w)"
        by (simp add: findPending_def Let_def ds)
      then have g': "findPending now typed ds = (Some rec, ds)" using f by simp
      have "approved (sso_devices w') \<subseteq> insert (dv_deviceCode rec, Some (user_id user), dv_clientId rec, dv_scope rec)
          (approved ds)"
        unfolding w' using resolve_device_eq [OF g', of True "user_id user"]
        by (auto simp: approved_def split: if_splits)
      with pr have sub: "approved (sso_devices w') \<subseteq> insert (dv_deviceCode rec, Some (user_id user),
          dv_clientId rec, dv_scope rec) (approved (sso_devices w))" by blast
      show ?thesis
        by (intro conjI disjI2 exI [of _ user] exI [of _ client] exI [of _ rec] sub ok c(1) w'(1)
            \<open>caller = _\<close>) (simp add: w'(2))
    qed
  qed
qed (use op in \<open>simp add: op_approveDevice_def\<close>)

lemma complete_outcome:
  assumes "op_completeAuthorize code now caller ps w = (out, w')" "look (codes (sso_oidc w)) code = None"
    and inv: "oidc_inv is_url (sso_oidc w)"
  shows "sso_devices w' = sso_devices w \<and> (codes_of w' \<subseteq> codes_of w
    \<or> (\<exists>user client r. caller = Some user \<and> getClient (ac_clientId r) (sso_oidc w) = Some client
        \<and> ac_redirectUri r \<in> set (oc_redirectUris client) \<and> ac_codeChallenge r \<noteq> []
        \<and> ac_userId r = user_id user \<and> may_access user client (ac_scope r) w
        \<and> codes_of w' = insert (code, r) (codes_of w)))"
proof (cases "\<exists>user client. caller = Some user \<and> validateRequest ps (sso_oidc w) = Inr client
    \<and> assertMayAccess user client (ap_scope ps) w = Inr ()")
  case False
  then have "w' = w" using assms(1) unfolding op_completeAuthorize_def
    by (auto split: option.splits sum.splits)
  then show ?thesis by simp
next
  case True
  then obtain user client where c: "caller = Some user" "validateRequest ps (sso_oidc w) = Inr client"
    "assertMayAccess user client (ap_scope ps) w = Inr ()" by blast
  let ?r = "\<lparr>ac_userId = user_id user, ac_clientId = oc_id client, ac_redirectUri = ap_redirectUri ps,
     ac_scope = ap_scope ps, ac_codeChallenge = ap_codeChallenge ps, ac_nonce = ap_nonce ps, ac_issuedAt = now,
     ac_expiresAt = now + CODE_TTL_MS\<rparr>"
  from assms(1) c have w': "w' = w\<lparr>sso_oidc := (sso_oidc w)\<lparr>codes := put code ?r (codes (sso_oidc w))\<rparr>\<rparr>"
    by (auto simp: op_completeAuthorize_def issueCode_def)
  have "codes_of w' = insert (code, ?r) (codes_of w)"
    using assms(2) by (auto simp: w' codes_of_def split: if_splits)
  moreover obtain rec where "look (clients (sso_oidc w)) (ap_clientId ps) = Some rec" "client = toPublic rec"
    "ap_redirectUri ps \<in> set (oc_redirectUris rec)" "ap_codeChallenge ps \<noteq> []"
    using c(2) by (auto simp: validateRequest_def split: option.splits if_splits)
  moreover from this inv have "oc_id rec = ap_clientId ps"
    using each_look [of "client_ok is_url" "clients (sso_oidc w)" "ap_clientId ps" rec]
    by (simp add: oidc_inv_def client_ok_def)
  ultimately show ?thesis
    using c assertMayAccess_iff [of user client "ap_scope ps" w] w'
    by (intro conjI disjI2 exI [of _ user] exI [of _ client] exI [of _ ?r])
       (auto simp: getClient_def toPublic_def OidcClient.truncate_def)
qed

subsection \<open>The provider's invariant\<close>

definition sso_inv :: "oidc_env \<Rightarrow> sso \<Rightarrow> bool" where
  "sso_inv env w \<longleftrightarrow> auth_inv (sso_auth w) \<and> oidc_inv (env_is_url env) (sso_oidc w)
     \<and> unique_keys (codes (sso_oidc w)) \<and> device_inv (sso_devices w)"

text \<open>
  A request moves each store by that store's own operations, so the stores' invariants are the
  provider's.
\<close>

definition by_stores :: "oidc_env \<Rightarrow> sso \<Rightarrow> sso \<Rightarrow> bool" where
  "by_stores env w w' \<longleftrightarrow> auth_step\<^sup>*\<^sup>* (sso_auth w) (sso_auth w') \<and> role_step\<^sup>*\<^sup>* (sso_roles w) (sso_roles w')
     \<and> app_step\<^sup>*\<^sup>* (sso_apps w) (sso_apps w')
     \<and> (oidc_step (env_is_url env))\<^sup>*\<^sup>* (sso_oidc w) (sso_oidc w')
     \<and> (refresh_step (env_digest env))\<^sup>*\<^sup>* (sso_refresh w) (sso_refresh w')
     \<and> device_step\<^sup>*\<^sup>* (sso_devices w) (sso_devices w')"

lemma by_stores_refl [simp]: "by_stores env w w"
  by (simp add: by_stores_def)

lemma by_stores_trans: "by_stores env w w1 \<Longrightarrow> by_stores env w1 w2 \<Longrightarrow> by_stores env w w2"
  by (auto simp: by_stores_def intro: rtranclp_trans)

lemma by_oidc: "oidc_step (env_is_url env) (sso_oidc w) o1 \<Longrightarrow> by_stores env w (w\<lparr>sso_oidc := o1\<rparr>)"
  by (auto simp: by_stores_def)

lemma by_devices: "device_step (sso_devices w) ds \<Longrightarrow> by_stores env w (w\<lparr>sso_devices := ds\<rparr>)"
  by (auto simp: by_stores_def)

lemma by_refresh:
  "fresh_for (env_digest env) ev (sso_refresh w) \<Longrightarrow> refresh_do (env_digest env) (now, ev) (sso_refresh w) = rs \<Longrightarrow>
   by_stores env w (w\<lparr>sso_refresh := rs\<rparr>)"
  using refresh_step.step [of "env_digest env" ev "sso_refresh w" now] by (auto simp: by_stores_def)

lemma by_id_and_refresh:
  assumes "id_and_refresh env now rtok fam user client scope nonce authTime issuer w = (r, w')"
    and "look (tokens (sso_refresh w)) (env_digest env rtok) = None"
    and "list_all (\<lambda>r. f_familyId r \<noteq> fam) (vals (tokens (sso_refresh w)))"
  shows "by_stores env w w'"
proof (cases "hasOfflineAccess scope")
  case True
  with assms(1) have "w' = w\<lparr>sso_refresh := snd (issue (env_digest env) now rtok fam (user_id user)
      (oc_id client) scope (sso_refresh w))\<rparr>"
    by (auto simp: id_and_refresh_def Let_def split: prod.splits)
  with assms(2,3) by_refresh [of env "Issue rtok fam (user_id user) (oc_id client) scope" w now]
  show ?thesis by simp
qed (use assms(1) in \<open>simp add: id_and_refresh_def Let_def\<close>)

lemma by_revoke_family: "rs = revokeFamily f (sso_refresh w) \<Longrightarrow> by_stores env w (w\<lparr>sso_refresh := rs\<rparr>)"
  using by_refresh [of env "RevokeFamily f" w 0] by simp

lemma by_rotate:
  assumes "rotate_token (env_digest env) now nxt tok (sso_refresh w) = (out, rs)"
    and "look (tokens (sso_refresh w)) (env_digest env nxt) = None"
  shows "by_stores env w (w\<lparr>sso_refresh := rs\<rparr>)"
  using by_refresh [of env "Rotate nxt tok" w now rs] assms by simp

lemma by_refreshGrant:
  assumes "refreshGrant env now nxt basic body w = (out, w')"
    and fresh: "look (tokens (sso_refresh w)) (env_digest env nxt) = None"
  shows "by_stores env w w'"
proof (cases "\<exists>p cid secret client. get_field body ''refresh_token'' = Some p
    \<and> clientCredentials env basic body = Some (cid, secret)
    \<and> verifyClientSecret (env_verify env) cid secret (sso_oidc w) = Some client")
  case False
  then have "w' = w" using assms(1) unfolding refreshGrant_def
    by (cases "get_field body ''refresh_token''"; cases "clientCredentials env basic body")
       (auto split: option.splits)
  then show ?thesis by simp
next
  case True
  then obtain p cid secret client where f: "get_field body ''refresh_token'' = Some p"
    "clientCredentials env basic body = Some (cid, secret)"
    "verifyClientSecret (env_verify env) cid secret (sso_oidc w) = Some client" by blast
  obtain rot rs where r: "rotate_token (env_digest env) now nxt p (sso_refresh w) = (rot, rs)"
    by (rule prod.exhaust)
  let ?w1 = "w\<lparr>sso_refresh := rs\<rparr>"
  have 1: "by_stores env w ?w1" by (rule by_rotate [OF r fresh])
  have 2: "by_stores env ?w1 (w\<lparr>sso_refresh := revokeFamily fam rs\<rparr>)" for fam
    using by_revoke_family [of "revokeFamily fam rs" fam ?w1] by simp
  have "w' = ?w1 \<or> (\<exists>fam. w' = w\<lparr>sso_refresh := revokeFamily fam rs\<rparr>)"
    using assms(1) f r unfolding refreshGrant_def
    by (cases rot) (auto split: option.splits if_splits)
  with 1 2 show ?thesis using by_stores_trans by blast
qed

lemma poll_step: "poll_device now dc cid m = (out, ds) \<Longrightarrow> device_step m ds"
  using device_step.poll [of m now dc cid] by simp

lemma by_deviceGrant:
  assumes "deviceGrant env now rtok fam basic body w = (out, w')"
    and fresh: "look (tokens (sso_refresh w)) (env_digest env rtok) = None"
      "list_all (\<lambda>r. f_familyId r \<noteq> fam) (vals (tokens (sso_refresh w)))"
  shows "by_stores env w w'"
proof (cases "\<exists>dc cid secret client. get_field body ''device_code'' = Some dc
    \<and> clientCredentials env basic body = Some (cid, secret)
    \<and> verifyClientSecret (env_verify env) cid secret (sso_oidc w) = Some client")
  case False
  then have "w' = w" using assms(1) unfolding deviceGrant_def
    by (cases "get_field body ''device_code''"; cases "clientCredentials env basic body")
       (auto split: option.splits)
  then show ?thesis by simp
next
  case True
  then obtain dc cid secret client where f: "get_field body ''device_code'' = Some dc"
    "clientCredentials env basic body = Some (cid, secret)"
    "verifyClientSecret (env_verify env) cid secret (sso_oidc w) = Some client" by blast
  obtain p ds where p: "poll_device now dc (oc_id client) (sso_devices w) = (p, ds)" by (rule prod.exhaust)
  let ?w1 = "w\<lparr>sso_devices := ds\<rparr>"
  have 1: "by_stores env w ?w1" by (rule by_devices [OF poll_step [OF p]])
  have "w' = ?w1 \<or> (\<exists>user scope nonce t issuer r.
      id_and_refresh env now rtok fam user client scope nonce t issuer ?w1 = (r, w'))"
    using assms(1) f p unfolding deviceGrant_def Let_def
    by (cases p) (auto split: option.splits prod.splits)
  with 1 show ?thesis using by_id_and_refresh [of env now rtok fam _ client _ _ _ _ ?w1] fresh
    by (auto intro: by_stores_trans)
qed

lemma by_codeGrant:
  assumes "codeGrant env now rtok fam basic body w = (out, w')"
    and fresh: "look (tokens (sso_refresh w)) (env_digest env rtok) = None"
      "list_all (\<lambda>r. f_familyId r \<noteq> fam) (vals (tokens (sso_refresh w)))"
  shows "by_stores env w w'"
proof (cases "\<exists>code red v cid secret client. get_field body ''code'' = Some code
    \<and> get_field body ''redirect_uri'' = Some red \<and> get_field body ''code_verifier'' = Some v
    \<and> clientCredentials env basic body = Some (cid, secret)
    \<and> verifyClientSecret (env_verify env) cid secret (sso_oidc w) = Some client")
  case False
  then have "w' = w" using assms(1) unfolding codeGrant_def
    by (cases "get_field body ''code''"; cases "get_field body ''redirect_uri''";
        cases "get_field body ''code_verifier''"; cases "clientCredentials env basic body")
       (auto split: option.splits)
  then show ?thesis by simp
next
  case True
  then obtain code red v cid secret client where f: "get_field body ''code'' = Some code"
    "get_field body ''redirect_uri'' = Some red"
    "get_field body ''code_verifier'' = Some v" "clientCredentials env basic body = Some (cid, secret)"
    "verifyClientSecret (env_verify env) cid secret (sso_oidc w) = Some client" by blast
  obtain g o1 where g: "consumeCode now code (sso_oidc w) = (g, o1)" by (rule prod.exhaust)
  let ?w1 = "w\<lparr>sso_oidc := o1\<rparr>"
  have 1: "by_stores env w ?w1"
    using oidc_step.consume [of "env_is_url env" "sso_oidc w" now code] g by (intro by_oidc) simp
  have "w' = ?w1 \<or> (\<exists>user scope nonce t issuer r.
      id_and_refresh env now rtok fam user client scope nonce t issuer ?w1 = (r, w'))"
  proof (cases g)
    case None
    with assms(1) f g show ?thesis by (auto simp: codeGrant_def)
  next
    case (Some grant)
    with assms(1) f g have "exchangeCode env now rtok fam client red v grant ?w1 = (out, w')"
      by (simp add: codeGrant_def)
    then show ?thesis unfolding exchangeCode_def Let_def
      by (auto split: if_splits option.splits prod.splits)
  qed
  with 1 show ?thesis using by_id_and_refresh [of env now rtok fam _ client _ _ _ _ ?w1] fresh
    by (auto intro: by_stores_trans)
qed

lemma by_token:
  assumes "look (tokens (sso_refresh w)) (env_digest env tok) = None"
    "list_all (\<lambda>r. f_familyId r \<noteq> fam) (vals (tokens (sso_refresh w)))"
  shows "by_stores env w (snd (token_endpoint env now tok fam basic body w))"
  using by_refreshGrant [OF prod.collapse [symmetric] assms(1)] by_deviceGrant [OF prod.collapse [symmetric] assms]
    by_codeGrant [OF prod.collapse [symmetric] assms]
  by (auto simp: token_endpoint_def)

lemma by_pair:
  assumes "look (sso_devices w) dc = None" "\<And>a i. rnd a i < length USER_CODE_ALPHABET"
  shows "by_stores env w (snd (device_authorization env now dc rnd ip ua basic body w))"
proof -
  have "by_stores env w (w\<lparr>sso_devices := snd (request_device now dc rnd c s ip ua (sso_devices w))\<rparr>)" for c s
    by (rule by_devices, rule device_step.request [OF assms])
  then have "by_stores env w (w\<lparr>sso_devices := ds\<rparr>)"
    if "request_device now dc rnd c s ip ua (sso_devices w) = (out, ds)" for c s out ds
    using that by (metis snd_conv)
  then show ?thesis
    by (auto simp: device_authorization_def split: option.split prod.split sum.split)
qed

lemma by_approve: "by_stores env w (snd (op_approveDevice now caller typed w))"
proof -
  obtain f ds where f: "findPending now typed (sso_devices w) = (f, ds)" by (rule prod.exhaust)
  have 1: "by_stores env w (w\<lparr>sso_devices := ds\<rparr>)"
    using device_step.find [of "sso_devices w" now typed] f by (intro by_devices) simp
  have 2: "by_stores env (w\<lparr>sso_devices := ds\<rparr>) (w\<lparr>sso_devices := snd (resolve_device now typed True i ds)\<rparr>)" for i
    using by_devices [of "w\<lparr>sso_devices := ds\<rparr>" _ env, OF device_step.resolve] by simp
  show ?thesis using 1 by_stores_trans [OF 1 2] f
    by (auto simp: op_approveDevice_def Let_def split: option.split sum.split)
qed

lemma by_client_ops:
  "look (clients (sso_oidc w)) uuid = None \<Longrightarrow>
     by_stores env w (snd (op_createClient (env_is_url env) uuid secret hash now name uris appId w))"
  "by_stores env w (snd (op_updateClient (env_is_url env) nxt w))"
  "by_stores env w (snd (op_regenerateSecret secret hash i w))"
proof -
  have o: "oidc_step (env_is_url env) (sso_oidc w) o1" if "createClient (env_is_url env) uuid secret hash now
      name uris appId (sso_oidc w) = (r, o1)" "look (clients (sso_oidc w)) uuid = None" for r o1
    using oidc_step.create [OF that(2), of "env_is_url env" secret hash now name uris appId] that(1) by simp
  then show "look (clients (sso_oidc w)) uuid = None \<Longrightarrow>
     by_stores env w (snd (op_createClient (env_is_url env) uuid secret hash now name uris appId w))"
    by (auto simp: op_createClient_def split: option.split prod.split sum.split intro: by_oidc)
  have "oidc_step (env_is_url env) (sso_oidc w) o1"
    if "updateClient (env_is_url env) nxt (sso_oidc w) = (r, o1)" for r o1
    using oidc_step.update [of "env_is_url env" "sso_oidc w" nxt] that by simp
  then show "by_stores env w (snd (op_updateClient (env_is_url env) nxt w))"
    by (auto simp: op_updateClient_def split: prod.split sum.split intro: by_oidc)
  have "oidc_step (env_is_url env) (sso_oidc w) o1"
    if "regenerateSecret secret hash i (sso_oidc w) = (r, o1)" for r o1
    using oidc_step.regenerate [of "env_is_url env" "sso_oidc w" secret hash i] that by simp
  then show "by_stores env w (snd (op_regenerateSecret secret hash i w))"
    by (auto simp: op_regenerateSecret_def split: prod.split sum.split intro: by_oidc)
qed

lemma step_by_stores: "sso_step env w w' \<Longrightarrow> by_stores env w w'"
proof (induction rule: sso_step.induct)
  case (complete w code now caller ps)
  then show ?case
    by (auto simp: op_completeAuthorize_def split: option.split sum.split
        intro!: by_oidc intro: oidc_step.issue)
next
  case (token w tok fam now basic body)
  then show ?case by (rule by_token)
next
  case (pair w dc rnd now ip ua basic body)
  then show ?case by (rule by_pair)
next
  case (lookup w now typed)
  then show ?case using by_devices [where env = env and w = w, OF device_step.find, of now typed]
    by (auto simp: op_getDeviceRequest_def split: prod.split)
next
  case (deny w now caller typed)
  then show ?case using by_devices [where env = env and w = w, OF device_step.resolve, of now typed False]
    by (auto simp: op_denyDevice_def split: option.split)
next
  case (revoke w basic body)
  have "by_stores env w (w\<lparr>sso_refresh := snd (revoke_token (env_digest env) t (sso_refresh w))\<rparr>)" for t
    by (rule by_refresh [of env "Revoke t" w 0]) simp_all
  then show ?case by (auto simp: revoke_endpoint_def split: option.split)
next
  case (drop_client w i)
  have "by_stores env w (w\<lparr>sso_oidc := deleteClient i (sso_oidc w)\<rparr>)"
    by (rule by_oidc [OF oidc_step.delete])
  moreover have "by_stores env (w\<lparr>sso_oidc := deleteClient i (sso_oidc w)\<rparr>) (op_deleteClient i w)"
    unfolding op_deleteClient_def
    using by_refresh [of env "RevokeForClient i" "w\<lparr>sso_oidc := deleteClient i (sso_oidc w)\<rparr>" 0] by simp
  ultimately show ?case by (rule by_stores_trans)
next
  case (revoke_grant w f)
  then show ?case by (simp add: op_revokeGrant_def by_revoke_family)
qed (auto simp: by_approve by_client_ops, simp_all add: by_stores_def)

lemma unique_codes_step: "oidc_step is_url s s' \<Longrightarrow> unique_keys (codes s) \<Longrightarrow> unique_keys (codes s')"
  by (induction rule: oidc_step.induct)
     (auto simp: client_ops_codes(1-3) [OF prod.collapse [symmetric]] client_ops_codes(4) issueCode_def consume_codes)

interpretation code_keys: invariant_store "\<lambda>s. unique_keys (codes s)" "oidc_step is_url"
  by unfold_locales (rule unique_codes_step)

lemma sso_inv_step: "sso_step env w w' \<Longrightarrow> sso_inv env w \<Longrightarrow> sso_inv env w'"
  using step_by_stores [of env w w'] unfolding by_stores_def sso_inv_def
  by (auto intro: accounts.run_inv registrations.run_inv code_keys.run_inv devices.run_inv)

interpretation provider: invariant_store "sso_inv env" "sso_step env"
  by unfold_locales (rule sso_inv_step)

lemma codes_mono:
  assumes "sso_step env w w'" "sso_inv env w"
  shows "codes_of w' \<subseteq> codes_of w \<or> (\<exists>c r user client. codes_of w' = insert (c, r) (codes_of w)
      \<and> getClient (ac_clientId r) (sso_oidc w) = Some client
      \<and> ac_redirectUri r \<in> set (oc_redirectUris client) \<and> ac_codeChallenge r \<noteq> []
      \<and> ac_userId r = user_id user \<and> may_access user client (ac_scope r) w)"
  using assms
proof (induction rule: sso_step.induct)
  case (complete w code now caller ps)
  then have "oidc_inv (env_is_url env) (sso_oidc w)" by (simp add: sso_inv_def)
  from complete_outcome [OF prod.collapse [symmetric] complete.hyps this, of now caller ps]
  show ?case by blast
next
  case (token w tok fam now basic body)
  then show ?case
    using codeGrant_frame [OF prod.collapse [symmetric]] refreshGrant_frame [OF prod.collapse [symmetric]]
      deviceGrant_frame [OF prod.collapse [symmetric]]
    by (auto simp: token_endpoint_def codes_of_def)
next
  case (approve w now caller typed)
  then have "device_inv (sso_devices w)" by (simp add: sso_inv_def)
  from approve_outcome [OF this prod.collapse [symmetric]] show ?case by (auto simp: codes_of_def)
qed (auto simp: codes_of_def op_client_frames op_deleteClient_def client_ops_codes(4) op_revokeGrant_def
    device_authorization_def op_getDeviceRequest_def op_denyDevice_def revoke_endpoint_def
    split: option.split prod.split sum.split)

lemma approvals_mono:
  assumes "sso_step env w w'" "sso_inv env w"
  shows "approved (sso_devices w') \<subseteq> approved (sso_devices w) \<or> (\<exists>dc user client scope.
      approved (sso_devices w') \<subseteq> insert (dc, Some (user_id user), oc_id client, scope) (approved (sso_devices w))
      \<and> getClient (oc_id client) (sso_oidc w) = Some client \<and> may_access user client scope w)"
  using assms
proof (induction rule: sso_step.induct)
  case (complete w code now caller ps)
  then have "oidc_inv (env_is_url env) (sso_oidc w)" by (simp add: sso_inv_def)
  from complete_outcome [OF prod.collapse [symmetric] complete.hyps this] show ?case by simp
next
  case (token w tok fam now basic body)
  then show ?case
    using codeGrant_frame [OF prod.collapse [symmetric]] refreshGrant_frame [OF prod.collapse [symmetric]]
      deviceGrant_frame [OF prod.collapse [symmetric]]
    by (auto simp: token_endpoint_def)
next
  case (pair w dc rnd now ip ua basic body)
  then have "device_inv (sso_devices w)" by (simp add: sso_inv_def)
  from approved_request [OF this pair.hyps(1)]
  have "approved ds \<subseteq> approved (sso_devices w)"
    if "request_device now dc rnd c s ip ua (sso_devices w) = (out, ds)" for c s out ds
    using that by (metis snd_conv)
  then show ?case by (auto simp: device_authorization_def split: option.split prod.split sum.split)
next
  case (lookup w now typed)
  then have "unique_keys (sso_devices w)" by (simp add: sso_inv_def device_inv_def each_def)
  with approved_prune show ?case
    by (auto simp: op_getDeviceRequest_def findPending_def Let_def split: prod.split)
next
  case (deny w now caller typed)
  then have "unique_keys (sso_devices w)" by (simp add: sso_inv_def device_inv_def each_def)
  with approved_deny show ?case by (auto simp: op_denyDevice_def split: option.split)
next
  case (approve w now caller typed)
  then have inv: "device_inv (sso_devices w)" "oidc_inv (env_is_url env) (sso_oidc w)" by (simp_all add: sso_inv_def)
  have ids: "oc_id client = i" if "getClient i (sso_oidc w) = Some client" for i client
    using that inv(2) each_look [of "client_ok (env_is_url env)" "clients (sso_oidc w)" i]
    by (auto simp: getClient_def toPublic_def OidcClient.truncate_def oidc_inv_def client_ok_def)
  let ?w = "snd (op_approveDevice now caller typed w)"
  from approve_outcome [OF inv(1) prod.collapse [symmetric], of now caller typed]
  consider "approved (sso_devices ?w) \<subseteq> approved (sso_devices w)"
    | user client and rec :: DeviceRequestRecord where
      "getClient (dv_clientId rec) (sso_oidc w) = Some client" "may_access user client (dv_scope rec) w"
      "approved (sso_devices ?w) \<subseteq> insert (dv_deviceCode rec, Some (user_id user), dv_clientId rec, dv_scope rec)
         (approved (sso_devices w))" by blast
  then show ?case
  proof cases
    case (2 user client rec)
    with ids [OF 2(1)] show ?thesis
      by (intro disjI2 exI [of _ "dv_deviceCode rec"] exI [of _ user] exI [of _ client]
          exI [of _ "dv_scope rec"]) simp
  qed simp
qed (auto simp: op_client_frames op_deleteClient_def op_revokeGrant_def revoke_endpoint_def
    split: option.split)

subsection \<open>Properties\<close>





lemma bearerToken_Bearer: "t \<noteq> [] \<Longrightarrow> \<not> js_ws (hd t) \<Longrightarrow> bearerToken (Some (''Bearer '' @ t)) = Some t"
proof -
  assume t: "t \<noteq> []" "\<not> js_ws (hd t)"
  then obtain c cs where "t = c # cs" by (cases t) auto
  with t have d: "dropWhile js_ws t = t" by simp
  have "js_lower ''Bearer'' = ''bearer''" "js_ws CHR '' ''" by code_simp+
  with d t show ?thesis by (simp add: bearerToken_def truthy_def)
qed


subsection \<open>Concrete runs\<close>

definition demo_env :: oidc_env where
  "demo_env = \<lparr>env_verify = (=), env_digest = id, env_pkce = id, env_sign = (\<lambda>p. ''J'' @ j_aud p),
     env_unseal = (\<lambda>t. if t = ''Jcli'' then Some \<lparr>cl_sub = ''u1'', cl_preferred_username = None, cl_email = None,
       cl_groups = None, j_iss = ''https://sc'', j_aud = ''cli'', j_exp = 3600, j_iat = 0, j_auth_time = None,
       j_nonce = None, j_scope = Some ''openid profile''\<rparr> else None),
     env_base64 = id, env_is_url = (\<lambda>_. True)\<rparr>"

definition demo_sso :: sso where
  "demo_sso = \<lparr>sso_auth = demo_store, sso_roles = init_roles None, sso_apps = init_apps None,
     sso_oidc = snd (createClient (\<lambda>_. True) ''cli'' ''sec'' ''sec'' 0 ''Photos'' [''https://app/cb''] None
        (init_oidc None None \<lparr>k_kid = [], k_privateKeyPem = [], k_publicKeyPem = [], k_createdAt = 0\<rparr>)),
     sso_refresh = init_refresh None 0, sso_devices = [], sso_primaryUrl = Some ''https://sc''\<rparr>"

definition demo_request :: OidcAuthorizeParams where
  "demo_request = \<lparr>ap_clientId = ''cli'', ap_redirectUri = ''https://app/cb'',
     ap_scope = ''openid profile offline_access'', ap_state = ''s'', ap_nonce = None,
     ap_codeChallenge = ''pk'', ap_codeChallengeMethod = ''S256''\<rparr>"

definition demo_caller :: UserInfo where
  "demo_caller = toUserInfo demo_user (init_roles None)"

lemma demo_sso_inv: "sso_inv demo_env demo_sso"
proof -
  have "oidc_inv (\<lambda>_. True) (init_oidc None None k)" for k by (simp add: oidc_inv_def init_oidc_def Let_def)
  moreover have "look (clients (init_oidc None None k)) ''cli'' = None" for k
    by (simp add: init_oidc_def Let_def)
  ultimately have "oidc_inv (\<lambda>_. True) (sso_oidc demo_sso)"
    unfolding demo_sso_def sso.simps
    using registrations.oper_inv [OF oidc_step.create] by blast
  moreover have "codes (sso_oidc demo_sso) = []" by code_simp
  ultimately show ?thesis
    using demo_store_inv by (simp add: sso_inv_def demo_env_def demo_sso_def device_inv_empty)
qed

definition demo_coded :: sso where
  "demo_coded = snd (op_completeAuthorize ''c1'' 1000 (Some demo_caller) demo_request demo_sso)"

definition demo_form :: form where
  "demo_form = [(''grant_type'', ''authorization_code''), (''code'', ''c1''), (''redirect_uri'', ''https://app/cb''),
     (''code_verifier'', ''pk''), (''client_id'', ''cli''), (''client_secret'', ''sec'')]"



definition demo_granted :: sso where
  "demo_granted = snd (codeGrant demo_env 2000 ''r1'' ''fam'' None demo_form demo_coded)"




subsection \<open>What the endpoints let happen\<close>

text \<open>
  The refresh grant rotates before it looks at the primary URL: without one the client is told of
  a server error, the successor is lost, and its retry is read as theft.
\<close>

lemma refresh_without_primary_url_spends:
  "let b = [(''refresh_token'', ''r1''), (''client_id'', ''cli''), (''client_secret'', ''sec'')];
       w = demo_granted\<lparr>sso_primaryUrl := None\<rparr>;
       w1 = snd (refreshGrant demo_env 3000 ''r2'' None b w);
       w2 = snd (refreshGrant demo_env 3001 ''r3'' None b (w1\<lparr>sso_primaryUrl := Some ''https://sc''\<rparr>))
   in fst (refreshGrant demo_env 3000 ''r2'' None b w) = Inl (500, ''server_error'')
    \<and> fst (refreshGrant demo_env 3001 ''r3'' None b (w1\<lparr>sso_primaryUrl := Some ''https://sc''\<rparr>)) = Inl (400, ''invalid_grant'')
    \<and> tokens (sso_refresh w2) = []"
  by code_simp

text \<open>The revocation endpoint does not ask whose token it is handed.\<close>

lemma any_client_revokes:
  assumes "clientCredentials env basic body = Some (cid, secret)"
    "verifyClientSecret (env_verify env) cid secret (sso_oidc w) = Some client"
    "get_field body ''token'' = Some t" "look (tokens (sso_refresh w)) (env_digest env t) = Some rec"
    "f_clientId rec \<noteq> oc_id client"
  shows "list_all (\<lambda>r. f_familyId r \<noteq> f_familyId rec) (vals (tokens (sso_refresh (snd (revoke_endpoint env basic body w)))))"
  using assms by (simp add: revoke_endpoint_def revoke_token_def revokeFamily_def list_all_iff)

text \<open>
  A password reset ends sessions and refresh chains, but a code already issued (like an approved
  device request) is still exchanged for tokens afterwards.
\<close>

lemma reset_leaves_pending_code:
  "case adminSetPassword (Some revokeForUser) ''new'' ''u1'' ''longenough2'' (sso_auth demo_coded, sso_refresh demo_coded) of
     (Inr _, a, r) \<Rightarrow>
       (case codeGrant demo_env 2000 ''r1'' ''fam'' None demo_form (demo_coded\<lparr>sso_auth := a, sso_refresh := r\<rparr>) of
          (Inr t, _) \<Rightarrow> tr_refresh_token t = Some ''r1''
        | _ \<Rightarrow> False)
   | _ \<Rightarrow> False"
  by code_simp

end
