(* ===== verification/Rpc.thy ===== *)
theory Rpc
  imports Auth_Api Client_Ip Cors Multipart Registry
begin

text \<open>
  The dispatcher of the API (\<open>apps/server/src/http/rpc.ts\<close>) with the two request readers of
  \<open>apps/server/src/index.ts\<close> it is handed: method, origin, command, session and permission are
  checked in this order before a byte of the body is read. Handlers are values of the table,
  over the control plane's state.
\<close>

subsection \<open>Requests and answers\<close>

text \<open>\<open>rq_header\<close> is \<open>headers.get\<close> on a lower-case name, \<open>rq_query\<close> is \<open>searchParams.get\<close>.\<close>

record request =
  rq_method :: string
  rq_path :: string
  rq_query :: "string \<Rightarrow> string option"
  rq_header :: "string \<Rightarrow> string option"
  rq_peer :: "string option"
  rq_body :: "bytes list option"

datatype rpc_error =
    UsePost
  | CrossOriginRefused
  | UnknownCommand string
  | Unauthorized
  | Forbidden
  | RequiresPermission permission
  | BadBody multipart_error
  | HandlerFailed string

datatype 'r body = ErrorBody rpc_error | ResultBody "'r option"

record 'r response =
  rp_status :: nat
  rp_headers :: "(string, string) jsmap"
  rp_body :: "'r body"

text \<open>A payload: nothing, a JSON value, or the object of a multipart call.\<close>

datatype 'v payload = NoData | JsonData 'v | Fields "(string, 'v field) jsmap"

type_synonym ('v, 'r, 'x) handler =
  "'v payload \<Rightarrow> AuthContext \<Rightarrow> 'v RpcMultipart option \<Rightarrow> 'x plane \<Rightarrow>
   (string + 'r option) \<times> 'v RpcMultipart option \<times> 'x plane"

record ('v, 'r, 'x) server =
  sv_table :: "(string, ('v, 'r, 'x) handler) jsmap"
  sv_allowedOrigins :: "string list"
  sv_trustedProxies :: "Cidr list"
  sv_forwardedHeader :: string
  sv_parseUrl :: url_parser
  sv_parseJson :: "bytes \<Rightarrow> 'v option"
  sv_parseMeta :: "bytes \<Rightarrow> 'v MultipartMeta option"

definition originAllowed :: "('v, 'r, 'x) server \<Rightarrow> request \<Rightarrow> bool" where
  "originAllowed sv req \<longleftrightarrow>
     (let forwarded = split_on (CHR '','') (case rq_header req ''x-forwarded-host'' of None \<Rightarrow> [] | Some h \<Rightarrow> h)
      in originAllowsRequest (sv_parseUrl sv) (rq_header req ''origin'')
           (rq_header req ''host'' # map Some forwarded) (sv_allowedOrigins sv))"

definition clientIp :: "('v, 'r, 'x) server \<Rightarrow> request \<Rightarrow> string option" where
  "clientIp sv req =
     (let header = headerForPeer (rq_peer req) (sv_trustedProxies sv) (sv_forwardedHeader sv)
      in resolveClientIp (rq_peer req) (rq_header req header) (sv_trustedProxies sv) header)"

subsection \<open>The gate\<close>

text \<open>\<open>/^Bearer\s+(.+)$/i\<close>; a header value holds no line break.\<close>

definition rpc_bearerToken :: "request \<Rightarrow> string option" where
  "rpc_bearerToken req =
     (case present (rq_header req ''authorization'') of None \<Rightarrow> None
      | Some h \<Rightarrow>
          if js_lower (take 6 h) = ''bearer'' \<and> (case drop 6 h of [] \<Rightarrow> False | c # _ \<Rightarrow> js_ws c)
          then (let rest = dropWhile js_ws (drop 6 h)
                in if rest \<noteq> [] then Some rest
                   else if length (drop 6 h) > 1 then Some [last h] else None)
          else None)"

definition isRpcPath :: "string \<Rightarrow> bool" where
  "isRpcPath path \<longleftrightarrow> path = API_PREFIX \<or> prefix (API_PREFIX @ ''/'') path"

definition authorize :: "string \<Rightarrow> UserInfo option \<Rightarrow> (nat \<times> rpc_error) + unit" where
  "authorize command user =
     (case OP_REQUIREMENTS command of
        None \<Rightarrow> Inl (403, Forbidden)
      | Some required \<Rightarrow>
          if required = ''public'' then Inr ()
          else (case user of
              None \<Rightarrow> Inl (401, Unauthorized)
            | Some u \<Rightarrow>
                if required \<noteq> ''authenticated'' \<and> \<not> userCan (Some u) required
                then Inl (403, RequiresPermission required)
                else Inr ()))"

definition UPLOAD_REQUEST_BYTES :: nat where
  "UPLOAD_REQUEST_BYTES = 8 * 1024 * 1024"

definition MAX_BINARY_REQUEST_BYTES :: nat where
  "MAX_BINARY_REQUEST_BYTES = UPLOAD_REQUEST_BYTES + 8 * 1024 * 1024"

subsection \<open>The dispatcher\<close>

definition fail_with :: "(string, string) jsmap \<Rightarrow> nat \<Rightarrow> rpc_error \<Rightarrow> 'r response" where
  "fail_with cors status e = \<lparr>rp_status = status, rp_headers = cors, rp_body = ErrorBody e\<rparr>"

text \<open>The body, once the caller is cleared: the payload and the parts still to arrive.\<close>

definition read_body :: "('v, 'r, 'x) server \<Rightarrow> request \<Rightarrow> multipart_error + 'v payload \<times> 'v RpcMultipart option" where
  "read_body sv req =
     (case multipartBoundary (rq_header req ''content-type'') of
        Some _ \<Rightarrow>
          (case parseRpcMultipart (sv_parseMeta sv) (rq_header req ''content-type'') (rq_body req)
                  (int MAX_BINARY_REQUEST_BYTES) of
             Inl e \<Rightarrow> Inl e
           | Inr m \<Rightarrow> Inr (Fields (rm_data m), Some m))
      | None \<Rightarrow>
          (case rq_body req of
             None \<Rightarrow> Inr (NoData, None)
           | Some chunks \<Rightarrow>
               (case sv_parseJson sv (concat chunks) of
                  None \<Rightarrow> Inr (NoData, None)
                | Some v \<Rightarrow> Inr (JsonData v, None))))"

text \<open>The answer, whether the unread rest of the body is cancelled, and the state.\<close>

definition run_handler :: "(string, string) jsmap \<Rightarrow> ('v, 'r, 'x) handler \<Rightarrow> 'v payload \<Rightarrow> AuthContext \<Rightarrow>
    'v RpcMultipart option \<Rightarrow> 'x plane \<Rightarrow> 'r response \<times> bool \<times> 'x plane" where
  "run_handler cors fn data ctx multipart w =
     (case fn data ctx multipart w of (outcome, multipart', w') \<Rightarrow>
        ((case outcome of
            Inr r \<Rightarrow> \<lparr>rp_status = 200, rp_headers = put ''Content-Type'' ''application/json'' cors,
                       rp_body = ResultBody r\<rparr>
          | Inl message \<Rightarrow> fail_with cors 500 (HandlerFailed message)),
         (case multipart' of None \<Rightarrow> False | Some m \<Rightarrow> drain_cancels m),
         w'))"

definition handleRpc :: "('v, 'r, 'x) server \<Rightarrow> ms \<Rightarrow> request \<Rightarrow> (string, string) jsmap \<Rightarrow> 'x plane \<Rightarrow>
    'r response \<times> bool \<times> 'x plane" where
  "handleRpc sv now req cors w =
     (if rq_method req \<noteq> ''POST'' then (fail_with cors 405 UsePost, False, w)
      else if \<not> originAllowed sv req then (fail_with cors 403 CrossOriginRefused, False, w)
      else (let command = drop (length API_PREFIX + 1) (rq_path req)
            in case look (sv_table sv) command of
                 None \<Rightarrow> (fail_with cors 404 (UnknownCommand command), False, w)
               | Some fn \<Rightarrow>
                   (let token = rpc_bearerToken req
                    in case authenticate now (pl_roles w) token (pl_auth w) of (user, st) \<Rightarrow>
                         (let w1 = w\<lparr>pl_auth := st\<rparr>
                          in case authorize command user of
                               Inl (status, e) \<Rightarrow> (fail_with cors status e, False, w1)
                             | Inr _ \<Rightarrow>
                                 (let ctx = \<lparr>ctx_token = token, ctx_user = user, ctx_ip = clientIp sv req,
                                        ctx_userAgent = rq_header req ''user-agent''\<rparr>
                                  in case read_body sv req of
                                       Inl e \<Rightarrow> (fail_with cors 400 (BadBody e), False, w1)
                                     | Inr (data, multipart) \<Rightarrow> run_handler cors fn data ctx multipart w1)))))"

subsection \<open>What gets past the gate\<close>

text \<open>The right to run an operation, as the registry states it.\<close>

definition may_run :: "string \<Rightarrow> UserInfo option \<Rightarrow> bool" where
  "may_run command user \<longleftrightarrow>
     command \<in> set PUBLIC_OPS
     \<or> (\<exists>u required. user = Some u \<and> OP_REQUIREMENTS command = Some required
          \<and> (required = ''authenticated'' \<or> isOwner u \<or> hasPermission (permissions u) required))"

lemma authorize_iff: "authorize command user = Inr () \<longleftrightarrow> may_run command user"
proof (cases "OP_REQUIREMENTS command")
  case None
  then have "command \<notin> set PUBLIC_OPS" using op_public_iff [of command] by auto
  with None show ?thesis by (simp add: authorize_def may_run_def)
next
  case (Some required)
  then show ?thesis
    using op_public_iff [of command]
    by (auto simp: authorize_def may_run_def userCan_def split: option.splits)
qed

lemma authorize_status: "authorize command user = Inl (status, e) \<Longrightarrow>
    status = 401 \<and> e = Unauthorized \<and> user = None \<or> status = 403"
  by (auto simp: authorize_def split: option.splits if_splits)

lemma run_handler_200:
  "run_handler cors fn data ctx multipart w = (resp, cancelled, w') \<Longrightarrow>
   (\<exists>outcome multipart'. fn data ctx multipart w = (outcome, multipart', w')
      \<and> (case outcome of Inr r \<Rightarrow> rp_status resp = 200 \<and> rp_body resp = ResultBody r
           | Inl m \<Rightarrow> rp_status resp = 500 \<and> rp_body resp = ErrorBody (HandlerFailed m)))"
  by (auto simp: run_handler_def fail_with_def split: prod.splits sum.splits)

text \<open>
  C1. The gate of the API. A request either reaches the handler that the dispatch table holds
  for the path, and then it is a POST of an allowed origin whose caller the session store
  authenticated and who may run that operation (a public operation, or a session with the
  operation's permission), and the handler is told this caller, token and address and its
  outcome is the answer; or it is answered with an error of the 4xx range, and nothing has
  changed but the session bookkeeping of the authentication.
\<close>

theorem rpc_gate:
  fixes w w' :: "'x plane" and resp :: "'r response" and sv :: "('v, 'r, 'x) server"
  assumes "handleRpc sv now req cors w = (resp, cancelled, w')"
  defines "command \<equiv> drop (length API_PREFIX + 1) (rq_path req)"
    and "session \<equiv> authenticate now (pl_roles w) (rpc_bearerToken req) (pl_auth w)"
  shows "(\<exists>fn data multipart outcome multipart'.
        rq_method req = ''POST'' \<and> originAllowed sv req \<and> look (sv_table sv) command = Some fn
        \<and> may_run command (fst session)
        \<and> fn data \<lparr>ctx_token = rpc_bearerToken req, ctx_user = fst session, ctx_ip = clientIp sv req,
                   ctx_userAgent = rq_header req ''user-agent''\<rparr>
             multipart (w\<lparr>pl_auth := snd session\<rparr>) = (outcome, multipart', w')
        \<and> (case outcome of Inr r \<Rightarrow> rp_status resp = 200 \<and> rp_body resp = ResultBody r
             | Inl m \<Rightarrow> rp_status resp = 500 \<and> rp_body resp = ErrorBody (HandlerFailed m)))
     \<or> (rp_status resp \<in> {400, 401, 403, 404, 405} \<and> (\<exists>e. rp_body resp = ErrorBody e)
        \<and> w' \<in> {w, w\<lparr>pl_auth := snd session\<rparr>})"
proof (cases "rq_method req = ''POST'' \<and> originAllowed sv req")
  case False
  then show ?thesis using assms by (auto simp: handleRpc_def fail_with_def split: if_splits)
next
  case True
  note pre = True
  obtain user st where s: "session = (user, st)" by fastforce
  then have auth: "authenticate now (pl_roles w) (rpc_bearerToken req) (pl_auth w) = (user, st)"
    by (simp add: session_def)
  show ?thesis
  proof (cases "look (sv_table sv) command")
    case None
    with pre assms(1) show ?thesis by (auto simp: handleRpc_def fail_with_def command_def)
  next
    case (Some fn)
    note eq = assms(1) [unfolded handleRpc_def Let_def auth, folded command_def]
    show ?thesis
    proof (cases "authorize command user")
      case (Inl se)
      then obtain status e where se: "authorize command user = Inl (status, e)" by (cases se) auto
      then have "resp = fail_with cors status e" "w' = w\<lparr>pl_auth := st\<rparr>"
        using eq pre Some se by simp_all
      then show ?thesis using authorize_status [OF se] s by (auto simp: fail_with_def)
    next
      case (Inr u)
      then have ok: "may_run command user" by (simp add: authorize_iff)
      show ?thesis
      proof (cases "read_body sv req")
        case (Inl e)
        then have "resp = fail_with cors 400 (BadBody e)" "w' = w\<lparr>pl_auth := st\<rparr>"
          using eq pre Some \<open>authorize command user = Inr u\<close> Inl by simp_all
        then show ?thesis using s by (simp add: fail_with_def)
      next
        case (Inr p)
        obtain data multipart where p: "p = (data, multipart)" by (cases p)
        have "run_handler cors fn data \<lparr>ctx_token = rpc_bearerToken req, ctx_user = user, ctx_ip = clientIp sv req,
            ctx_userAgent = rq_header req ''user-agent''\<rparr> multipart (w\<lparr>pl_auth := st\<rparr>) = (resp, cancelled, w')"
          using eq pre Some s \<open>authorize command user = Inr u\<close> Inr p by simp
        from run_handler_200 [OF this] obtain outcome multipart' where o: "fn data \<lparr>ctx_token = rpc_bearerToken req,
            ctx_user = user, ctx_ip = clientIp sv req, ctx_userAgent = rq_header req ''user-agent''\<rparr> multipart
            (w\<lparr>pl_auth := st\<rparr>) = (outcome, multipart', w')"
          "case outcome of Inr r \<Rightarrow> rp_status resp = 200 \<and> rp_body resp = ResultBody r
             | Inl m \<Rightarrow> rp_status resp = 500 \<and> rp_body resp = ErrorBody (HandlerFailed m)"
          by blast
        show ?thesis
          using pre Some ok s o by (intro disjI1 exI [of _ fn] exI [of _ data] exI [of _ multipart]
              exI [of _ outcome] exI [of _ multipart']) simp
      qed
    qed
  qed
qed

definition demo_server :: "(nat, nat, unit) server" where
  "demo_server = \<lparr>sv_table = [(''auth/getState'', \<lambda>data ctx multipart w. (Inr (Some 1), multipart, w))],
     sv_allowedOrigins = [], sv_trustedProxies = [], sv_forwardedHeader = ''x-forwarded-for'',
     sv_parseUrl = demo_url, sv_parseJson = (\<lambda>_. None), sv_parseMeta = (\<lambda>_. None)\<rparr>"

definition demo_request :: request where
  "demo_request = \<lparr>rq_method = ''POST'', rq_path = ''/api/auth/getState'', rq_query = (\<lambda>_. None),
     rq_header = (\<lambda>h. if h = ''host'' then Some ''sc.example'' else None), rq_peer = None, rq_body = None\<rparr>"

definition demo_plane :: "unit plane" where
  "demo_plane = fresh_plane ''d'' (\<lambda>_. ''x'') 0 ()"

theorem rpc_gate_witness:
  "may_run ''auth/getState''
     (fst (authenticate 0 (pl_roles demo_plane) (rpc_bearerToken demo_request) (pl_auth demo_plane)))"
proof -
  obtain resp cancelled w' where r: "handleRpc demo_server 0 demo_request [] demo_plane = (resp, cancelled, w')"
    by (metis surj_pair)
  have "''auth/getState'' \<in> set PUBLIC_OPS" by code_simp
  then have "authorize ''auth/getState'' user = Inr ()" for user by (simp add: authorize_iff may_run_def)
  moreover have "originAllowed demo_server demo_request" by code_simp
  moreover have command: "drop (length API_PREFIX + 1) (rq_path demo_request) = ''auth/getState''" by code_simp
  moreover have "read_body demo_server demo_request = Inr (NoData, None)" by code_simp
  ultimately have "rp_status resp = 200"
    using r by (auto simp: handleRpc_def Let_def run_handler_def demo_server_def demo_request_def
        split: prod.splits)
  moreover note command
  ultimately show ?thesis using rpc_gate [OF r] by auto
qed

end
