(* ===== verification/Tasks.thy ===== *)
theory Tasks
  imports Protocol
begin

text \<open>
  Task runs (\<open>apps/server/src/tasks/store.ts\<close>, \<open>runner.ts\<close>, \<open>types.ts\<close>, the self-update resolver of
  \<open>server-install.ts\<close> and the task file of \<open>config.ts\<close>): the capped history with its file, the life
  of a run from \<open>pending\<close> to its end, the log buffers and the events sent on the way.

  The runner and the store share one mutable object per run. Every mutation of it is followed by
  a save before the next \<open>await\<close>, so the store's copy and the runner's are kept as two values that
  a save makes equal. What a handler does is the outcome it ends with, an argument of the step.
\<close>

subsection \<open>The history\<close>

record task_store =
  runs :: "(string, TaskRun) jsmap"
  runs_file :: "TaskRun list option"

definition MAX_RUNS :: nat where
  "MAX_RUNS = 200"

text \<open>A verdict on a run another process left open: an error, or the result it succeeded with.\<close>

type_synonym OrphanResolver = "TaskRun \<Rightarrow> (string + TaskResult) option"

definition run_open :: "TaskRun \<Rightarrow> bool" where
  "run_open r \<longleftrightarrow> run_status r = Pending \<or> run_status r = Running"

definition persist_runs :: "task_store \<Rightarrow> task_store" where
  "persist_runs st = st\<lparr>runs_file := Some (vals (runs st))\<rparr>"

definition reap_run :: "OrphanResolver \<Rightarrow> ms \<Rightarrow> TaskRun \<Rightarrow> TaskRun" where
  "reap_run resolveOrphan now run =
     (case resolveOrphan run of
        Some (Inr result) \<Rightarrow>
          run\<lparr>run_status := Succeeded, run_result := Some result, run_finishedAt := Some now\<rparr>
      | verdict \<Rightarrow>
          run\<lparr>run_status := Failed,
              run_error := Some (case verdict of Some (Inl e) \<Rightarrow> e
                | _ \<Rightarrow> ''Interrupted by a control-plane restart; the outcome is unknown.''),
              run_finishedAt := Some now\<rparr>)"

definition reapOrphans :: "OrphanResolver \<Rightarrow> ms \<Rightarrow> task_store \<Rightarrow> task_store" where
  "reapOrphans resolveOrphan now st =
     (if list_ex run_open (vals (runs st))
      then persist_runs (st\<lparr>runs := map (\<lambda>(k, r). (k, if run_open r then reap_run resolveOrphan now r else r))
             (runs st)\<rparr>)
      else st)"

definition readTaskState :: "TaskRun list option \<Rightarrow> TaskRun list" where
  "readTaskState f = (case f of None \<Rightarrow> [] | Some rs \<Rightarrow> rs)"

definition init_tasks :: "OrphanResolver \<Rightarrow> ms \<Rightarrow> TaskRun list option \<Rightarrow> task_store" where
  "init_tasks resolveOrphan now file =
     reapOrphans resolveOrphan now
       \<lparr>runs = foldl (\<lambda>m r. put (run_id r) r m) [] (readTaskState file), runs_file = file\<rparr>"

text \<open>Dropping the oldest run, the first key, while there are too many.\<close>

function prune_runs :: "(string, TaskRun) jsmap \<Rightarrow> (string, TaskRun) jsmap" where
  "prune_runs m = (if length m > MAX_RUNS then prune_runs (del (fst (hd m)) m) else m)"
  by pat_completeness auto
termination
proof (relation "measure length")
  fix m :: "(string, TaskRun) jsmap"
  assume "MAX_RUNS < length m"
  then obtain p m' where "m = p # m'" by (cases m) auto
  then show "(del (fst (hd m)) m, m) \<in> measure length"
    using length_delete_le [of "fst p" m'] by (cases p) (simp add: less_Suc_eq_le)
qed simp

declare prune_runs.simps [simp del]

definition put_run :: "TaskRun \<Rightarrow> task_store \<Rightarrow> task_store" where
  "put_run run st = persist_runs (st\<lparr>runs := prune_runs (put (run_id run) run (runs st))\<rparr>)"

definition get_run :: "string \<Rightarrow> task_store \<Rightarrow> TaskRun option" where
  "get_run i st = look (runs st) i"

text \<open>
  \<open>list\<close>: the filter leaves the target open, asks for a host, or for the control plane itself
  (\<open>Some None\<close>); a limit of zero is none, and a negative one cuts at the other end, as
  \<open>slice(0, limit)\<close> does.
\<close>

definition list_runs :: "string option option \<Rightarrow> string option \<Rightarrow> int option \<Rightarrow> task_store \<Rightarrow> TaskRun list" where
  "list_runs target knd limit st =
     (let out = sort_key (\<lambda>r. - run_createdAt r) (vals (runs st));
          out1 = (case target of None \<Rightarrow> out | Some t \<Rightarrow> filter (\<lambda>r. run_target r = t) out);
          out2 = (case knd of None \<Rightarrow> out1 | Some k \<Rightarrow> filter (\<lambda>r. kind (run_spec r) = k) out1)
      in case limit of
           None \<Rightarrow> out2
         | Some n \<Rightarrow> if n = 0 then out2
                     else if n > 0 then take (nat n) out2
                     else take (length out2 - nat (- n)) out2)"

subsection \<open>Settling a self-update\<close>

record PendingUpdate =
  pu_runId :: string
  pu_version :: string

definition interruptedUpdateResolver :: "string \<Rightarrow> PendingUpdate option \<Rightarrow> OrphanResolver" where
  "interruptedUpdateResolver agent_version pending run =
     (case pending of
        None \<Rightarrow> None
      | Some p \<Rightarrow>
          if kind (run_spec run) \<noteq> ''update_control_plane'' \<or> run_id run \<noteq> pu_runId p then None
          else if pu_version p \<noteq> agent_version
            then Some (Inl (''Restarted on '' @ agent_version @ '', expected '' @ pu_version p))
          else Some (Inr (TaskUpdateControlPlaneResult agent_version)))"

text \<open>The marker file: read and removed, whatever it holds.\<close>

definition takePendingUpdate :: "PendingUpdate option \<Rightarrow> PendingUpdate option \<times> PendingUpdate option" where
  "takePendingUpdate file = (file, None)"

definition writePendingUpdate :: "PendingUpdate \<Rightarrow> PendingUpdate option \<Rightarrow> PendingUpdate option" where
  "writePendingUpdate p file = Some p"

subsection \<open>The runner\<close>

datatype TaskEvent = TaskUpdate TaskRun | TaskLog string TaskLogLine

record task_system =
  store :: task_store
  flight :: "(string, TaskRun) jsmap"
  logs :: "(string, TaskLogLine list) jsmap"
  sent :: "TaskEvent list"

definition MAX_LOG_LINES :: nat where
  "MAX_LOG_LINES = 2000"

definition getLogs :: "string \<Rightarrow> task_system \<Rightarrow> TaskLogLine list" where
  "getLogs i w = (case look (logs w) i of None \<Rightarrow> [] | Some b \<Rightarrow> b)"

definition save_run :: "TaskRun \<Rightarrow> task_system \<Rightarrow> task_system" where
  "save_run run w = w\<lparr>store := put_run run (store w), sent := sent w @ [TaskUpdate run]\<rparr>"

definition start_run :: "string \<Rightarrow> TaskSpec \<Rightarrow> string option \<Rightarrow> TaskTrigger \<Rightarrow> ms \<Rightarrow> task_system \<Rightarrow>
    TaskRun \<times> task_system" where
  "start_run i spec target trigger now w =
     (let run = \<lparr>run_id = i, run_spec = spec, run_target = target, run_status = Pending,
                 run_result = None, run_error = None, run_trigger = trigger, run_createdAt = now,
                 run_startedAt = None, run_finishedAt = None\<rparr>
      in (run, (save_run run w)\<lparr>flight := put i run (flight w)\<rparr>))"

text \<open>\<open>execute\<close> up to the handler, a line logged by it, and the \<open>finally\<close> behind it.\<close>

definition execute_begin :: "TaskRun \<Rightarrow> ms \<Rightarrow> task_system \<Rightarrow> task_system" where
  "execute_begin run now w =
     (let run' = run\<lparr>run_status := Running, run_startedAt := Some now\<rparr>
      in (save_run run' w)\<lparr>flight := put (run_id run) run' (flight w)\<rparr>)"

definition log_line :: "string \<Rightarrow> string \<Rightarrow> string option \<Rightarrow> ms \<Rightarrow> task_system \<Rightarrow> task_system" where
  "log_line i text stream now w =
     (let line = \<lparr>log_ts = now, log_text = text, log_stream = stream\<rparr>;
          buf = getLogs i w @ [line];
          buf' = (if length buf > MAX_LOG_LINES then drop (length buf - MAX_LOG_LINES) buf else buf)
      in w\<lparr>logs := put i buf' (logs w), sent := sent w @ [TaskLog i line]\<rparr>)"

definition execute_end :: "TaskRun \<Rightarrow> string + TaskResult \<Rightarrow> ms \<Rightarrow> task_system \<Rightarrow> task_system" where
  "execute_end run outcome now w =
     (let run' = (case outcome of
            Inr result \<Rightarrow> run\<lparr>run_result := Some result, run_status := Succeeded, run_finishedAt := Some now\<rparr>
          | Inl e \<Rightarrow> run\<lparr>run_status := Failed, run_error := Some e, run_finishedAt := Some now\<rparr>)
      in (save_run run' w)\<lparr>flight := del (run_id run) (flight w)\<rparr>)"

text \<open>
  The body of the \<open>try\<close>: the target host is looked up, and the spec goes to the handler of its
  kind. The fleet lookup and the handlers are arguments.
\<close>

definition requireAgent :: "'agent option \<Rightarrow> string \<Rightarrow> string + 'agent" where
  "requireAgent agent knd =
     (case agent of None \<Rightarrow> Inl (knd @ '' requires a target host'') | Some a \<Rightarrow> Inr a)"

definition runTaskSpec :: "(string \<Rightarrow> TaskSpec \<Rightarrow> 'agent option \<Rightarrow> string + TaskResult) \<Rightarrow> TaskSpec \<Rightarrow>
    'agent option \<Rightarrow> string + TaskResult" where
  "runTaskSpec handlers spec agent = handlers (kind spec) spec agent"

definition run_outcome :: "(string \<Rightarrow> string + 'agent) \<Rightarrow>
    (string \<Rightarrow> TaskSpec \<Rightarrow> 'agent option \<Rightarrow> string + TaskResult) \<Rightarrow> TaskRun \<Rightarrow> string + TaskResult" where
  "run_outcome fleet_get handlers run =
     (case run_target run of
        None \<Rightarrow> runTaskSpec handlers (run_spec run) None
      | Some t \<Rightarrow> (case fleet_get t of
            Inl e \<Rightarrow> Inl e
          | Inr a \<Rightarrow> runTaskSpec handlers (run_spec run) (Some a)))"

text \<open>A new process: the history is read back and what was open is settled; the rest is gone.\<close>

definition restart_tasks :: "string \<Rightarrow> PendingUpdate option \<Rightarrow> ms \<Rightarrow> task_system \<Rightarrow> task_system" where
  "restart_tasks agent_version pending now w =
     \<lparr>store = init_tasks (interruptedUpdateResolver agent_version pending) now (runs_file (store w)),
      flight = [], logs = [], sent = []\<rparr>"

subsection \<open>Histories\<close>

text \<open>The ids in use; a new run gets a random one outside them.\<close>

definition sent_ids :: "TaskEvent list \<Rightarrow> string set" where
  "sent_ids es = {run_id r | r. TaskUpdate r \<in> set es}"

definition ids_in_use :: "task_system \<Rightarrow> string set" where
  "ids_in_use w = set (keys (runs (store w))) \<union> set (keys (flight w)) \<union> sent_ids (sent w)"

text \<open>
  One step of the task system. A handler's result is of its spec's kind, which the types of the
  handler map state.
\<close>

inductive task_step :: "task_system \<Rightarrow> task_system \<Rightarrow> bool" where
  start: "i \<notin> ids_in_use w \<Longrightarrow> task_step w (snd (start_run i spec target trigger now w))"
| begin_run: "look (flight w) i = Some run \<Longrightarrow> run_status run = Pending \<Longrightarrow>
    task_step w (execute_begin run now w)"
| log: "look (flight w) i = Some run \<Longrightarrow> run_status run = Running \<Longrightarrow>
    task_step w (log_line i text stream now w)"
| end_run: "look (flight w) i = Some run \<Longrightarrow> run_status run = Running \<Longrightarrow>
    (\<And>r. outcome = Inr r \<Longrightarrow> result_kind r = kind (run_spec run)) \<Longrightarrow>
    task_step w (execute_end run outcome now w)"
| restart: "task_step w (restart_tasks agent_version pending now w)"

definition no_tasks :: task_system where
  "no_tasks = \<lparr>store = init_tasks (\<lambda>_. None) 0 None, flight = [], logs = [], sent = []\<rparr>"

subsection \<open>The cap\<close>

lemma del_hd: "unique_keys (p # m) \<Longrightarrow> del (fst p) (p # m) = m"
  using del_split [of "fst p" "[]" m "snd p"] by (cases p) simp

lemma prune_runs_drop: "unique_keys m \<Longrightarrow> prune_runs m = drop (length m - MAX_RUNS) m"
proof (induction m rule: prune_runs.induct)
  case (1 m)
  show ?case
  proof (cases "length m > MAX_RUNS")
    case True
    then obtain p m' where m: "m = p # m'" by (cases m) auto
    have d: "del (fst (hd m)) m = m'" using del_hd [of p m'] 1 by (simp only: m list.sel)
    have "unique_keys m'" using "1.prems" by (simp add: m)
    then have "prune_runs m' = drop (length m' - MAX_RUNS) m'" using "1.IH" [OF True] by (simp only: d)
    moreover have "prune_runs m = prune_runs m'" using True by (subst prune_runs.simps) (simp only: d if_True)
    moreover have "length m - MAX_RUNS = Suc (length m' - MAX_RUNS)" using True by (simp add: m)
    ultimately show ?thesis by (simp only: m drop_Suc_Cons)
  next
    case False
    then show ?thesis by (subst prune_runs.simps) simp
  qed
qed

lemma length_prune_runs: "unique_keys m \<Longrightarrow> length (prune_runs m) \<le> MAX_RUNS"
  by (simp add: prune_runs_drop)

lemma set_prune_runs: "unique_keys m \<Longrightarrow> set (prune_runs m) \<subseteq> set m"
  by (auto simp: prune_runs_drop dest: in_set_dropD)

lemma unique_keys_drop: "unique_keys m \<Longrightarrow> unique_keys (drop n m)"
  by (simp only: drop_map [symmetric] distinct_drop)

lemma unique_keys_prune [simp]: "unique_keys m \<Longrightarrow> unique_keys (prune_runs m)"
  by (simp add: prune_runs_drop unique_keys_drop)

lemma look_prune: "unique_keys m \<Longrightarrow> look (prune_runs m) k = Some r \<Longrightarrow> look m k = Some r"
  by (rule map_of_is_SomeI) (blast dest: map_of_SomeD set_prune_runs [THEN subsetD])+

lemma each_prune: "each P m \<Longrightarrow> each P (prune_runs m)"
  using set_prune_runs [of m] unique_keys_prune [of m] by (auto simp: each_def)

subsection \<open>The invariant\<close>

text \<open>The fields of a run agree with its status.\<close>

definition run_ok :: "string \<Rightarrow> TaskRun \<Rightarrow> bool" where
  "run_ok i r \<longleftrightarrow> run_id r = i \<and>
     (case run_status r of
        Pending \<Rightarrow> run_startedAt r = None \<and> run_finishedAt r = None \<and> run_result r = None \<and> run_error r = None
      | Running \<Rightarrow> run_startedAt r \<noteq> None \<and> run_finishedAt r = None \<and> run_result r = None \<and> run_error r = None
      | Succeeded \<Rightarrow> run_finishedAt r \<noteq> None \<and> run_error r = None
          \<and> (\<exists>res. run_result r = Some res \<and> result_kind res = kind (run_spec r))
      | Failed \<Rightarrow> run_finishedAt r \<noteq> None \<and> run_error r \<noteq> None \<and> run_result r = None
      | Cancelled \<Rightarrow> False)"

definition store_ok :: "task_store \<Rightarrow> bool" where
  "store_ok st \<longleftrightarrow> each run_ok (runs st) \<and> length (runs st) \<le> MAX_RUNS
     \<and> readTaskState (runs_file st) = vals (runs st)"

text \<open>The states of a run a client is sent, in order.\<close>

definition updates :: "string \<Rightarrow> TaskEvent list \<Rightarrow> TaskStatus list" where
  "updates i es = concat (map (\<lambda>e. case e of TaskUpdate r \<Rightarrow> if run_id r = i then [run_status r] else []
                                    | TaskLog _ _ \<Rightarrow> []) es)"

fun expected :: "TaskRun option \<Rightarrow> TaskStatus list set" where
  "expected (Some r) = {if run_status r = Pending then [Pending] else [Pending, Running]}"
| "expected None = {[], [Pending, Running, Succeeded], [Pending, Running, Failed]}"

definition told :: "string \<Rightarrow> task_system \<Rightarrow> bool" where
  "told i w \<longleftrightarrow> updates i (sent w) \<in> expected (look (flight w) i)"

definition tasks_inv :: "task_system \<Rightarrow> bool" where
  "tasks_inv w \<longleftrightarrow> store_ok (store w)
     \<and> each (\<lambda>i r. run_ok i r \<and> run_open r) (flight w)
     \<and> (\<forall>i r. look (runs (store w)) i = Some r \<and> run_open r \<longrightarrow> look (flight w) i = Some r)
     \<and> (\<forall>i b. look (logs w) i = Some b \<longrightarrow> length b \<le> MAX_LOG_LINES)
     \<and> (\<forall>i. told i w)"

lemma updates_snoc [simp]:
  "updates i (es @ [TaskUpdate r]) = updates i es @ (if run_id r = i then [run_status r] else [])"
  "updates i (es @ [TaskLog j l]) = updates i es"
  by (simp_all add: updates_def)

lemma updates_Nil [simp]: "updates i [] = []"
  by (simp add: updates_def)

lemma updates_fresh: "i \<notin> sent_ids es \<Longrightarrow> updates i es = []"
  by (auto simp: updates_def sent_ids_def split: TaskEvent.splits)

lemma store_ok_put:
  "store_ok st \<Longrightarrow> run_ok (run_id r) r \<Longrightarrow> store_ok (put_run r st)"
  by (auto simp: store_ok_def put_run_def persist_runs_def readTaskState_def
      intro!: each_prune length_prune_runs dest: each_keys)

lemma look_put_run:
  "store_ok st \<Longrightarrow> look (runs (put_run r st)) i = Some q \<Longrightarrow>
   if i = run_id r then q = r else look (runs st) i = Some q"
  using look_prune [of "put (run_id r) r (runs st)" i q]
  by (auto simp: put_run_def persist_runs_def store_ok_def each_def split: if_splits)

text \<open>Saving a run that the flight table then agrees with.\<close>

lemma inv_save:
  assumes "tasks_inv w" "run_ok (run_id r) r"
    and "run_open r \<Longrightarrow> fl = put (run_id r) r (flight w)"
    and "\<not> run_open r \<Longrightarrow> fl = del (run_id r) (flight w)"
    and "told (run_id r) ((save_run r w)\<lparr>flight := fl\<rparr>)"
  shows "tasks_inv ((save_run r w)\<lparr>flight := fl\<rparr>)"
proof -
  have st: "store_ok (store w)" and fl: "each (\<lambda>i r. run_ok i r \<and> run_open r) (flight w)"
    and old: "look (runs (store w)) i = Some q \<Longrightarrow> run_open q \<Longrightarrow> look (flight w) i = Some q" for i q
    using assms(1) by (auto simp: tasks_inv_def)
  have look: "look fl i = (if i = run_id r then (if run_open r then Some r else None) else look (flight w) i)" for i
    using assms(3,4) by (cases "run_open r") auto
  have "each (\<lambda>i r. run_ok i r \<and> run_open r) fl"
    using fl assms(2,3,4) by (cases "run_open r") auto
  moreover have "look (runs (put_run r (store w))) i = Some q \<Longrightarrow> run_open q \<Longrightarrow> look fl i = Some q" for i q
    using look_put_run [OF st, of r i q] old by (auto simp: look split: if_splits)
  moreover have "told i ((save_run r w)\<lparr>flight := fl\<rparr>)" for i
  proof (cases "i = run_id r")
    case False
    moreover have "told i w" using assms(1) by (simp add: tasks_inv_def)
    ultimately show ?thesis by (simp add: told_def save_run_def look)
  qed (simp add: assms(5))
  ultimately show ?thesis
    using assms(1) store_ok_put [OF st assms(2)] by (auto simp: tasks_inv_def save_run_def)
qed

lemma inv_start:
  assumes "tasks_inv w" "i \<notin> ids_in_use w"
  shows "tasks_inv (snd (start_run i spec target trigger now w))"
proof -
  have "updates i (sent w) = []" using assms(2) by (intro updates_fresh) (simp add: ids_in_use_def)
  then show ?thesis
    unfolding start_run_def Let_def snd_conv
    by (intro inv_save assms) (auto simp: run_ok_def run_open_def told_def save_run_def)
qed

lemma flight_run:
  "tasks_inv w \<Longrightarrow> look (flight w) i = Some run \<Longrightarrow> run_ok i run \<and> run_open run \<and> run_id run = i"
  using each_look [of "\<lambda>i r. run_ok i r \<and> run_open r" "flight w" i run]
  by (auto simp: tasks_inv_def run_ok_def)

lemma inv_begin:
  assumes "tasks_inv w" "look (flight w) i = Some run" "run_status run = Pending"
  shows "tasks_inv (execute_begin run now w)"
proof -
  note r = flight_run [OF assms(1,2)]
  have "told i w" using assms(1) by (simp add: tasks_inv_def)
  with r assms show ?thesis
    unfolding execute_begin_def Let_def
    by (intro inv_save [of w "run\<lparr>run_status := Running, run_startedAt := Some now\<rparr>" "put (run_id run) _ _", simplified])
       (auto simp: run_ok_def run_open_def told_def save_run_def)
qed

lemma inv_log:
  assumes "tasks_inv w"
  shows "tasks_inv (log_line i text stream now w)"
  using assms by (auto simp: tasks_inv_def log_line_def Let_def told_def split: option.splits)

lemma inv_end:
  assumes "tasks_inv w" "look (flight w) i = Some run" "run_status run = Running"
    and "\<And>r. outcome = Inr r \<Longrightarrow> result_kind r = kind (run_spec run)"
  shows "tasks_inv (execute_end run outcome now w)"
proof -
  note r = flight_run [OF assms(1,2)]
  have t: "told i w" using assms(1) by (simp add: tasks_inv_def)
  show ?thesis
  proof (cases outcome)
    case (Inl e)
    let ?r = "run\<lparr>run_status := Failed, run_error := Some e, run_finishedAt := Some now\<rparr>"
    have "tasks_inv ((save_run ?r w)\<lparr>flight := del (run_id run) (flight w)\<rparr>)"
      using r t assms by (intro inv_save) (auto simp: run_ok_def run_open_def told_def save_run_def)
    then show ?thesis by (simp add: execute_end_def Inl)
  next
    case (Inr res)
    let ?r = "run\<lparr>run_result := Some res, run_status := Succeeded, run_finishedAt := Some now\<rparr>"
    have "tasks_inv ((save_run ?r w)\<lparr>flight := del (run_id run) (flight w)\<rparr>)"
      using r t assms Inr by (intro inv_save) (auto simp: run_ok_def run_open_def told_def save_run_def)
    then show ?thesis by (simp add: execute_end_def Inr)
  qed
qed

text \<open>Reading the file back rebuilds the map in its order.\<close>

lemma read_back:
  "unique_keys (acc @ m) \<Longrightarrow> \<forall>(k, r) \<in> set m. run_id r = k \<Longrightarrow>
   foldl (\<lambda>m r. put (run_id r) r m) acc (vals m) = acc @ m"
proof (induction m arbitrary: acc)
  case (Cons p m)
  obtain k r where p: "p = (k, r)" by (cases p)
  with Cons.prems have "look acc k = None" "run_id r = k" by (auto simp: map_of_eq_None_iff)
  with Cons.IH [of "acc @ [(k, r)]"] Cons.prems p show ?case by (simp add: put_fresh)
qed simp

lemma reap_run_ok:
  "run_ok i r \<Longrightarrow> run_open r \<Longrightarrow> run_ok i (reap_run (interruptedUpdateResolver v p) now r)
    \<and> \<not> run_open (reap_run (interruptedUpdateResolver v p) now r)"
  by (auto simp: reap_run_def interruptedUpdateResolver_def run_ok_def run_open_def
      split: option.splits sum.splits if_splits)

definition settled :: "OrphanResolver \<Rightarrow> ms \<Rightarrow> TaskRun \<Rightarrow> TaskRun" where
  "settled resolveOrphan now r = (if run_open r then reap_run resolveOrphan now r else r)"

lemma init_tasks_runs:
  assumes "store_ok st"
  shows "runs (init_tasks resolver now (runs_file st)) = map (\<lambda>(k, r). (k, settled resolver now r)) (runs st)
    \<and> readTaskState (runs_file (init_tasks resolver now (runs_file st)))
        = vals (runs (init_tasks resolver now (runs_file st)))"
proof -
  have u: "unique_keys (runs st)" and ids: "\<forall>(k, r) \<in> set (runs st). run_id r = k"
    and f: "readTaskState (runs_file st) = vals (runs st)"
    using assms by (auto simp: store_ok_def each_def run_ok_def)
  have fold: "foldl (\<lambda>m r. put (run_id r) r m) [] (readTaskState (runs_file st)) = runs st"
    unfolding f using read_back [of "[]" "runs st"] u ids by simp
  have same: "map (\<lambda>(k, r). (k, settled resolver now r)) m = m" if "\<not> list_ex run_open (vals m)" for m :: "(string, TaskRun) jsmap"
    using that by (induction m) (auto simp: settled_def)
  have init: "init_tasks resolver now (runs_file st)
      = reapOrphans resolver now \<lparr>runs = runs st, runs_file = runs_file st\<rparr>"
    by (simp only: init_tasks_def fold)
  show ?thesis
    unfolding init using same [of "runs st"] f
    by (cases "list_ex run_open (vals (runs st))")
       (simp_all add: reapOrphans_def persist_runs_def readTaskState_def settled_def)
qed

lemma inv_restart:
  assumes "tasks_inv w"
  shows "tasks_inv (restart_tasks v p now w)
    \<and> list_all (\<lambda>r. \<not> run_open r) (vals (runs (store (restart_tasks v p now w))))"
proof -
  let ?res = "interruptedUpdateResolver v p"
  have st: "store_ok (store w)" using assms by (simp add: tasks_inv_def)
  note rs = init_tasks_runs [OF st, of ?res now]
  have ok: "run_ok k (settled ?res now r) \<and> \<not> run_open (settled ?res now r)" if "(k, r) \<in> set (runs (store w))" for k r
    using that st reap_run_ok by (auto simp: store_ok_def each_def settled_def)
  have "store_ok (init_tasks ?res now (runs_file (store w)))"
    using st rs ok by (auto simp: store_ok_def each_def comp_def case_prod_unfold)
  moreover have closed: "list_all (\<lambda>r. \<not> run_open r) (vals (runs (init_tasks ?res now (runs_file (store w)))))"
    using rs ok by (auto simp: list_all_iff)
  then have "\<not> (look (runs (init_tasks ?res now (runs_file (store w)))) i = Some r \<and> run_open r)" for i r
    by (force simp: list_all_iff dest: map_of_SomeD)
  ultimately show ?thesis using closed by (simp add: tasks_inv_def restart_tasks_def told_def)
qed

lemma inv_step: "task_step w w' \<Longrightarrow> tasks_inv w \<Longrightarrow> tasks_inv w'"
proof (induction rule: task_step.induct)
  case (end_run w i run outcome now)
  then show ?case by (intro inv_end) auto
qed (auto intro: inv_start inv_begin inv_log inv_restart [THEN conjunct1])

interpretation task_history: invariant_store tasks_inv task_step
  by unfold_locales (rule inv_step)

lemma inv_no_tasks: "tasks_inv no_tasks"
  by (simp add: tasks_inv_def no_tasks_def init_tasks_def reapOrphans_def store_ok_def readTaskState_def told_def)

interpretation task_file: persisted_store "\<lambda>w. vals (runs (store w))" "\<lambda>w. readTaskState (runs_file (store w))"
    "\<lambda>w w'. task_step w w' \<and> tasks_inv w"
  by unfold_locales (use inv_step in \<open>auto simp: tasks_inv_def store_ok_def\<close>)

text \<open>
  C29. The run history. In every state the task system can reach, at most 200 runs are kept, each
  under its own id with the fields its status calls for (a result of the spec's kind exactly
  where it succeeded, an error where it failed); the file holds the same runs in the same order;
  a run that is shown as pending or running is one this process is executing; and a restart
  settles every run it finds open.
\<close>

theorem run_history_consistent:
  assumes "task_step\<^sup>*\<^sup>* no_tasks w"
  shows "length (runs (store w)) \<le> 200
    \<and> (\<forall>i r. look (runs (store w)) i = Some r \<longrightarrow>
         run_id r = i
       \<and> (run_status r = Succeeded \<longleftrightarrow> run_result r \<noteq> None)
       \<and> (\<forall>res. run_result r = Some res \<longrightarrow> result_kind res = kind (run_spec r))
       \<and> (run_status r = Failed \<longleftrightarrow> run_error r \<noteq> None)
       \<and> (run_open r \<longrightarrow> look (flight w) i = Some r))
    \<and> readTaskState (runs_file (store w)) = vals (runs (store w))
    \<and> list_all (\<lambda>r. \<not> run_open r) (vals (runs (store (restart_tasks version pending now w))))"
proof -
  have inv: "tasks_inv w" by (rule task_history.run_inv [OF assms inv_no_tasks])
  then have "each run_ok (runs (store w))" by (simp add: tasks_inv_def store_ok_def)
  then have "look (runs (store w)) i = Some r \<Longrightarrow> run_ok i r" for i r by (rule each_look)
  then have "look (runs (store w)) i = Some r \<Longrightarrow> run_id r = i
       \<and> (run_status r = Succeeded \<longleftrightarrow> run_result r \<noteq> None)
       \<and> (\<forall>res. run_result r = Some res \<longrightarrow> result_kind res = kind (run_spec r))
       \<and> (run_status r = Failed \<longleftrightarrow> run_error r \<noteq> None)" for i r
    by (fastforce simp: run_ok_def split: TaskStatus.splits)
  then show ?thesis using inv inv_restart [OF inv]
    by (simp add: tasks_inv_def store_ok_def MAX_RUNS_def)
qed

lemma demo_start: "task_step no_tasks (snd (start_run ''t1'' TaskFindWanIp None System 5 no_tasks))"
  by (rule task_step.start)
     (simp add: ids_in_use_def sent_ids_def no_tasks_def init_tasks_def reapOrphans_def readTaskState_def)

lemma demo_reach: "task_step\<^sup>*\<^sup>* no_tasks (snd (start_run ''t1'' TaskFindWanIp None System 5 no_tasks))"
  using demo_start by (rule r_into_rtranclp)

lemma demo_flight:
  "\<exists>r. look (flight (snd (start_run ''t1'' TaskFindWanIp None System 5 no_tasks))) ''t1'' = Some r
     \<and> run_status r = Pending"
  by (simp add: start_run_def Let_def)

theorem run_history_consistent_witness:
  "length (runs (store (snd (start_run ''t1'' TaskFindWanIp None System 5 no_tasks)))) \<le> 200"
  using run_history_consistent [OF demo_reach] by blast



text \<open>
  C30. Every run ends. Whatever a run in flight is at and however its handler ends, its remaining
  steps are possible at once and leave it in the history with its final status, also when newer
  runs had pushed it out in the meantime.
\<close>

theorem runs_end:
  fixes outcome :: "string + TaskResult"
  assumes "task_step\<^sup>*\<^sup>* no_tasks w" "look (flight w) i = Some run"
    and "\<And>r. outcome = Inr r \<Longrightarrow> result_kind r = kind (run_spec run)"
  shows "\<exists>w' r. task_step\<^sup>*\<^sup>* w w' \<and> look (runs (store w')) i = Some r \<and> look (flight w') i = None
    \<and> run_status r = (case outcome of Inl _ \<Rightarrow> Failed | Inr _ \<Rightarrow> Succeeded)
    \<and> run_spec r = run_spec run"
proof -
  have inv: "tasks_inv w" by (rule task_history.run_inv [OF assms(1) inv_no_tasks])
  have kept: "look (runs (put_run r st)) (run_id r) = Some r" if "store_ok st" for r st
  proof -
    let ?m = "put (run_id r) r (runs st)"
    have u: "unique_keys ?m" and l: "length (runs st) \<le> MAX_RUNS"
      using that by (auto simp: store_ok_def each_def)
    show ?thesis
    proof (cases "look (runs st) (run_id r)")
      case None
      then have "?m = runs st @ [(run_id r, r)]" by (rule put_fresh)
      then have "(run_id r, r) \<in> set (prune_runs ?m)"
        unfolding prune_runs_drop [OF u] by (simp add: MAX_RUNS_def)
      then show ?thesis using u by (simp add: put_run_def persist_runs_def)
    next
      case (Some q)
      then obtain xs ys where "runs st = xs @ (run_id r, q) # ys" "run_id r \<notin> set (keys xs)"
        by (rule look_split)
      then have "length ?m = length (runs st)" by (simp add: put_split)
      then show ?thesis using u l by (simp add: put_run_def persist_runs_def prune_runs_drop)
    qed
  qed
  have fin: "\<exists>w' r. task_step\<^sup>*\<^sup>* v w' \<and> look (runs (store w')) i = Some r \<and> look (flight w') i = None
      \<and> run_status r = (case outcome of Inl _ \<Rightarrow> Failed | Inr _ \<Rightarrow> Succeeded) \<and> run_spec r = run_spec run"
    if v: "tasks_inv v" "look (flight v) i = Some q" "run_status q = Running" "run_spec q = run_spec run" for v q
  proof -
    have "task_step v (execute_end q outcome 0 v)"
      using v assms(3) by (intro task_step.end_run) auto
    moreover have "run_id q = i" using flight_run [OF v(1,2)] by simp
    moreover define r where "r = (case outcome of
        Inr result \<Rightarrow> q\<lparr>run_result := Some result, run_status := Succeeded, run_finishedAt := Some 0\<rparr>
      | Inl e \<Rightarrow> q\<lparr>run_status := Failed, run_error := Some e, run_finishedAt := Some 0\<rparr>)"
    have r: "run_id r = i" "run_spec r = run_spec run"
      "run_status r = (case outcome of Inl _ \<Rightarrow> Failed | Inr _ \<Rightarrow> Succeeded)"
      using calculation(2) v(4) by (auto simp: r_def split: sum.split)
    have "look (runs (put_run r (store v))) i = Some r"
      using kept [of "store v" r] v(1) r(1) by (simp add: tasks_inv_def)
    moreover have "execute_end q outcome 0 v = (save_run r v)\<lparr>flight := del i (flight v)\<rparr>"
      using calculation(2) by (simp add: execute_end_def r_def)
    ultimately show ?thesis
      using r by (intro exI [of _ "execute_end q outcome 0 v"] exI [of _ r]) (simp add: save_run_def)
  qed
  show ?thesis
  proof (cases "run_status run = Running")
    case True
    with fin [OF inv assms(2)] show ?thesis by simp
  next
    case False
    with flight_run [OF inv assms(2)] have pend: "run_status run = Pending" by (simp add: run_open_def)
    let ?v = "execute_begin run 0 w"
    have step: "task_step w ?v" by (rule task_step.begin_run [OF assms(2) pend])
    have "look (flight ?v) i = Some (run\<lparr>run_status := Running, run_startedAt := Some 0\<rparr>)"
      using flight_run [OF inv assms(2)] by (simp add: execute_begin_def Let_def)
    from fin [OF inv_step [OF step inv] this] step show ?thesis
      by (auto intro: converse_rtranclp_into_rtranclp)
  qed
qed

theorem runs_end_witness:
  "\<exists>w' r. task_step\<^sup>*\<^sup>* (snd (start_run ''t1'' TaskFindWanIp None System 5 no_tasks)) w'
     \<and> look (runs (store w')) ''t1'' = Some r \<and> run_status r = Failed"
proof -
  let ?w = "snd (start_run ''t1'' TaskFindWanIp None System 5 no_tasks)"
  obtain r where "look (flight ?w) ''t1'' = Some r" using demo_flight by blast
  from runs_end [OF demo_reach this, of "Inl ''offline''"] show ?thesis by auto
qed

end
