(* ===== verification/Upload.thy ===== *)
theory Upload
  imports Agent_Files Rpc
begin

text \<open>
  Uploading a file to a host: the control plane's half (\<open>HostAgent.uploadFile\<close> in
  \<open>apps/server/src/host-agent.ts\<close>), which re-cuts a stream into chunks and sends them one by one,
  and the agent's half (\<open>runUploadChunk\<close>, \<open>discardUpload\<close> in \<open>agent/agent.ts\<close>), which collects
  them in a temporary sibling and renames it over the target. A base64 payload is its bytes.
\<close>

subsection \<open>The agent\<close>

record ActiveUpload =
  au_path :: string
  au_tempPath :: string
  au_bytesWritten :: nat

record agent_host =
  ag_files :: files
  ag_uploads :: "(string, ActiveUpload) jsmap"

text \<open>
  What the host does with one chunk: the random suffix of a new temporary file, how many of the
  bytes reach the file (\<open>None\<close>: the write throws), and whether the close succeeds.
\<close>

record chunk_io =
  ci_salt :: string
  ci_write :: "nat option"
  ci_close :: bool

datatype upload_error =
    UploadFs fs_error
  | UnknownUpload string nat
  | WrongOffset string nat nat
  | PathChanged string

definition tempSibling :: "string \<Rightarrow> string \<Rightarrow> string" where
  "tempSibling file salt = file @ ''.sc-tmp-'' @ salt"

text \<open>\<open>fs.open(path, "wx")\<close>\<close>

definition fs_open_wx :: "host_env \<Rightarrow> string \<Rightarrow> files \<Rightarrow> (fs_error + unit) \<times> files" where
  "fs_open_wx env p fs =
     (if look fs p \<noteq> None then (Inl EEXIST, fs)
      else if \<not> is_dir fs (dirname p) then (Inl ENOENT, fs)
      else if he_io env p then (Inl HostIO, fs)
      else (Inr (), put p (File []) fs))"

text \<open>\<open>handle.write\<close>: at the end of what was written through this handle.\<close>

definition fs_append :: "string \<Rightarrow> char list \<Rightarrow> files \<Rightarrow> files" where
  "fs_append p d fs = (case look fs p of Some (File c) \<Rightarrow> put p (File (c @ d)) fs | _ \<Rightarrow> fs)"

definition open_upload :: "host_env \<Rightarrow> string \<Rightarrow> string \<Rightarrow> string \<Rightarrow> agent_host \<Rightarrow>
    (upload_error + ActiveUpload) \<times> agent_host" where
  "open_upload env salt uploadId filePath h =
     (let target = normalizePath filePath; tempPath = tempSibling target salt
      in case fs_open_wx env tempPath (ag_files h) of
           (Inl e, _) \<Rightarrow> (Inl (UploadFs e), h)
         | (Inr _, fs) \<Rightarrow>
             (let u = \<lparr>au_path = target, au_tempPath = tempPath, au_bytesWritten = 0\<rparr>
              in (Inr u, h\<lparr>ag_files := fs, ag_uploads := put uploadId u (ag_uploads h)\<rparr>)))"

definition find_upload :: "host_env \<Rightarrow> string \<Rightarrow> string \<Rightarrow> string \<Rightarrow> nat \<Rightarrow> agent_host \<Rightarrow>
    (upload_error + ActiveUpload) \<times> agent_host" where
  "find_upload env salt uploadId filePath offset h =
     (case look (ag_uploads h) uploadId of
        Some u \<Rightarrow> (Inr u, h)
      | None \<Rightarrow> if offset = 0 then open_upload env salt uploadId filePath h
                else (Inl (UnknownUpload uploadId offset), h))"

definition publish :: "host_env \<Rightarrow> chunk_io \<Rightarrow> string \<Rightarrow> ActiveUpload \<Rightarrow> agent_host \<Rightarrow> (upload_error + nat) \<times> agent_host" where
  "publish env io uploadId u h =
     (let h1 = h\<lparr>ag_uploads := del uploadId (ag_uploads h)\<rparr>
      in if \<not> ci_close io then (Inl (UploadFs HostIO), h1)
         else case fs_rename env (au_tempPath u) (au_path u) (ag_files h1) of
                (Inl e, fs) \<Rightarrow> (Inl (UploadFs e), h1\<lparr>ag_files := fs\<rparr>)
              | (Inr _, fs) \<Rightarrow> (Inr (au_bytesWritten u), h1\<lparr>ag_files := fs\<rparr>))"

definition runUploadChunk :: "host_env \<Rightarrow> chunk_io \<Rightarrow> string \<Rightarrow> string \<Rightarrow> nat \<Rightarrow> char list \<Rightarrow> bool \<Rightarrow> agent_host \<Rightarrow>
    (upload_error + nat) \<times> agent_host" where
  "runUploadChunk env io uploadId filePath offset data final h =
     (case find_upload env (ci_salt io) uploadId filePath offset h of
        (Inl e, h1) \<Rightarrow> (Inl e, h1)
      | (Inr u, h1) \<Rightarrow>
          if offset \<noteq> au_bytesWritten u then (Inl (WrongOffset uploadId (au_bytesWritten u) offset), h1)
          else if au_path u \<noteq> normalizePath filePath then (Inl (PathChanged uploadId), h1)
          else (case ci_write io of
              None \<Rightarrow> (Inl (UploadFs HostIO), h1)
            | Some n \<Rightarrow>
                (let u' = u\<lparr>au_bytesWritten := au_bytesWritten u + length data\<rparr>;
                     h2 = h1\<lparr>ag_files := fs_append (au_tempPath u) (take n data) (ag_files h1),
                             ag_uploads := put uploadId u' (ag_uploads h1)\<rparr>
                 in if \<not> final then (Inr (au_bytesWritten u'), h2) else publish env io uploadId u' h2)))"

definition discardUpload :: "string \<Rightarrow> agent_host \<Rightarrow> agent_host" where
  "discardUpload uploadId h =
     (case look (ag_uploads h) uploadId of
        None \<Rightarrow> h
      | Some u \<Rightarrow> h\<lparr>ag_uploads := del uploadId (ag_uploads h), ag_files := fs_rm_file (au_tempPath u) (ag_files h)\<rparr>)"

text \<open>The handler of \<open>uploadChunkRequest\<close>; \<open>Inl\<close> is an \<open>error\<close> message.\<close>

definition on_upload_chunk :: "host_env \<Rightarrow> chunk_io \<Rightarrow> string \<Rightarrow> string \<Rightarrow> nat \<Rightarrow> char list \<Rightarrow> bool \<Rightarrow> agent_host \<Rightarrow>
    (upload_error + nat) \<times> agent_host" where
  "on_upload_chunk env io uploadId filePath offset data final h =
     (case runUploadChunk env io uploadId filePath offset data final h of
        (Inl e, h1) \<Rightarrow> (Inl e, discardUpload uploadId h1)
      | (Inr n, h1) \<Rightarrow> (Inr n, h1))"

definition upload_error_text :: "upload_error \<Rightarrow> string" where
  "upload_error_text e =
     (case e of
        UnknownUpload i off \<Rightarrow> ''Error: Unknown upload '' @ i @ '' (offset '' @ to_radix 10 off @ '')''
      | WrongOffset i want got \<Rightarrow> ''Error: Upload '' @ i @ '': expected offset '' @ to_radix 10 want @ '', got '' @ to_radix 10 got
      | PathChanged i \<Rightarrow> ''Error: Upload '' @ i @ '': path changed mid-upload''
      | UploadFs _ \<Rightarrow> ''Error: file system'')"

text \<open>What the agent makes of a message about files; \<open>None\<close> is a message about something else.\<close>

datatype payload = Listing string "DirEntry list" | Content FileContent

definition file_error_text :: "file_error \<Rightarrow> string" where
  "file_error_text e = (case e of RefusingRoot \<Rightarrow> ''Error: Refusing to delete /'' | Fs _ \<Rightarrow> ''Error: file system'')"

definition done_reply :: "string \<Rightarrow> payload NodeMessage \<Rightarrow> agent_host \<Rightarrow> (file_error + unit) \<times> files \<Rightarrow>
    payload NodeMessage option \<times> agent_host" where
  "done_reply rid reply h r =
     (case r of
        (Inl e, fs) \<Rightarrow> (Some (NodeError (Some rid) (file_error_text e)), h\<lparr>ag_files := fs\<rparr>)
      | (Inr _, fs) \<Rightarrow> (Some reply, h\<lparr>ag_files := fs\<rparr>))"

fun on_file_message :: "(string \<Rightarrow> 'k :: linorder) \<Rightarrow> host_env \<Rightarrow> chunk_io \<Rightarrow> ControlMessage \<Rightarrow> agent_host \<Rightarrow>
    (payload NodeMessage option \<times> agent_host) option" where
  "on_file_message collate env io Ping h = Some (Some Pong, h)"
| "on_file_message collate env io (ResolvePathsRequest rid patterns) h =
     Some (Some (ResolvePathsResponse rid (runResolvePaths env (ag_files h) patterns)), h)"
| "on_file_message collate env io (ListDirRequest rid p) h =
     Some (Some (case runListDir collate env p (ag_files h) of
         Inl e \<Rightarrow> NodeError (Some rid) (file_error_text e) | Inr (d, es) \<Rightarrow> ListDirResponse rid (Listing d es)), h)"
| "on_file_message collate env io (ReadFileRequest rid p) h =
     Some (Some (case runReadFile env p (ag_files h) of
         Inl e \<Rightarrow> NodeError (Some rid) (file_error_text e) | Inr c \<Rightarrow> ReadFileResponse rid (Content c)), h)"
| "on_file_message collate env io (WriteFileRequest rid p content) h =
     Some (done_reply rid (WriteFileResponse rid) h (runWriteFile env p content (ag_files h)))"
| "on_file_message collate env io (UploadFileRequest rid p content) h =
     Some (done_reply rid (UploadFileResponse rid) h (runWriteFile env p content (ag_files h)))"
| "on_file_message collate env io (UploadChunkRequest rid i p off data final) h =
     Some (case on_upload_chunk env io i p off data final h of
         (Inl e, h1) \<Rightarrow> (Some (NodeError (Some rid) (upload_error_text e)), h1)
       | (Inr n, h1) \<Rightarrow> (Some (UploadChunkResponse rid n), h1))"
| "on_file_message collate env io (UploadAbort i) h = Some (None, discardUpload i h)"
| "on_file_message collate env io (CreateDirRequest rid p) h =
     Some (done_reply rid (CreateDirResponse rid) h (runCreateDir p (ag_files h)))"
| "on_file_message collate env io (DeletePathRequest rid p) h =
     Some (done_reply rid (DeletePathResponse rid) h (runDeletePath env p (ag_files h)))"
| "on_file_message collate env io (RenamePathRequest rid src dest) h =
     Some (done_reply rid (RenameResponse rid) h (runRenamePath env src dest (ag_files h)))"
| "on_file_message collate env io _ h = None"

text \<open>A request is answered once, under its own id.\<close>

lemma file_request_answered:
  assumes "on_file_message collate env io m h = Some (reply, h')" "m \<noteq> Ping" "\<And>i. m \<noteq> UploadAbort i"
  shows "\<exists>msg rid. reply = Some msg \<and> requestId_of msg = Some rid \<and>
    (\<exists>p q c o' d f ps. m = ResolvePathsRequest rid ps \<or> m = ListDirRequest rid p \<or> m = ReadFileRequest rid p
       \<or> m = WriteFileRequest rid p c \<or> m = UploadFileRequest rid p c \<or> m = UploadChunkRequest rid q p o' d f
       \<or> m = CreateDirRequest rid p \<or> m = DeletePathRequest rid p \<or> m = RenamePathRequest rid p q)"
  using assms by (cases m) (auto simp: done_reply_def split: sum.splits prod.splits)

subsection \<open>What an upload is, seen from outside\<close>

text \<open>A name of the temporary scheme, and the files that are not of it.\<close>

definition is_temp :: "string \<Rightarrow> bool" where
  "is_temp p \<longleftrightarrow> sublist ''.sc-tmp-'' p"

definition visible :: "agent_host \<Rightarrow> string \<Rightarrow> node option" where
  "visible h p = (if is_temp p then None else look (ag_files h) p)"

text \<open>The bytes an upload in progress has brought so far, with its target.\<close>

definition received :: "agent_host \<Rightarrow> string \<Rightarrow> (string \<times> char list) option" where
  "received h uploadId =
     (case look (ag_uploads h) uploadId of
        None \<Rightarrow> None
      | Some u \<Rightarrow> (case look (ag_files h) (au_tempPath u) of Some (File d) \<Rightarrow> Some (au_path u, d) | _ \<Rightarrow> None))"

text \<open>
  The state the agent keeps, as two functions: the files and the uploads in progress. Each upload
  owns its temporary file, which holds what was received and nothing lies under.
\<close>

definition slot_ok :: "(string \<Rightarrow> node option) \<Rightarrow> (string \<Rightarrow> ActiveUpload option) \<Rightarrow> string \<Rightarrow> ActiveUpload \<Rightarrow> bool" where
  "slot_ok F U i u \<longleftrightarrow>
     (\<exists>d. F (au_tempPath u) = Some (File d) \<and> length d = au_bytesWritten u)
     \<and> is_temp (au_tempPath u) \<and> \<not> is_temp (au_path u)
     \<and> (\<forall>q n. F q = Some n \<longrightarrow> \<not> below (au_tempPath u) q)
     \<and> (\<forall>j v. U j = Some v \<longrightarrow> au_tempPath v = au_tempPath u \<longrightarrow> j = i)"

definition uploads_ok :: "(string \<Rightarrow> node option) \<Rightarrow> (string \<Rightarrow> ActiveUpload option) \<Rightarrow> bool" where
  "uploads_ok F U \<longleftrightarrow> (\<forall>i u. U i = Some u \<longrightarrow> slot_ok F U i u)"

definition host_ok :: "agent_host \<Rightarrow> bool" where
  "host_ok h \<longleftrightarrow> uploads_ok (look (ag_files h)) (look (ag_uploads h))"

text \<open>The suffix is random: nothing on the host has the name it makes, or lies under it.\<close>

definition new_temp :: "agent_host \<Rightarrow> string \<Rightarrow> bool" where
  "new_temp h t \<longleftrightarrow> (\<forall>q n. look (ag_files h) q = Some n \<longrightarrow> \<not> in_tree t q)
     \<and> (\<forall>i u. look (ag_uploads h) i = Some u \<longrightarrow> \<not> in_tree (au_tempPath u) t)"

lemma below_irrefl [simp]: "\<not> below t t"
  by (auto simp: below_def dest: prefix_length_le)

lemma is_temp_append: "is_temp t \<Longrightarrow> is_temp (t @ x)"
  unfolding is_temp_def sublist_def by (metis append.assoc)

lemma is_temp_below: "is_temp t \<Longrightarrow> below t q \<Longrightarrow> is_temp q"
proof -
  assume t: "is_temp t" and b: "below t q"
  have "t \<noteq> ''/''" using t by (auto simp: is_temp_def sublist_def Cons_eq_append_conv)
  then obtain x where "q = t @ x" using b by (auto simp: below_def prefix_def)
  then show "is_temp q" using is_temp_append [OF t] by simp
qed

lemma is_temp_sibling: "is_temp (tempSibling p salt)"
  unfolding is_temp_def tempSibling_def sublist_def by blast

lemma slot_okD:
  assumes "slot_ok F U i u"
  shows "\<exists>d. F (au_tempPath u) = Some (File d) \<and> length d = au_bytesWritten u"
    and "is_temp (au_tempPath u)" "\<not> is_temp (au_path u)" "F q = Some n \<Longrightarrow> \<not> below (au_tempPath u) q"
    and "U j = Some v \<Longrightarrow> au_tempPath v = au_tempPath u \<Longrightarrow> j = i"
  using assms unfolding slot_ok_def by blast+

lemma slot_okI:
  assumes "F (au_tempPath u) = Some (File d)" "length d = au_bytesWritten u" "is_temp (au_tempPath u)"
    "\<not> is_temp (au_path u)" "\<And>q n. F q = Some n \<Longrightarrow> \<not> below (au_tempPath u) q"
    "\<And>j v. U j = Some v \<Longrightarrow> au_tempPath v = au_tempPath u \<Longrightarrow> j = i"
  shows "slot_ok F U i u"
  using assms unfolding slot_ok_def by blast

lemma uploads_okD: "uploads_ok F U \<Longrightarrow> U i = Some u \<Longrightarrow> slot_ok F U i u"
  unfolding uploads_ok_def by blast

text \<open>The slots a change leaves alone.\<close>

lemma slot_ok_frame:
  assumes s: "slot_ok F U j v" and "F' (au_tempPath v) = F (au_tempPath v)"
    and F: "\<And>q n. F' q = Some n \<Longrightarrow> F q = Some n \<or> \<not> below (au_tempPath v) q"
    and U: "\<And>k w. U' k = Some w \<Longrightarrow> k = j \<or> au_tempPath w \<noteq> au_tempPath v"
  shows "slot_ok F' U' j v"
  unfolding slot_ok_def
proof (intro conjI allI impI)
  show "\<exists>d. F' (au_tempPath v) = Some (File d) \<and> length d = au_bytesWritten v"
    using slot_okD(1) [OF s] assms(2) by simp
  show "\<not> below (au_tempPath v) q" if "F' q = Some n" for q n using F [OF that] slot_okD(4) [OF s] by blast
  show "k = j" if "U' k = Some w" "au_tempPath w = au_tempPath v" for k w using U that by blast
qed (use slot_okD [OF s] in simp_all)

lemma ok_open:
  assumes ok: "uploads_ok F U" and "U i = None" "is_temp t" "\<not> is_temp p"
    and new: "\<And>q n. F q = Some n \<Longrightarrow> \<not> in_tree t q" and far: "\<And>j u. U j = Some u \<Longrightarrow> \<not> in_tree (au_tempPath u) t"
  shows "uploads_ok (F(t \<mapsto> File [])) (U(i \<mapsto> \<lparr>au_path = p, au_tempPath = t, au_bytesWritten = 0\<rparr>))"
    (is "uploads_ok ?F ?U")
  unfolding uploads_ok_def
proof (intro allI impI)
  fix j u assume u: "?U j = Some u"
  show "slot_ok ?F ?U j u"
  proof (cases "j = i")
    case True
    have u': "u = \<lparr>au_path = p, au_tempPath = t, au_bytesWritten = 0\<rparr>" using u True by simp
    show ?thesis
      unfolding True u'
    proof (rule slot_okI [of _ _ "[]"])
      show "k = i" if "?U k = Some w" "au_tempPath w = au_tempPath \<lparr>au_path = p, au_tempPath = t, au_bytesWritten = 0\<rparr>" for k w
        using that far [of k w] by (cases "k = i") (auto simp: in_tree_def)
      show "\<not> below (au_tempPath \<lparr>au_path = p, au_tempPath = t, au_bytesWritten = 0\<rparr>) q" if "?F q = Some n" for q n
        using that new [of q n] by (cases "q = t") (auto simp: in_tree_def)
    qed (use assms(3,4) in simp_all)
  next
    case False
    then have s: "U j = Some u" "slot_ok F U j u" using u uploads_okD [OF ok, of j u] by simp_all
    have t: "au_tempPath u \<noteq> t" "\<not> below (au_tempPath u) t" using far [OF s(1)] by (auto simp: in_tree_def)
    show ?thesis
    proof (rule slot_ok_frame [OF s(2)])
      show "F q = Some n \<or> \<not> below (au_tempPath u) q" if "?F q = Some n" for q n
        using that t by (cases "q = t") simp_all
      show "k = j \<or> au_tempPath w \<noteq> au_tempPath u" if "?U k = Some w" for k w
        using that t slot_okD(5) [OF s(2), of k w] by (cases "k = i") auto
    qed (use t in simp)
  qed
qed

lemma ok_append:
  assumes ok: "uploads_ok F U" and u: "U i = Some u" "F (au_tempPath u) = Some (File d)"
  shows "uploads_ok (F(au_tempPath u \<mapsto> File (d @ e))) (U(i \<mapsto> u\<lparr>au_bytesWritten := au_bytesWritten u + length e\<rparr>))"
    (is "uploads_ok ?F ?U")
  unfolding uploads_ok_def
proof (intro allI impI)
  fix j v assume v: "?U j = Some v"
  note i = uploads_okD [OF ok u(1)]
  have old: "F q = Some n \<or> q = au_tempPath u" if "?F q = Some n" for q n using that by (auto split: if_splits)
  have keys: "U k = Some w \<or> k = i \<and> au_tempPath w = au_tempPath u" if "?U k = Some w" for k w
    using that by (auto split: if_splits)
  show "slot_ok ?F ?U j v"
  proof (cases "j = i")
    case True
    then have v': "v = u\<lparr>au_bytesWritten := au_bytesWritten u + length e\<rparr>" using v by simp
    have len: "length d = au_bytesWritten u" using slot_okD(1) [OF i] u(2) by simp
    show ?thesis
      unfolding True v'
    proof (rule slot_okI [of _ _ "d @ e"])
      show "k = i" if "?U k = Some w" "au_tempPath w = au_tempPath (u\<lparr>au_bytesWritten := au_bytesWritten u + length e\<rparr>)" for k w
        using keys [OF that(1)] slot_okD(5) [OF i, of k w] that(2) by simp blast
      show "\<not> below (au_tempPath (u\<lparr>au_bytesWritten := au_bytesWritten u + length e\<rparr>)) q" if "?F q = Some n" for q n
        using old [OF that] slot_okD(4) [OF i, of q n] by auto
    qed (use len slot_okD(2,3) [OF i] in simp_all)
  next
    case False
    then have s: "slot_ok F U j v" using v uploads_okD [OF ok, of j v] by simp
    have ne: "au_tempPath v \<noteq> au_tempPath u" using slot_okD(5) [OF s u(1)] False by auto
    show ?thesis
    proof (rule slot_ok_frame [OF s])
      show "F q = Some n \<or> \<not> below (au_tempPath v) q" if "?F q = Some n" for q n
        using old [OF that] slot_okD(4) [OF s u(2)] by blast
      show "k = j \<or> au_tempPath w \<noteq> au_tempPath v" if "?U k = Some w" for k w
        using keys [OF that] slot_okD(5) [OF s, of k w] ne by auto
    qed (use ne in simp)
  qed
qed

text \<open>Forgetting an upload, whatever becomes of its temporary file, and publishing another file.\<close>

lemma ok_drop:
  assumes ok: "uploads_ok F U" and u: "U i = Some u" and F: "\<And>q. q \<noteq> au_tempPath u \<Longrightarrow> F' q = F q"
    and t: "F' (au_tempPath u) = None \<or> F' (au_tempPath u) = F (au_tempPath u)"
  shows "uploads_ok F' (U(i := None))"
  unfolding uploads_ok_def
proof (intro allI impI)
  fix j v assume v: "(U(i := None)) j = Some v"
  then have s: "j \<noteq> i" "slot_ok F U j v" using uploads_okD [OF ok, of j v] by (simp_all split: if_splits)
  have ne: "au_tempPath v \<noteq> au_tempPath u" using slot_okD(5) [OF s(2) u] s(1) by auto
  show "slot_ok F' (U(i := None)) j v"
  proof (rule slot_ok_frame [OF s(2)])
    show "F q = Some n \<or> \<not> below (au_tempPath v) q" if "F' q = Some n" for q n
      using that F [of q] t by (cases "q = au_tempPath u") auto
    show "k = j \<or> au_tempPath w \<noteq> au_tempPath v" if "(U(i := None)) k = Some w" for k w
      using that slot_okD(5) [OF s(2), of k w] by (auto split: if_splits)
  qed (use F ne in simp)
qed

lemma ok_publish:
  assumes ok: "uploads_ok F U" and p: "\<not> is_temp p"
  shows "uploads_ok (F(p \<mapsto> File d)) U"
  unfolding uploads_ok_def
proof (intro allI impI)
  fix j v assume v: "U j = Some v"
  note s = uploads_okD [OF ok v]
  have b: "au_tempPath v \<noteq> p" "\<not> below (au_tempPath v) p" using slot_okD(2) [OF s] p is_temp_below by auto
  show "slot_ok (F(p \<mapsto> File d)) U j v"
    by (rule slot_ok_frame [OF s]) (use b slot_okD(5) [OF s] in \<open>auto split: if_splits\<close>)
qed

lemma rename_temp:
  assumes f: "look fs t = Some (File d)" and alone: "\<And>q n. look fs q = Some n \<Longrightarrow> \<not> below t q" and "t \<noteq> p"
    and r: "fs_rename env t p fs = (Inr u, fs')"
  shows "look fs' = (look fs)(t := None, p \<mapsto> File d)"
proof
  fix x
  define g where "g q = (if in_tree t q then moved t p q else q)" for q
  define m where "m = filter (\<lambda>(q, _). q \<noteq> p) fs"
  have fs': "fs' = map (\<lambda>(q, n). (g q, n)) m"
    using r \<open>t \<noteq> p\<close> by (simp add: fs_rename_def g_def m_def split: option.splits)
  have g: "g q = (if q = t then p else q)" "q \<noteq> p" if q: "q \<in> set (keys m)" for q
  proof -
    have "q \<in> set (keys fs)" "q \<noteq> p" using q by (auto simp: m_def)
    then obtain n where "look fs q = Some n" using look_in_keys [of fs q] by blast
    then have "\<not> below t q" by (rule alone)
    then show "g q = (if q = t then p else q)" "q \<noteq> p" using \<open>q \<noteq> p\<close> by (auto simp: g_def in_tree_def moved_def)
  qed
  have gt: "g t = p" by (simp add: g_def in_tree_def moved_def)
  consider "x = p" | "x = t" "x \<noteq> p" | "x \<noteq> t" "x \<noteq> p" by blast
  then show "look fs' x = ((look fs)(t := None, p \<mapsto> File d)) x"
  proof cases
    case 1
    have "look (map (\<lambda>(q, n). (g q, n)) m) (g t) = look m t"
    proof (rule look_map_key)
      show "q = t" if "q \<in> set (keys m)" "g q = g t" for q using g [OF that(1)] that(2) gt by (simp split: if_splits)
    qed
    then show ?thesis using 1 f gt \<open>t \<noteq> p\<close> by (simp add: fs' m_def look_filter_key)
  next
    case 2
    have "look (map (\<lambda>(q, n). (g q, n)) m) x = None"
    proof (rule look_map_key_None)
      show "g q \<noteq> x" if "q \<in> set (keys m)" for q using g [OF that] 2 by simp
    qed
    then show ?thesis using 2 by (simp add: fs')
  next
    case 3
    have gx: "g x = x" if "x \<in> set (keys m)" using g [OF that] 3 by simp
    show ?thesis
    proof (cases "x \<in> set (keys m)")
      case True
      have "look (map (\<lambda>(q, n). (g q, n)) m) (g x) = look m x"
      proof (rule look_map_key)
        show "q = x" if "q \<in> set (keys m)" "g q = g x" for q
          using g [OF that(1)] that(2) gx [OF True] 3 by (simp split: if_splits)
      qed
      then show ?thesis using gx [OF True] 3 by (simp add: fs' m_def look_filter_key)
    next
      case False
      have "look (map (\<lambda>(q, n). (g q, n)) m) x = None"
      proof (rule look_map_key_None)
        show "g q \<noteq> x" if "q \<in> set (keys m)" for q using g [OF that] 3 False that by (simp split: if_splits) blast
      qed
      moreover have "look fs x = None" using False 3 look_in_keys [of m x] by (simp add: m_def look_filter_key)
      ultimately show ?thesis using 3 by (simp add: fs')
    qed
  qed
qed

lemma rename_fails: "fs_rename env src dest fs = (Inl e, fs') \<Longrightarrow> fs' = fs"
  by (auto simp: fs_rename_def split: option.splits if_splits)

text \<open>The outside view under each change of the two functions.\<close>

lemma received_frame:
  assumes "\<And>j. j \<noteq> i \<Longrightarrow> look (ag_uploads h') j = look (ag_uploads h) j"
    and "\<And>j u. j \<noteq> i \<Longrightarrow> look (ag_uploads h) j = Some u \<Longrightarrow>
        look (ag_files h') (au_tempPath u) = look (ag_files h) (au_tempPath u)"
    and "received h' i = x"
  shows "received h' = (received h)(i := x)"
proof
  fix j
  show "received h' j = ((received h)(i := x)) j"
    using assms by (cases "j = i"; cases "look (ag_uploads h) j") (simp_all add: received_def)
qed

lemma temps_differ:
  assumes "host_ok h" "look (ag_uploads h) i = Some u" "look (ag_uploads h) j = Some v" "j \<noteq> i"
  shows "au_tempPath v \<noteq> au_tempPath u"
  using slot_okD(5) [OF uploads_okD [OF assms(1) [unfolded host_ok_def] assms(2)] assms(3)] assms(4) by blast

lemma received_Some:
  assumes "host_ok h" "look (ag_uploads h) i = Some u"
  obtains d where "look (ag_files h) (au_tempPath u) = Some (File d)" "length d = au_bytesWritten u"
    "received h i = Some (au_path u, d)" "is_temp (au_tempPath u)" "\<not> is_temp (au_path u)"
    "\<And>q n. look (ag_files h) q = Some n \<Longrightarrow> \<not> below (au_tempPath u) q"
proof -
  note s = uploads_okD [OF assms(1) [unfolded host_ok_def] assms(2)]
  from slot_okD(1) [OF s] obtain d where d: "look (ag_files h) (au_tempPath u) = Some (File d)" "length d = au_bytesWritten u" by blast
  show ?thesis
    by (rule that [OF d]) (use d assms(2) slot_okD(2-4) [OF s] in \<open>auto simp: received_def\<close>)
qed

lemma fs_rm_file_look: "look fs p = Some (File d) \<Longrightarrow> look (fs_rm_file p fs) = (look fs)(p := None)"
  by (auto simp: fs_rm_file_def fun_eq_iff)

lemma fs_append_look: "look fs p = Some (File c) \<Longrightarrow> look (fs_append p d fs) = (look fs)(p \<mapsto> File (c @ d))"
  by (auto simp: fs_append_def fun_eq_iff)

lemma look_del_fun: "look (del k m) = (look m)(k := None)"
  by (auto simp: fun_eq_iff)

lemma look_put_fun: "look (put k v m) = (look m)(k \<mapsto> v)"
  by (auto simp: fun_eq_iff)

text \<open>An upload that ends without being published.\<close>

lemma dropped:
  assumes ok: "host_ok h" and u: "look (ag_uploads h) i = Some u" and h': "ag_uploads h' = del i (ag_uploads h)"
    and F: "look (ag_files h') = (look (ag_files h))(au_tempPath u := None) \<or> look (ag_files h') = look (ag_files h)"
  shows "host_ok h' \<and> received h' = (received h)(i := None) \<and> visible h' = visible h"
proof -
  obtain d where d: "look (ag_files h) (au_tempPath u) = Some (File d)" "is_temp (au_tempPath u)"
    using received_Some [OF ok u] by metis
  have "uploads_ok (look (ag_files h')) ((look (ag_uploads h))(i := None))"
    by (rule ok_drop [OF ok [unfolded host_ok_def] u]) (use F in auto)
  then have "host_ok h'" by (simp add: host_ok_def h' look_del_fun)
  moreover have "received h' = (received h)(i := None)"
  proof (rule received_frame)
    show "look (ag_files h') (au_tempPath v) = look (ag_files h) (au_tempPath v)"
      if "j \<noteq> i" "look (ag_uploads h) j = Some v" for j v
      using F temps_differ [OF ok u that(2,1)] by auto
  qed (simp_all add: h' received_def)
  moreover have "visible h' = visible h" using F d(2) by (auto simp: visible_def fun_eq_iff)
  ultimately show ?thesis by blast
qed

lemma discard_refines:
  assumes "host_ok h"
  shows "host_ok (discardUpload i h) \<and> received (discardUpload i h) = (received h)(i := None)
    \<and> visible (discardUpload i h) = visible h"
proof (cases "look (ag_uploads h) i")
  case None
  then have "received h i = None" "discardUpload i h = h" by (simp_all add: received_def discardUpload_def)
  then show ?thesis using assms by (auto simp: fun_eq_iff)
next
  case (Some u)
  obtain d where d: "look (ag_files h) (au_tempPath u) = Some (File d)" using received_Some [OF assms Some] by metis
  show ?thesis
    by (rule dropped [OF assms Some]) (use Some fs_rm_file_look [OF d] in \<open>simp_all add: discardUpload_def del: map_of_eq_Some_iff\<close>)
qed

lemma find_refines:
  assumes ok: "host_ok h" and f: "find_upload env salt i filePath offset h = (r, h1)"
    and t: "look (ag_uploads h) i = None \<Longrightarrow> new_temp h (tempSibling (normalizePath filePath) salt)"
    and p: "\<not> is_temp (normalizePath filePath)"
  shows "host_ok h1 \<and> visible h1 = visible h \<and>
    (case r of Inl e \<Rightarrow> h1 = h
     | Inr u \<Rightarrow> look (ag_uploads h1) i = Some u \<and>
         (if received h i = None then received h1 = (received h)(i \<mapsto> (normalizePath filePath, [])) \<and> au_path u = normalizePath filePath
          else received h1 = received h))"
proof (cases "look (ag_uploads h) i")
  case (Some u)
  then have "r = Inr u" "h1 = h" using f by (simp_all add: find_upload_def)
  moreover obtain d where "received h i = Some (au_path u, d)" using received_Some [OF ok Some] by metis
  ultimately show ?thesis using ok Some by (simp del: map_of_eq_Some_iff)
next
  case None
  let ?t = "tempSibling (normalizePath filePath) salt" and ?p = "normalizePath filePath"
  have n: "new_temp h ?t" using t None by blast
  show ?thesis
  proof (cases "offset = 0 \<and> fst (fs_open_wx env ?t (ag_files h)) = Inr ()")
    case False
    then have "\<exists>e. r = Inl e" "h1 = h"
      using f None by (auto simp: find_upload_def open_upload_def Let_def split: prod.splits sum.splits if_splits)
    then show ?thesis using ok by auto
  next
    case True
    let ?u = "\<lparr>au_path = ?p, au_tempPath = ?t, au_bytesWritten = 0\<rparr>"
    have "snd (fs_open_wx env ?t (ag_files h)) = put ?t (File []) (ag_files h)"
      using True by (auto simp: fs_open_wx_def split: if_splits)
    then have out: "r = Inr ?u" "ag_files h1 = put ?t (File []) (ag_files h)" "ag_uploads h1 = put i ?u (ag_uploads h)"
      using f None True by (auto simp: find_upload_def open_upload_def Let_def split: prod.splits sum.splits)
    have "uploads_ok ((look (ag_files h))(?t \<mapsto> File [])) ((look (ag_uploads h))(i \<mapsto> ?u))"
      by (rule ok_open [OF ok [unfolded host_ok_def] None is_temp_sibling p]) (use n in \<open>auto simp: new_temp_def simp del: map_of_eq_Some_iff\<close>)
    then have "host_ok h1" by (simp add: host_ok_def out look_put_fun)
    moreover have "visible h1 = visible h" by (auto simp: visible_def out is_temp_sibling fun_eq_iff)
    moreover have "received h1 = (received h)(i \<mapsto> (?p, []))"
    proof (rule received_frame)
      show "look (ag_files h1) (au_tempPath v) = look (ag_files h) (au_tempPath v)"
        if "j \<noteq> i" "look (ag_uploads h) j = Some v" for j v
      proof -
        have "au_tempPath v \<noteq> ?t" using n that(2) unfolding new_temp_def in_tree_def by metis
        then show ?thesis by (simp add: out)
      qed
    qed (simp_all add: out received_def)
    moreover have "received h i = None" using None by (simp add: received_def)
    ultimately show ?thesis by (simp add: out)
  qed
qed

text \<open>A chunk that was accepted, before anything is published.\<close>

lemma append_refines:
  assumes ok: "host_ok h" and u: "look (ag_uploads h) i = Some u"
    and h': "ag_files h' = fs_append (au_tempPath u) data (ag_files h)"
      "ag_uploads h' = put i (u\<lparr>au_bytesWritten := au_bytesWritten u + length data\<rparr>) (ag_uploads h)"
    and d: "received h i = Some (au_path u, d)"
  shows "host_ok h' \<and> received h' = (received h)(i \<mapsto> (au_path u, d @ data)) \<and> visible h' = visible h"
proof -
  from received_Some [OF ok u] d have f: "look (ag_files h) (au_tempPath u) = Some (File d)" "is_temp (au_tempPath u)"
    by (metis option.inject prod.inject)+
  note F = fs_append_look [OF f(1), of data, folded h'(1)]
  have "uploads_ok (look (ag_files h')) (look (ag_uploads h'))"
    unfolding F h'(2) look_put_fun by (rule ok_append [OF ok [unfolded host_ok_def] u f(1)])
  then have "host_ok h'" by (simp add: host_ok_def)
  moreover have "received h' = (received h)(i \<mapsto> (au_path u, d @ data))"
  proof (rule received_frame)
    show "look (ag_files h') (au_tempPath v) = look (ag_files h) (au_tempPath v)"
      if "j \<noteq> i" "look (ag_uploads h) j = Some v" for j v
      using temps_differ [OF ok u that(2,1)] by (simp add: F)
    show "received h' i = Some (au_path u, d @ data)" by (simp add: received_def h'(2) F)
  qed (simp add: h'(2))
  moreover have "visible h' = visible h" using f(2) by (auto simp: visible_def F fun_eq_iff)
  ultimately show ?thesis by blast
qed

lemma publish_refines:
  assumes ok: "host_ok h" and u: "look (ag_uploads h) i = Some u" and d: "received h i = Some (au_path u, d)"
    and p: "publish env io i u h = (r, h')"
  shows "host_ok h' \<and> received h' = (received h)(i := None)
    \<and> (case r of Inl e \<Rightarrow> visible h' = visible h
       | Inr n \<Rightarrow> n = length d \<and> visible h' = (visible h)(au_path u \<mapsto> File d))"
proof -
  from received_Some [OF ok u] d
  have f: "look (ag_files h) (au_tempPath u) = Some (File d)" "length d = au_bytesWritten u" "is_temp (au_tempPath u)"
      "\<not> is_temp (au_path u)" "\<And>q n. look (ag_files h) q = Some n \<Longrightarrow> \<not> below (au_tempPath u) q"
    by (metis option.inject prod.inject)+
  let ?h1 = "h\<lparr>ag_uploads := del i (ag_uploads h)\<rparr>"
  have d1: "host_ok h1 \<and> received h1 = (received h)(i := None) \<and> visible h1 = visible h"
    if "ag_uploads h1 = del i (ag_uploads h)" "ag_files h1 = ag_files h" for h1
    by (rule dropped [OF ok u that(1)]) (simp add: that(2))
  show ?thesis
  proof (cases "ci_close io")
    case False
    then have "h' = ?h1" "\<exists>e. r = Inl e" using p by (auto simp: publish_def)
    then show ?thesis using d1 [of h'] by auto
  next
    case True
    obtain x fs where ren: "fs_rename env (au_tempPath u) (au_path u) (ag_files h) = (x, fs)" by fastforce
    show ?thesis
    proof (cases x)
      case (Inl e)
      then have "fs = ag_files h" using ren rename_fails by blast
      then have "ag_uploads h' = del i (ag_uploads h)" "ag_files h' = ag_files h" "\<exists>e. r = Inl e"
        using p True ren Inl by (auto simp: publish_def Let_def)
      then show ?thesis using d1 [of h'] by auto
    next
      case (Inr v)
      have out: "r = Inr (au_bytesWritten u)" "ag_uploads h' = del i (ag_uploads h)" "ag_files h' = fs"
        using p True ren Inr by (auto simp: publish_def Let_def)
      have "au_tempPath u \<noteq> au_path u" using f(3,4) by auto
      note F = rename_temp [OF f(1) f(5) this ren [unfolded Inr]]
      let ?h2 = "?h1\<lparr>ag_files := fs_rm_file (au_tempPath u) (ag_files h)\<rparr>"
      have d2: "host_ok ?h2 \<and> received ?h2 = (received h)(i := None) \<and> visible ?h2 = visible h"
        by (rule dropped [OF ok u]) (simp_all add: fs_rm_file_look [OF f(1)])
      have F2: "look fs = (look (ag_files ?h2))(au_path u \<mapsto> File d)" by (simp add: F fs_rm_file_look [OF f(1)])
      have "uploads_ok ((look (ag_files ?h2))(au_path u \<mapsto> File d)) (look (ag_uploads ?h2))"
        by (rule ok_publish) (use d2 f(4) in \<open>auto simp: host_ok_def\<close>)
      then have "host_ok h'" by (simp add: host_ok_def out F2)
      moreover have "received h' = received ?h2"
      proof
        fix j
        show "received h' j = received ?h2 j"
        proof (cases "look (ag_uploads ?h2) j")
          case (Some v)
          then have "is_temp (au_tempPath v)"
            using received_Some [OF conjunct1 [OF d2] Some] by blast
          then have "au_tempPath v \<noteq> au_path u" using f(4) by auto
          then show ?thesis using Some by (simp add: received_def out F2 del: map_of_eq_Some_iff)
        qed (simp add: received_def out)
      qed
      moreover have "visible h' = (visible h)(au_path u \<mapsto> File d)"
        using f(3,4) by (auto simp: visible_def out F fun_eq_iff)
      ultimately show ?thesis using d2 f(2) out by simp
    qed
  qed
qed

subsection \<open>Uploads refine whole files\<close>

lemma chunk_refines:
  assumes ok: "host_ok h" and p: "\<not> is_temp (normalizePath filePath)"
    and t: "look (ag_uploads h) i = None \<Longrightarrow> new_temp h (tempSibling (normalizePath filePath) (ci_salt io))"
    and w: "ci_write io = None \<or> ci_write io = Some (length data)"
    and c: "on_upload_chunk env io i filePath offset data final h = (r, h')"
  shows "host_ok h' \<and> host_ok (discardUpload j h') \<and> visible (discardUpload j h') = visible h' \<and>
    (case r of
       Inl e \<Rightarrow> received h' = (received h)(i := None) \<and> visible h' = visible h
     | Inr n \<Rightarrow> \<exists>d. (received h i = None \<and> d = [] \<or> received h i = Some (normalizePath filePath, d))
         \<and> offset = length d \<and> n = length (d @ data)
         \<and> (if final then received h' = (received h)(i := None)
                  \<and> visible h' = (visible h)(normalizePath filePath \<mapsto> File (d @ data))
            else received h' = (received h)(i \<mapsto> (normalizePath filePath, d @ data)) \<and> visible h' = visible h))"
    (is "_ \<and> _ \<and> _ \<and> ?outcome")
proof -
  let ?p = "normalizePath filePath"
  obtain x h1 where run: "runUploadChunk env io i filePath offset data final h = (x, h1)" by fastforce
  obtain f h0 where find: "find_upload env (ci_salt io) i filePath offset h = (f, h0)" by fastforce
  note f = find_refines [OF ok find t p]
  have refused: "host_ok h' \<and> ?outcome"
    if "x = Inl e" "host_ok h1" "received h1 = (received h)(i := y)" "visible h1 = visible h" for e y
    using that c run discard_refines [of h1 i] by (auto simp: on_upload_chunk_def)
  have "host_ok h' \<and> ?outcome"
  proof (cases f)
    case (Inl e)
    then have "x = Inl e" "h1 = h0" using run find by (simp_all add: runUploadChunk_def)
    then show ?thesis using refused [of e "received h i"] f Inl by simp
  next
    case (Inr u)
    then have u: "look (ag_uploads h0) i = Some u" and h0: "host_ok h0" "visible h0 = visible h" using f by simp_all
    obtain d where d: "received h0 i = Some (au_path u, d)" "length d = au_bytesWritten u"
      using received_Some [OF h0(1) u] by metis
    have r0: "received h0 = (received h)(i \<mapsto> (au_path u, d))"
      "received h i = None \<and> d = [] \<and> au_path u = ?p \<or> received h i = Some (au_path u, d)"
      using f Inr d(1) by (auto split: if_splits)
    show ?thesis
    proof (cases "offset = au_bytesWritten u \<and> au_path u = ?p \<and> ci_write io \<noteq> None")
      case False
      then obtain e where "x = Inl e" "h1 = h0"
        using run find Inr by (auto simp: runUploadChunk_def split: if_splits option.splits)
      then show ?thesis using refused h0 r0(1) by simp
    next
      case True
      let ?u = "u\<lparr>au_bytesWritten := au_bytesWritten u + length data\<rparr>"
      define h2 where "h2 = h0\<lparr>ag_files := fs_append (au_tempPath u) data (ag_files h0), ag_uploads := put i ?u (ag_uploads h0)\<rparr>"
      have n: "ci_write io = Some (length data)" using True w by auto
      have h2: "host_ok h2 \<and> received h2 = (received h0)(i \<mapsto> (?p, d @ data)) \<and> visible h2 = visible h0"
        using append_refines [OF h0(1) u _ _ d(1), of h2 data] True by (simp add: h2_def)
      have step: "(x, h1) = (if \<not> final then (Inr (au_bytesWritten ?u), h2) else publish env io i ?u h2)"
        unfolding run [symmetric] using find Inr True n by (simp add: runUploadChunk_def Let_def h2_def)
      show ?thesis
      proof (cases final)
        case False
        then have "r = Inr (au_bytesWritten ?u)" "h' = h2" using step c run by (auto simp: on_upload_chunk_def)
        then show ?thesis using h2 h0(2) r0 True d(2) False by (auto simp: fun_upd_idem_iff)
      next
        case True
        have pub: "publish env io i ?u h2 = (x, h1)" using step True by simp
        have "look (ag_uploads h2) i = Some ?u" "received h2 i = Some (au_path ?u, d @ data)"
          using h2 \<open>offset = au_bytesWritten u \<and> au_path u = ?p \<and> ci_write io \<noteq> None\<close> by (simp_all add: h2_def)
        note pr = publish_refines [OF conjunct1 [OF h2] this pub]
        show ?thesis
        proof (cases x)
          case (Inl e)
          then show ?thesis using refused [of e None] pr h2 h0(2) r0(1) by simp
        next
          case (Inr n)
          then have "r = Inr n" "h' = h1" using c run by (auto simp: on_upload_chunk_def)
          then show ?thesis
            using pr Inr h2 h0(2) r0 d(2) True \<open>offset = au_bytesWritten u \<and> au_path u = ?p \<and> ci_write io \<noteq> None\<close>
            by auto
        qed
      qed
    qed
  qed
  then show ?thesis using discard_refines [of h' j] by blast
qed


text \<open>
  Two gaps. The number of bytes the write reports is not looked at, so a write the kernel cuts
  short counts as whole; and a rename that fails leaves the temporary file behind, the upload
  being forgotten before it.
\<close>

lemma del_put: "del k (put k v m) = del k m"
  by (induction m) auto

lemma short_write_is_published:
  assumes "look (ag_uploads h) i = None" "find_upload env (ci_salt io) i filePath 0 h = (Inr u, h1)"
    "ci_write io = Some n" "ci_close io" "fs_rename env (au_tempPath u) (au_path u)
       (fs_append (au_tempPath u) (take n data) (ag_files h1)) = (Inr (), fs)"
  shows "on_upload_chunk env io i filePath 0 data True h = (Inr (length data), h1\<lparr>ag_uploads := del i (ag_uploads h1), ag_files := fs\<rparr>)"
proof -
  have "au_bytesWritten u = 0 \<and> au_path u = normalizePath filePath \<and> look (ag_uploads h1) i = Some u"
    using assms(1,2) by (auto simp: find_upload_def open_upload_def Let_def split: prod.splits sum.splits)
  then show ?thesis
    using assms(2-5) by (simp add: on_upload_chunk_def runUploadChunk_def publish_def Let_def del_put)
qed

lemma failed_rename_leaves_temp:
  assumes "look (ag_uploads h) i = Some u" "ci_close io" "fs_rename env (au_tempPath u) (au_path u) (ag_files h) = (Inl e, fs)"
  shows "discardUpload i (snd (publish env io i u h)) = h\<lparr>ag_uploads := del i (ag_uploads h)\<rparr>"
  using assms rename_fails [OF assms(3)] by (simp add: publish_def discardUpload_def Let_def)

subsection \<open>The control plane\<close>

definition UPLOAD_CHUNK_BYTES :: nat where
  "UPLOAD_CHUNK_BYTES = 4 * 1024 * 1024"

record UploadSession =
  us_uploadId :: string
  us_offset :: nat
  us_final :: bool

text \<open>
  \<open>ask\<close> sends a request and waits for the count its reply carries; \<open>'w\<close> is whatever the request
  acts on. \<open>ur_pending\<close> are the bytes read and not yet sent, the concatenation of the buffers.
\<close>

type_synonym 'w ask = "ControlMessage \<Rightarrow> 'w \<Rightarrow> (exec_error + nat) \<times> 'w"

record 'w upload_run =
  ur_sentHere :: nat
  ur_bytesWritten :: nat
  ur_pending :: "char list"
  ur_world :: 'w

definition upload_send :: "'w ask \<Rightarrow> (nat \<Rightarrow> string) \<Rightarrow> string \<Rightarrow> UploadSession \<Rightarrow> char list \<Rightarrow> bool \<Rightarrow> 'w upload_run \<Rightarrow>
    (exec_error + unit) \<times> 'w upload_run" where
  "upload_send ask fresh filePath s chunk final r =
     (case ask (UploadChunkRequest (fresh (ur_sentHere r)) (us_uploadId s) filePath
                  (us_offset s + ur_sentHere r) chunk final) (ur_world r) of
        (Inl e, w) \<Rightarrow> (Inl e, r\<lparr>ur_world := w\<rparr>)
      | (Inr n, w) \<Rightarrow> (Inr (), r\<lparr>ur_sentHere := ur_sentHere r + length chunk, ur_bytesWritten := n, ur_world := w\<rparr>))"

lemma upload_send_pending: "upload_send ask fresh filePath s chunk final r = (x, r') \<Longrightarrow> ur_pending r' = ur_pending r"
  by (auto simp: upload_send_def split: prod.splits sum.splits)

text \<open>\<open>while (pendingBytes >= UPLOAD_CHUNK_BYTES)\<close>\<close>

function upload_drain :: "'w ask \<Rightarrow> (nat \<Rightarrow> string) \<Rightarrow> string \<Rightarrow> UploadSession \<Rightarrow> 'w upload_run \<Rightarrow>
    (exec_error + unit) \<times> 'w upload_run" where
  "upload_drain ask fresh filePath s r =
     (if length (ur_pending r) < UPLOAD_CHUNK_BYTES then (Inr (), r)
      else case upload_send ask fresh filePath s (take UPLOAD_CHUNK_BYTES (ur_pending r)) False
                  (r\<lparr>ur_pending := drop UPLOAD_CHUNK_BYTES (ur_pending r)\<rparr>) of
             (Inl e, r1) \<Rightarrow> (Inl e, r1)
           | (Inr _, r1) \<Rightarrow> upload_drain ask fresh filePath s r1)"
  by pat_completeness auto
termination
proof (relation "measure (\<lambda>(ask, fresh, filePath, s, r). length (ur_pending r))")
  fix ask :: "'w ask" and fresh filePath s r x r1 b
  assume "\<not> length (ur_pending r) < UPLOAD_CHUNK_BYTES"
    and "(x, r1) = upload_send ask fresh filePath s (take UPLOAD_CHUNK_BYTES (ur_pending r)) False
           (r\<lparr>ur_pending := drop UPLOAD_CHUNK_BYTES (ur_pending r)\<rparr>)"
  then show "((ask, fresh, filePath, s, r1), ask, fresh, filePath, s, r)
      \<in> measure (\<lambda>(ask, fresh, filePath, s, r). length (ur_pending r))"
    using upload_send_pending [of ask fresh filePath s, OF \<open>(x, r1) = _\<close> [symmetric]]
    by (simp add: UPLOAD_CHUNK_BYTES_def)
qed simp

declare upload_drain.simps [simp del]

text \<open>The stream: its chunks as they arrive, and the error that ends it, if one does.\<close>

fun upload_read :: "'w ask \<Rightarrow> (nat \<Rightarrow> string) \<Rightarrow> string \<Rightarrow> UploadSession \<Rightarrow> exec_error option \<Rightarrow> char list list \<Rightarrow> 'w upload_run \<Rightarrow>
    (exec_error + unit) \<times> 'w upload_run" where
  "upload_read ask fresh filePath s failure [] r = (case failure of Some e \<Rightarrow> (Inl e, r) | None \<Rightarrow> (Inr (), r))"
| "upload_read ask fresh filePath s failure (c # cs) r =
     (case upload_drain ask fresh filePath s (r\<lparr>ur_pending := ur_pending r @ c\<rparr>) of
        (Inl e, r1) \<Rightarrow> (Inl e, r1)
      | (Inr _, r1) \<Rightarrow> upload_read ask fresh filePath s failure cs r1)"

definition upload_all :: "'w ask \<Rightarrow> (nat \<Rightarrow> string) \<Rightarrow> string \<Rightarrow> UploadSession \<Rightarrow> exec_error option \<Rightarrow> char list list \<Rightarrow> 'w \<Rightarrow>
    (exec_error + unit) \<times> 'w upload_run" where
  "upload_all ask fresh filePath s failure chunks w =
     (case upload_read ask fresh filePath s failure chunks
             \<lparr>ur_sentHere = 0, ur_bytesWritten = 0, ur_pending = [], ur_world = w\<rparr> of
        (Inl e, r) \<Rightarrow> (Inl e, r)
      | (Inr _, r) \<Rightarrow>
          if ur_pending r \<noteq> [] \<or> us_final s
          then upload_send ask fresh filePath s (ur_pending r) (us_final s) (r\<lparr>ur_pending := []\<rparr>)
          else (Inr (), r))"

definition uploadWholeFile :: "'w ask \<Rightarrow> (nat \<Rightarrow> string) \<Rightarrow> string \<Rightarrow> UploadSession \<Rightarrow> exec_error option \<Rightarrow> char list list \<Rightarrow> 'w \<Rightarrow>
    (exec_error + nat) \<times> 'w" where
  "uploadWholeFile ask fresh filePath s failure chunks w =
     (if us_offset s \<noteq> 0 \<or> \<not> us_final s then (Inl (AgentTooOld ''uploadChunk''), w)
      else case failure of
             Some e \<Rightarrow> (Inl e, w)
           | None \<Rightarrow> (case ask (UploadFileRequest (fresh 0) filePath (concat chunks)) w of
                 (Inl e, w1) \<Rightarrow> (Inl e, w1)
               | (Inr _, w1) \<Rightarrow> (Inr (length (concat chunks)), w1)))"

text \<open>\<open>tell\<close> sends a message without waiting.\<close>

definition uploadFile :: "'w ask \<Rightarrow> (ControlMessage \<Rightarrow> 'w \<Rightarrow> 'w) \<Rightarrow> (nat \<Rightarrow> string) \<Rightarrow> 'p host_agent \<Rightarrow> string \<Rightarrow> UploadSession \<Rightarrow>
    exec_error option \<Rightarrow> char list list \<Rightarrow> 'w \<Rightarrow> (exec_error + nat) \<times> 'w" where
  "uploadFile ask tell fresh a filePath s failure chunks w =
     (if \<not> has_cap ''uploadChunk'' a then uploadWholeFile ask fresh filePath s failure chunks w
      else case upload_all ask fresh filePath s failure chunks w of
             (Inl e, r) \<Rightarrow> (Inl e, tell (UploadAbort (us_uploadId s)) (ur_world r))
           | (Inr _, r) \<Rightarrow> (Inr (ur_bytesWritten r), ur_world r))"

text \<open>
  What the sender holds and sends is bounded by the chunk: \<open>logged\<close> keeps the messages sent.
\<close>

definition logged :: "'w ask \<Rightarrow> ('w \<times> ControlMessage list) ask" where
  "logged ask m w = (case ask m (fst w) of (x, w') \<Rightarrow> (x, (w', snd w @ [m])))"

definition payload_size :: "ControlMessage \<Rightarrow> nat" where
  "payload_size m = (case m of UploadChunkRequest _ _ _ _ data _ \<Rightarrow> length data | _ \<Rightarrow> 0)"

definition small :: "('w \<times> ControlMessage list) upload_run \<Rightarrow> bool" where
  "small r \<longleftrightarrow> (\<forall>m\<in>set (snd (ur_world r)). payload_size m \<le> UPLOAD_CHUNK_BYTES)"

lemma send_small:
  "upload_send (logged ask) fresh p s chunk final r = (x, r') \<Longrightarrow> length chunk \<le> UPLOAD_CHUNK_BYTES \<Longrightarrow> small r \<Longrightarrow> small r'"
  by (auto simp: upload_send_def logged_def small_def payload_size_def split: prod.splits sum.splits)

lemma drain_small:
  "upload_drain (logged ask) fresh p s r = (x, r') \<Longrightarrow> small r \<Longrightarrow>
   small r' \<and> (x = Inr () \<longrightarrow> length (ur_pending r') < UPLOAD_CHUNK_BYTES)"
proof (induction "length (ur_pending r)" arbitrary: r rule: less_induct)
  case less
  let ?r0 = "r\<lparr>ur_pending := drop UPLOAD_CHUNK_BYTES (ur_pending r)\<rparr>"
  obtain y r1 where s1: "upload_send (logged ask) fresh p s (take UPLOAD_CHUNK_BYTES (ur_pending r)) False ?r0 = (y, r1)" by fastforce
  have "small ?r0" using less.prems(2) by (simp add: small_def)
  then have sm: "small r1" using send_small [OF s1] by simp
  show ?case
  proof (cases "length (ur_pending r) < UPLOAD_CHUNK_BYTES")
    case True
    then show ?thesis using less.prems by (simp add: upload_drain.simps)
  next
    case False
    have pend: "length (ur_pending r1) < length (ur_pending r)"
      using upload_send_pending [OF s1] False by (simp add: UPLOAD_CHUNK_BYTES_def)
    show ?thesis
    proof (cases y)
      case (Inl e)
      then show ?thesis using less.prems(1) s1 sm False by (subst (asm) upload_drain.simps) auto
    next
      case (Inr u)
      then have "upload_drain (logged ask) fresh p s r1 = (x, r')"
        using less.prems(1) s1 False by (subst (asm) upload_drain.simps) simp
      from less.hyps [OF pend this sm] show ?thesis .
    qed
  qed
qed

lemma read_small:
  "upload_read (logged ask) fresh p s failure chunks r = (x, r') \<Longrightarrow> small r \<Longrightarrow> length (ur_pending r) < UPLOAD_CHUNK_BYTES \<Longrightarrow>
   small r' \<and> (x = Inr () \<longrightarrow> length (ur_pending r') < UPLOAD_CHUNK_BYTES)"
proof (induction chunks arbitrary: r)
  case Nil
  then show ?case by (auto split: option.splits)
next
  case (Cons c cs)
  obtain y r1 where d: "upload_drain (logged ask) fresh p s (r\<lparr>ur_pending := ur_pending r @ c\<rparr>) = (y, r1)" by fastforce
  have "small (r\<lparr>ur_pending := ur_pending r @ c\<rparr>)" using Cons.prems(2) by (simp add: small_def)
  note d1 = drain_small [OF d this]
  show ?case
  proof (cases y)
    case (Inl e)
    then show ?thesis using Cons.prems(1) d d1 by auto
  next
    case (Inr u)
    then have "upload_read (logged ask) fresh p s failure cs r1 = (x, r')" using Cons.prems(1) d by simp
    from Cons.IH [OF this] d1 Inr show ?thesis by simp
  qed
qed

lemma chunks_bounded:
  assumes "upload_all (logged ask) fresh p s failure chunks (w, []) = (x, r)" "m \<in> set (snd (ur_world r))"
  shows "payload_size m \<le> UPLOAD_CHUNK_BYTES"
proof -
  let ?r0 = "\<lparr>ur_sentHere = 0, ur_bytesWritten = 0, ur_pending = [], ur_world = (w, [])\<rparr>"
  obtain y r1 where rd: "upload_read (logged ask) fresh p s failure chunks ?r0 = (y, r1)" by fastforce
  have "small ?r0" by (simp add: small_def)
  note r1 = read_small [OF rd this]
  have "small r"
  proof (cases y)
    case (Inl e)
    then show ?thesis using assms(1) rd r1 by (auto simp: upload_all_def UPLOAD_CHUNK_BYTES_def)
  next
    case (Inr u)
    have "length (ur_pending r1) \<le> UPLOAD_CHUNK_BYTES" "small (r1\<lparr>ur_pending := []\<rparr>)"
      using r1 Inr by (auto simp: UPLOAD_CHUNK_BYTES_def small_def)
    then show ?thesis
      using assms(1) rd r1 Inr send_small [of ask fresh p s "ur_pending r1" "us_final s" "r1\<lparr>ur_pending := []\<rparr>"]
      by (auto simp: upload_all_def UPLOAD_CHUNK_BYTES_def split: if_splits)
  qed
  then show ?thesis using assms(2) by (simp add: small_def)
qed

subsection \<open>The interface between the two\<close>

text \<open>
  What the sender may rely on: \<open>stage i p d w\<close> says that in \<open>w\<close> the upload \<open>i\<close> for the path \<open>p\<close>
  has received \<open>d\<close> (and is not open yet if that is nothing), and \<open>placed i p d w\<close> that the file is
  in place.
\<close>

locale chunk_sink =
  fixes ask :: "'w ask" and stage :: "string \<Rightarrow> string \<Rightarrow> char list \<Rightarrow> 'w \<Rightarrow> bool"
    and placed :: "string \<Rightarrow> string \<Rightarrow> char list \<Rightarrow> 'w \<Rightarrow> bool"
  assumes accept_more: "stage i p d w \<Longrightarrow>
      \<exists>w'. ask (UploadChunkRequest rid i p (length d) data False) w = (Inr (length (d @ data)), w') \<and> stage i p (d @ data) w'"
    and accept_last: "stage i p d w \<Longrightarrow>
      \<exists>w'. ask (UploadChunkRequest rid i p (length d) data True) w = (Inr (length (d @ data)), w') \<and> placed i p (d @ data) w'"
begin

definition running :: "string \<Rightarrow> UploadSession \<Rightarrow> char list \<Rightarrow> char list \<Rightarrow> 'w upload_run \<Rightarrow> bool" where
  "running p s d0 d r \<longleftrightarrow> length d0 = us_offset s \<and> ur_sentHere r = length d
     \<and> (d \<noteq> [] \<longrightarrow> ur_bytesWritten r = length (d0 @ d)) \<and> stage (us_uploadId s) p (d0 @ d) (ur_world r)"

lemma send_more:
  assumes "running p s d0 d r"
  shows "\<exists>r'. upload_send ask fresh p s chunk False r = (Inr (), r') \<and> (chunk \<noteq> [] \<longrightarrow> running p s d0 (d @ chunk) r')
    \<and> ur_pending r' = ur_pending r"
proof -
  from assms have "stage (us_uploadId s) p (d0 @ d) (ur_world r)" "length (d0 @ d) = us_offset s + ur_sentHere r"
    by (simp_all add: running_def)
  from accept_more [OF this(1), of "fresh (ur_sentHere r)" chunk, unfolded this(2)] assms show ?thesis
    by (auto simp: upload_send_def running_def)
qed

lemma drain_all:
  "running p s d0 d r \<Longrightarrow> \<exists>r' e. upload_drain ask fresh p s r = (Inr (), r')
     \<and> running p s d0 (d @ e) r' \<and> ur_pending r = e @ ur_pending r'"
proof (induction "length (ur_pending r)" arbitrary: d r rule: less_induct)
  case less
  let ?pend = "ur_pending r" and ?chunk = "take UPLOAD_CHUNK_BYTES (ur_pending r)"
  show ?case
  proof (cases "length ?pend < UPLOAD_CHUNK_BYTES")
    case True
    with less.prems show ?thesis by (intro exI [of _ r] exI [of _ "[]"]) (simp add: upload_drain.simps)
  next
    case False
    let ?r0 = "r\<lparr>ur_pending := drop UPLOAD_CHUNK_BYTES ?pend\<rparr>"
    have ne: "?chunk \<noteq> []" using False by (auto simp: UPLOAD_CHUNK_BYTES_def)
    have "running p s d0 d ?r0" using less.prems by (simp add: running_def)
    from send_more [OF this, of fresh ?chunk] ne obtain r1
      where r1: "upload_send ask fresh p s ?chunk False ?r0 = (Inr (), r1)" "running p s d0 (d @ ?chunk) r1"
        "ur_pending r1 = drop UPLOAD_CHUNK_BYTES ?pend" by auto
    have "length (ur_pending r1) < length ?pend" using False r1(3) by (simp add: UPLOAD_CHUNK_BYTES_def)
    from less.hyps [OF this r1(2)] obtain r2 e
      where r2: "upload_drain ask fresh p s r1 = (Inr (), r2)" "running p s d0 ((d @ ?chunk) @ e) r2"
        "ur_pending r1 = e @ ur_pending r2" by blast
    have "upload_drain ask fresh p s r = (Inr (), r2)"
      using False r1(1) r2(1) by (subst upload_drain.simps) simp
    moreover have "?pend = (?chunk @ e) @ ur_pending r2"
      using append_take_drop_id [of UPLOAD_CHUNK_BYTES ?pend] r1(3) r2(3) by simp
    ultimately show ?thesis using r2(2) by (intro exI [of _ r2] exI [of _ "?chunk @ e"]) simp
  qed
qed

lemma read_all:
  "running p s d0 d r \<Longrightarrow> \<exists>r' e. upload_read ask fresh p s None chunks r = (Inr (), r')
     \<and> running p s d0 (d @ e) r' \<and> ur_pending r @ concat chunks = e @ ur_pending r'"
proof (induction chunks arbitrary: d r)
  case Nil
  then show ?case by (intro exI [of _ r] exI [of _ "[]"]) simp
next
  case (Cons c cs)
  have "running p s d0 d (r\<lparr>ur_pending := ur_pending r @ c\<rparr>)" using Cons.prems by (simp add: running_def)
  from drain_all [OF this, of fresh] obtain r1 e where r1: "upload_drain ask fresh p s (r\<lparr>ur_pending := ur_pending r @ c\<rparr>) = (Inr (), r1)"
    "running p s d0 (d @ e) r1" "ur_pending r @ c = e @ ur_pending r1" by auto
  from Cons.IH [OF r1(2)] obtain r2 e2 where r2: "upload_read ask fresh p s None cs r1 = (Inr (), r2)"
    "running p s d0 ((d @ e) @ e2) r2" "ur_pending r1 @ concat cs = e2 @ ur_pending r2" by blast
  have "ur_pending r @ concat (c # cs) = (ur_pending r @ c) @ concat cs" by simp
  also have "\<dots> = e @ (ur_pending r1 @ concat cs)" unfolding r1(3) by simp
  also have "\<dots> = (e @ e2) @ ur_pending r2" unfolding r2(3) by simp
  finally show ?case using r1(1) r2(1,2) by (intro exI [of _ r2] exI [of _ "e @ e2"]) simp
qed

text \<open>One request of an upload, however its body is cut.\<close>

lemma request_delivered:
  assumes st: "stage (us_uploadId s) p d w" and "length d = us_offset s"
  shows "\<exists>r. upload_all ask fresh p s None chunks w = (Inr (), r)
    \<and> (if us_final s then placed (us_uploadId s) p (d @ concat chunks) (ur_world r) \<and> ur_bytesWritten r = length (d @ concat chunks)
       else stage (us_uploadId s) p (d @ concat chunks) (ur_world r)
         \<and> (concat chunks \<noteq> [] \<longrightarrow> ur_bytesWritten r = length (d @ concat chunks)))"
proof -
  let ?r0 = "\<lparr>ur_sentHere = 0, ur_bytesWritten = 0, ur_pending = [], ur_world = w\<rparr>"
  have "running p s d [] ?r0" using assms by (simp add: running_def)
  from read_all [OF this, of fresh chunks] obtain r e where r: "upload_read ask fresh p s None chunks ?r0 = (Inr (), r)"
    "running p s d e r" "concat chunks = e @ ur_pending r" by auto
  let ?r1 = "r\<lparr>ur_pending := []\<rparr>" and ?rest = "ur_pending r"
  have run1: "running p s d e ?r1" using r(2) by (simp add: running_def)
  show ?thesis
  proof (cases "us_final s")
    case True
    have "stage (us_uploadId s) p (d @ e) (ur_world ?r1)" "length (d @ e) = us_offset s + ur_sentHere ?r1"
      using run1 by (simp_all add: running_def)
    from accept_last [OF this(1), of "fresh (ur_sentHere ?r1)" ?rest, unfolded this(2)]
    show ?thesis using r True run1 by (auto simp: upload_all_def upload_send_def running_def)
  next
    case False
    show ?thesis
    proof (cases "?rest = []")
      case True
      then show ?thesis using r False by (auto simp: upload_all_def running_def)
    next
      case ne: False
      from send_more [OF run1, of fresh ?rest] ne obtain r2 where "upload_send ask fresh p s ?rest False ?r1 = (Inr (), r2)"
        "running p s d (e @ ?rest) r2" by blast
      then show ?thesis using r False ne by (auto simp: upload_all_def running_def)
    qed
  qed
qed

end

subsection \<open>The agent keeps the interface\<close>

text \<open>
  A healthy way to a host: messages arrive, nothing fails for reasons outside, and \<open>salt\<close> is the
  random suffix. An upload from an older control plane is written in place.
\<close>

definition deliver :: "host_env \<Rightarrow> string \<Rightarrow> agent_host ask" where
  "deliver env salt m h =
     (case m of
        UploadChunkRequest _ i p off data final \<Rightarrow>
          (case on_upload_chunk env \<lparr>ci_salt = salt, ci_write = Some (length data), ci_close = True\<rparr> i p off data final h of
             (Inl e, h1) \<Rightarrow> (Inl (RequestError (upload_error_text e)), h1)
           | (Inr n, h1) \<Rightarrow> (Inr n, h1))
      | UploadFileRequest _ p data \<Rightarrow>
          (case runWriteFile env p data (ag_files h) of
             (Inl _, fs) \<Rightarrow> (Inl (RequestError ''Error: file system''), h\<lparr>ag_files := fs\<rparr>)
           | (Inr _, fs) \<Rightarrow> (Inr 0, h\<lparr>ag_files := fs\<rparr>))
      | _ \<Rightarrow> (Inl (RequestError ''Error''), h))"

definition send_abort :: "ControlMessage \<Rightarrow> agent_host \<Rightarrow> agent_host" where
  "send_abort m h = (case m of UploadAbort i \<Rightarrow> discardUpload i h | _ \<Rightarrow> h)"

text \<open>A place a file can be put: not a directory, in a directory, no name of the temporary scheme.\<close>

definition can_place :: "agent_host \<Rightarrow> string \<Rightarrow> bool" where
  "can_place h p \<longleftrightarrow> p \<noteq> ''/'' \<and> \<not> is_temp p \<and> visible h p \<noteq> Some Dir
     \<and> (dirname p = ''/'' \<or> visible h (dirname p) = Some Dir)"

definition healthy :: "host_env \<Rightarrow> string \<Rightarrow> bool" where
  "healthy env salt \<longleftrightarrow> CHR ''/'' \<notin> set salt \<and> (\<forall>q. \<not> he_io env q)"

definition staged :: "host_env \<Rightarrow> string \<Rightarrow> agent_host \<Rightarrow> string \<Rightarrow> string \<Rightarrow> char list \<Rightarrow> agent_host \<Rightarrow> bool" where
  "staged env salt h0 i p d h \<longleftrightarrow>
     healthy env salt \<and> host_ok h \<and> can_place h0 (normalizePath p) \<and> visible h = visible h0
     \<and> (if look (ag_uploads h) i = None
        then d = [] \<and> received h = (received h0)(i := None) \<and> new_temp h (tempSibling (normalizePath p) salt)
        else map_option au_tempPath (look (ag_uploads h) i) = Some (tempSibling (normalizePath p) salt)
          \<and> received h = (received h0)(i \<mapsto> (normalizePath p, d)))"

definition file_placed :: "agent_host \<Rightarrow> string \<Rightarrow> string \<Rightarrow> char list \<Rightarrow> agent_host \<Rightarrow> bool" where
  "file_placed h0 i p d h \<longleftrightarrow> host_ok h \<and> received h = (received h0)(i := None)
     \<and> visible h = (visible h0)(normalizePath p \<mapsto> File d)"

lemma break_last_Some: "break_last c s = Some (a, b) \<longleftrightarrow> s = a @ c # b \<and> c \<notin> set b"
proof -
  have "break_last c s = Some (a, b) \<longleftrightarrow> break_first c (rev s) = Some (rev b, rev a)"
    by (auto simp: break_last_def)
  also have "\<dots> \<longleftrightarrow> rev s = rev b @ c # rev a \<and> c \<notin> set b" by (simp add: break_first_Some)
  also have "rev s = rev b @ c # rev a \<longleftrightarrow> s = a @ c # b"
    by (metis append.assoc append_Cons append_Nil rev_append rev_rev_ident rev_singleton_conv rev.simps(2))
  finally show ?thesis .
qed

lemma dirname_sibling: "CHR ''/'' \<in> set p \<Longrightarrow> CHR ''/'' \<notin> set salt \<Longrightarrow> dirname (tempSibling p salt) = dirname p"
proof -
  assume p: "CHR ''/'' \<in> set p" and s: "CHR ''/'' \<notin> set salt"
  obtain a b where ab: "p = a @ CHR ''/'' # b" "CHR ''/'' \<notin> set b"
    using p split_list_last by metis
  then have "break_last (CHR ''/'') p = Some (a, b)" by (simp add: break_last_Some)
  moreover have "break_last (CHR ''/'') (tempSibling p salt) = Some (a, b @ ''.sc-tmp-'' @ salt)"
    using ab s by (simp add: break_last_Some tempSibling_def)
  ultimately show ?thesis by (simp add: dirname_def)
qed

lemma can_place_dir:
  assumes c: "can_place h0 p" and v: "visible h = visible h0" and "CHR ''/'' \<in> set p"
  shows "is_dir (ag_files h) (dirname p)"
proof -
  have p: "\<not> is_temp p" using c by (simp add: can_place_def)
  have "\<not> is_temp (dirname p)" if "dirname p \<noteq> ''/''"
  proof
    assume t: "is_temp (dirname p)"
    obtain a b where ab: "break_last (CHR ''/'') p = Some (a, b)"
      using assms(3) by (metis break_last_Some split_list_last)
    have "dirname p = a" using ab that by (simp add: dirname_def split: if_splits)
    moreover have "p = a @ CHR ''/'' # b" using ab by (simp add: break_last_Some)
    ultimately show False using t p is_temp_append [of a "CHR ''/'' # b"] by simp
  qed
  then show ?thesis
    using c fun_cong [OF v, of "dirname p"] by (auto simp: can_place_def is_dir_def visible_def split: if_splits)
qed

lemma can_place_rename:
  assumes c: "can_place h0 p" and v: "visible h = visible h0" and "CHR ''/'' \<in> set p" "CHR ''/'' \<notin> set salt"
    and f: "look (ag_files h) (tempSibling p salt) = Some (File d)" and io: "\<And>q. \<not> he_io env q"
  shows "rename_error env (tempSibling p salt) p (ag_files h) = None"
proof -
  let ?t = "tempSibling p salt"
  have p: "\<not> is_temp p" using c by (simp add: can_place_def)
  have "is_dir (ag_files h) (dirname p)" by (rule can_place_dir [OF c v assms(3)])
  moreover have "look (ag_files h) p \<noteq> Some Dir" using c fun_cong [OF v, of p] p by (simp add: can_place_def visible_def)
  moreover have "\<not> below ?t p" using is_temp_below [OF is_temp_sibling] p by blast
  ultimately show ?thesis
    using c f io dirname_sibling [OF assms(3,4)] by (simp add: rename_error_def can_place_def)
qed

lemma slash_in_normal: "CHR ''/'' \<in> set (normalizePath p)"
  by (simp add: normalizePath_def abs_path_def)

text \<open>On a healthy way every chunk in its place is accepted.\<close>

lemma healthy_find:
  assumes s: "staged env salt h0 i p d h"
  shows "\<exists>u h1. find_upload env salt i p (length d) h = (Inr u, h1) \<and> au_path u = normalizePath p
    \<and> au_tempPath u = tempSibling (normalizePath p) salt \<and> au_bytesWritten u = length d"
proof (cases "look (ag_uploads h) i")
  case (Some u)
  have ok: "host_ok h" using s by (simp add: staged_def)
  have t: "au_tempPath u = tempSibling (normalizePath p) salt" and r: "received h i = Some (normalizePath p, d)"
    using s Some by (simp_all add: staged_def del: map_of_eq_Some_iff)
  obtain d' where "length d' = au_bytesWritten u" "received h i = Some (au_path u, d')"
    using received_Some [OF ok Some] by metis
  then have "au_path u = normalizePath p" "au_bytesWritten u = length d" using r by simp_all
  then show ?thesis using Some t by (simp add: find_upload_def del: map_of_eq_Some_iff)
next
  case None
  let ?t = "tempSibling (normalizePath p) salt"
  have n: "new_temp h ?t" "d = []" "can_place h0 (normalizePath p)" "visible h = visible h0"
    using s None by (simp_all add: staged_def)
  have "look (ag_files h) ?t = None" using n(1) unfolding new_temp_def in_tree_def by (metis not_Some_eq)
  moreover have "is_dir (ag_files h) (dirname ?t)"
    using can_place_dir [OF n(3,4) slash_in_normal] dirname_sibling [OF slash_in_normal, of salt] s
    by (simp add: staged_def healthy_def)
  ultimately have "fs_open_wx env ?t (ag_files h) = (Inr (), put ?t (File []) (ag_files h))"
    using s by (simp add: fs_open_wx_def staged_def healthy_def)
  then show ?thesis using None n(2) by (simp add: find_upload_def open_upload_def Let_def)
qed

lemma staged_step:
  assumes s: "staged env salt h0 i p d h"
  shows "\<exists>h'. deliver env salt (UploadChunkRequest rid i p (length d) data final) h = (Inr (length (d @ data)), h')
    \<and> (if final then file_placed h0 i p (d @ data) h' else staged env salt h0 i p (d @ data) h')"
proof -
  let ?p = "normalizePath p" and ?t = "tempSibling (normalizePath p) salt"
  let ?io = "\<lparr>ci_salt = salt, ci_write = Some (length data), ci_close = True\<rparr>"
  have salt: "CHR ''/'' \<notin> set salt" and io: "\<And>q. \<not> he_io env q" using s by (simp_all add: staged_def healthy_def)
  have h: "host_ok h" "can_place h0 ?p" "visible h = visible h0" "\<not> is_temp ?p"
    using s by (simp_all add: staged_def can_place_def)
  have new: "new_temp h ?t" if "look (ag_uploads h) i = None" using s that by (simp add: staged_def)
  obtain u h1 where f: "find_upload env salt i p (length d) h = (Inr u, h1)" and u: "au_path u = ?p" "au_tempPath u = ?t"
    "au_bytesWritten u = length d" using healthy_find [OF s] by blast
  note fr = find_refines [OF h(1) f new h(4)]
  have u1: "look (ag_uploads h1) i = Some u" "host_ok h1" "visible h1 = visible h0" using fr h(3) by simp_all
  obtain d1 where d1: "look (ag_files h1) ?t = Some (File d1)" "received h1 i = Some (?p, d1)"
    using received_Some [OF u1(2,1)] u by metis
  let ?u = "u\<lparr>au_bytesWritten := au_bytesWritten u + length data\<rparr>"
  define h2 where "h2 = h1\<lparr>ag_files := fs_append ?t data (ag_files h1), ag_uploads := put i ?u (ag_uploads h1)\<rparr>"
  have h2: "visible h2 = visible h0"
    using append_refines [OF u1(2,1), of h2 data d1] u d1(2) u1(3) by (simp add: h2_def)
  have step: "runUploadChunk env ?io i p (length d) data final h =
      (if \<not> final then (Inr (length (d @ data)), h2) else publish env ?io i ?u h2)"
    using f u by (simp add: runUploadChunk_def Let_def h2_def)
  have pub: "\<exists>h3. publish env ?io i ?u h2 = (Inr (length (d @ data)), h3)"
  proof -
    have "rename_error env ?t ?p (ag_files h2) = None"
      by (rule can_place_rename [OF h(2) h2 slash_in_normal salt _ io]) (simp add: h2_def fs_append_look [OF d1(1)])
    then have "\<exists>fs. fs_rename env ?t ?p (ag_files h2) = (Inr (), fs)" by (simp add: fs_rename_def)
    then obtain fs where "fs_rename env ?t ?p (ag_files h2) = (Inr (), fs)" ..
    then show ?thesis using u by (simp add: publish_def Let_def)
  qed
  then obtain h' where run: "runUploadChunk env ?io i p (length d) data final h = (Inr (length (d @ data)), h')"
    using step by (cases final) auto
  then have out: "on_upload_chunk env ?io i p (length d) data final h = (Inr (length (d @ data)), h')"
    by (simp add: on_upload_chunk_def)
  have "\<exists>d'. (received h i = None \<and> d' = [] \<or> received h i = Some (?p, d')) \<and> length d = length d'
      \<and> (if final then received h' = (received h)(i := None) \<and> visible h' = (visible h)(?p \<mapsto> File (d' @ data))
         else received h' = (received h)(i \<mapsto> (?p, d' @ data)) \<and> visible h' = visible h)" and ok': "host_ok h'"
    using chunk_refines [OF h(1,4) _ _ out] new by auto
  moreover have "d' = d" if "received h i = None \<and> d' = [] \<or> received h i = Some (?p, d')" "length d = length d'" for d'
    using that s by (cases "look (ag_uploads h) i") (auto simp: staged_def simp del: map_of_eq_Some_iff)
  ultimately have res: "if final then received h' = (received h)(i := None) \<and> visible h' = (visible h)(?p \<mapsto> File (d @ data))
         else received h' = (received h)(i \<mapsto> (?p, d @ data)) \<and> visible h' = visible h" by blast
  have base: "(received h)(i := x) = (received h0)(i := x)" for x
    using s by (cases "look (ag_uploads h) i") (auto simp: staged_def simp del: map_of_eq_Some_iff)
  have "if final then file_placed h0 i p (d @ data) h' else staged env salt h0 i p (d @ data) h'"
  proof (cases final)
    case True
    then show ?thesis using res ok' h(3) base [of None] by (simp add: file_placed_def)
  next
    case False
    then have "h' = h2" using run step by simp
    then have "look (ag_uploads h') i = Some ?u" by (simp add: h2_def)
    then show ?thesis using False res ok' h(2,3) u base [of "Some (?p, d @ data)"]
      by (simp add: staged_def salt io healthy_def del: map_of_eq_Some_iff)
  qed
  then show ?thesis using out by (auto simp: deliver_def)
qed

interpretation agent: chunk_sink "deliver env salt" "staged env salt h0" "file_placed h0" for env salt h0
proof
  fix i p d w rid data assume s: "staged env salt h0 i p d w"
  show "\<exists>w'. deliver env salt (UploadChunkRequest rid i p (length d) data False) w = (Inr (length (d @ data)), w')
      \<and> staged env salt h0 i p (d @ data) w'"
    using staged_step [OF s, of rid data False] by simp
  show "\<exists>w'. deliver env salt (UploadChunkRequest rid i p (length d) data True) w = (Inr (length (d @ data)), w')
      \<and> file_placed h0 i p (d @ data) w'"
    using staged_step [OF s, of rid data True] by simp
qed

subsection \<open>From the browser to the disk\<close>

text \<open>
  The upload loop of the files page (\<open>apps/web/src/components/FilesView.tsx\<close>): one request per
  slice, each saying where it belongs. \<open>chop\<close> is how the network cuts the body of a request.
\<close>

function upload_slices :: "'w ask \<Rightarrow> (ControlMessage \<Rightarrow> 'w \<Rightarrow> 'w) \<Rightarrow> (nat \<Rightarrow> nat \<Rightarrow> string) \<Rightarrow> (nat \<Rightarrow> char list \<Rightarrow> char list list) \<Rightarrow>
    'p host_agent \<Rightarrow> string \<Rightarrow> string \<Rightarrow> char list \<Rightarrow> nat \<Rightarrow> 'w \<Rightarrow> (exec_error + nat) \<times> 'w" where
  "upload_slices ask tell fresh chop a filePath i content offset w =
     (let stop = min (offset + UPLOAD_REQUEST_BYTES) (length content);
          final = (stop \<ge> length content);
          slice = take (stop - offset) (drop offset content)
      in case uploadFile ask tell (fresh offset) a filePath
                \<lparr>us_uploadId = i, us_offset = offset, us_final = final\<rparr> None (chop offset slice) w of
           (Inl e, w1) \<Rightarrow> (Inl e, w1)
         | (Inr n, w1) \<Rightarrow>
             if final then (Inr n, w1)
             else upload_slices ask tell fresh chop a filePath i content (offset + UPLOAD_REQUEST_BYTES) w1)"
  by pat_completeness auto
termination
  by (relation "measure (\<lambda>(ask, tell, fresh, chop, a, filePath, i, content, offset, w). length content - offset)")
     (auto simp: UPLOAD_REQUEST_BYTES_def)

declare upload_slices.simps [simp del]

lemma slices_delivered:
  assumes cap: "has_cap ''uploadChunk'' a"
    and chop: "\<And>k b. concat (chop k b) = b"
  shows "staged env salt h0 i p (take offset content) h \<Longrightarrow> offset = 0 \<or> offset < length content \<Longrightarrow>
    \<exists>h'. upload_slices (deliver env salt) send_abort fresh chop a p i content offset h = (Inr (length content), h')
      \<and> file_placed h0 i p content h'"
proof (induction "length content - offset" arbitrary: offset h rule: less_induct)
  case less
  let ?stop = "min (offset + UPLOAD_REQUEST_BYTES) (length content)"
  define slice where "slice = take (?stop - offset) (drop offset content)"
  let ?final = "?stop \<ge> length content"
  let ?s = "\<lparr>us_uploadId = i, us_offset = offset, us_final = ?final\<rparr>"
  have off: "offset \<le> length content" using less.prems(2) by auto
  have len: "length (take offset content) = us_offset ?s" using off by simp
  have st: "staged env salt h0 (us_uploadId ?s) p (take offset content) h" using less.prems(1) by simp
  have whole: "take offset content @ slice = take ?stop content"
    using off by (simp add: slice_def) (metis add_diff_inverse_nat min.bounded_iff le_add1 not_less take_add)
  obtain r where r: "upload_all (deliver env salt) (fresh offset) p ?s None (chop offset slice) h = (Inr (), r)"
    and res: "if us_final ?s then file_placed h0 (us_uploadId ?s) p (take ?stop content) (ur_world r)
         \<and> ur_bytesWritten r = length (take ?stop content)
       else staged env salt h0 (us_uploadId ?s) p (take ?stop content) (ur_world r)
         \<and> (slice \<noteq> [] \<longrightarrow> ur_bytesWritten r = length (take ?stop content))"
    using agent.request_delivered [OF st len, of "fresh offset" "chop offset slice"]
    unfolding chop whole by blast
  have up: "uploadFile (deliver env salt) send_abort (fresh offset) a p ?s None (chop offset slice) h = (Inr (ur_bytesWritten r), ur_world r)"
    using cap r by (simp add: uploadFile_def)
  show ?case
  proof (cases ?final)
    case True
    then show ?thesis using up res by (subst upload_slices.simps) (simp add: Let_def slice_def)
  next
    case False
    then have next_off: "offset + UPLOAD_REQUEST_BYTES < length content" "?stop = offset + UPLOAD_REQUEST_BYTES" by auto
    have "length content - (offset + UPLOAD_REQUEST_BYTES) < length content - offset"
      using next_off by (simp add: UPLOAD_REQUEST_BYTES_def)
    moreover have "staged env salt h0 i p (take (offset + UPLOAD_REQUEST_BYTES) content) (ur_world r)"
      using res False next_off(2) by simp
    ultimately show ?thesis
      using less.hyps [of "offset + UPLOAD_REQUEST_BYTES" "ur_world r"] next_off up False
      by (subst upload_slices.simps) (simp add: Let_def slice_def)
  qed
qed

text \<open>
  C40. An upload arrives. A file of any size, sliced by the browser, its requests cut into chunks
  by the network in any way and cut again for the agent, ends on a healthy host as that file under
  its target: the count reported is its length, the target holds exactly its bytes, no other file
  has changed, no upload is left open and those of others are as they were. The empty file
  included.
\<close>

theorem upload_arrives:
  assumes "host_ok h" "can_place h (normalizePath p)" "look (ag_uploads h) i = None"
    and "new_temp h (tempSibling (normalizePath p) salt)" "CHR ''/'' \<notin> set salt" "\<And>q. \<not> he_io env q"
    and "has_cap ''uploadChunk'' a" "\<And>k b. concat (chop k b) = b"
  shows "\<exists>h'. upload_slices (deliver env salt) send_abort fresh chop a p i content 0 h = (Inr (length content), h')
    \<and> host_ok h' \<and> received h' = received h \<and> visible h' = (visible h)(normalizePath p \<mapsto> File content)"
proof -
  have "received h i = None" using assms(3) by (simp add: received_def)
  then have same: "(received h)(i := None) = received h" by auto
  then have "staged env salt h i p (take 0 content) h" using assms by (simp add: staged_def healthy_def)
  from slices_delivered [OF assms(7,8) this] same show ?thesis by (auto simp: file_placed_def)
qed

lemma new_tempI:
  "list_all (\<lambda>q. \<not> in_tree t q) (keys (ag_files h)) \<Longrightarrow> list_all (\<lambda>u. \<not> in_tree (au_tempPath u) t) (vals (ag_uploads h)) \<Longrightarrow>
   new_temp h t"
  unfolding new_temp_def list_all_iff by (force dest: map_of_SomeD)

definition demo_host :: agent_host where
  "demo_host = \<lparr>ag_files = [(''/m'', Dir), (''/m/f'', File ''old'')], ag_uploads = []\<rparr>"

lemma demo_host_ok: "host_ok demo_host"
  by (simp add: host_ok_def uploads_ok_def demo_host_def)

lemma demo_new_temp: "new_temp demo_host (tempSibling (normalizePath ''/m/f'') ''7-ab'')"
  by (rule new_tempI) code_simp+

lemma demo_not_temp: "\<not> is_temp ''/m/f''"
proof
  assume "is_temp ''/m/f''"
  then have "length ''.sc-tmp-'' \<le> length ''/m/f''" unfolding is_temp_def by (rule sublist_length_le)
  then show False by simp
qed


theorem upload_arrives_witness:
  "\<exists>h'. upload_slices (deliver demo_host_env ''7-ab'') send_abort (\<lambda>_ _. ''r'') (\<lambda>_ b. map (\<lambda>c. [c]) b)
      (demo_agent\<lparr>ha_capabilities := [''uploadChunk'']\<rparr>) ''/m/f'' ''u1'' ''new'' 0 demo_host = (Inr 3, h')
    \<and> visible h' ''/m/f'' = Some (File ''new'')"
proof -
  have n: "normalizePath ''/m/f'' = ''/m/f''" by code_simp
  have v: "visible demo_host ''/m/f'' = Some (File ''old'')" "dirname ''/m/f'' = ''/m''"
    using demo_not_temp by (simp add: visible_def demo_host_def) code_simp
  have "\<not> is_temp ''/m''" using is_temp_append [of "''/m''" "''/f''"] demo_not_temp by auto
  then have p: "can_place demo_host (normalizePath ''/m/f'')"
    using v n demo_not_temp by (simp add: can_place_def visible_def demo_host_def)
  have u: "look (ag_uploads demo_host) ''u1'' = None" "CHR ''/'' \<notin> set ''7-ab''"
    "has_cap ''uploadChunk'' (demo_agent\<lparr>ha_capabilities := [''uploadChunk'']\<rparr>)" by code_simp+
  have io: "\<not> he_io demo_host_env q" for q by (simp add: demo_host_env_def)
  have chop: "concat (map (\<lambda>c. [c]) b) = b" for b :: "char list" by (induction b) auto
  from upload_arrives [OF demo_host_ok p u(1) demo_new_temp u(2) io u(3), of "\<lambda>_ b. map (\<lambda>c. [c]) b" "\<lambda>_ _. ''r''" "''new''"] chop
  obtain h' where "upload_slices (deliver demo_host_env ''7-ab'') send_abort (\<lambda>_ _. ''r'') (\<lambda>_ b. map (\<lambda>c. [c]) b)
      (demo_agent\<lparr>ha_capabilities := [''uploadChunk'']\<rparr>) ''/m/f'' ''u1'' ''new'' 0 demo_host = (Inr (length ''new''), h')"
    "visible h' = (visible demo_host)(normalizePath ''/m/f'' \<mapsto> File ''new'')" by blast
  then show ?thesis using n by (intro exI [of _ h']) simp
qed

end
