(* ===== verification/Spec2Isabelle.thy ===== *)
theory Spec2Isabelle
  imports Agent_Files Apps Auth Auth_Api Client_Ip Cors Device Fleet Host_Agent Js_Text Multipart Node_Protocol Node_Server Oidc Oidc_Store Oidc_Tokens Permissions
    Protocol Refresh Registry Roles Rpc Shell_Quote System_Users Tasks Upload
begin

text \<open>
  Server Central is one control plane for many hosts: a TypeScript server with its web app, and
  an agent on every managed host that connects back to it. This library models the server's own
  logic, file by file, as executable definitions, and proves what each part promises. Everything
  below names files under \<open>apps/server/src\<close> unless it starts with \<open>shared/\<close>.

  \<^bold>\<open>How the parts meet.\<close> A browser or a relying party sends HTTP. The address it is attributed to
  comes from \<open>client-ip.ts\<close>, the origin rule from \<open>cors.ts\<close>, and \<open>http/rpc.ts\<close> looks the command
  up in the table the features were composed into (\<open>feature.ts\<close>), authenticates the token against
  \<open>auth.ts\<close>, checks the node the registry of \<open>shared/permissions.ts\<close> asks for, reads the body
  (\<open>http/multipart.ts\<close> for streamed files) and runs the handler. Accounts hold roles
  (\<open>roles.ts\<close>) and extra grants; both may name nodes that an App (\<open>features/apps/store.ts\<close>)
  declares. The OpenID Connect provider (\<open>features/oidc\<close>) lets a relying party sign users in and
  tells it which of its App's nodes they hold. Long work runs as a task (\<open>tasks\<close>). Work on a host
  goes through its handle (\<open>host-agent.ts\<close>), which the fleet (\<open>fleet.ts\<close>) picks among the
  connections of that machine.

  \<^bold>\<open>Modelling conventions\<close> (theories \<open>Prelude\<close>, \<open>Js_Text\<close>). A \<open>Map\<close> or \<open>Record\<close> is an association
  list in insertion order with unique keys (\<open>jsmap\<close>, operations \<open>look\<close>, \<open>put\<close>, \<open>del\<close>); an object is a
  record; a string is a list of characters; a byte string of a body is a list of octets and a
  base64 payload is the bytes it stands for. An operation that may throw returns \<open>Inl error\<close>; a
  store is a record passed through, with the file it writes as one more field, so a write that the
  code awaits or fires off is visible in the state. Time is an argument in milliseconds. Random
  draws, hashes, signatures, the URL and JSON parsers and the collation of names are arguments or
  parameters, and what the code relies on them for is a named hypothesis. Objects that are shared
  and mutated (the handles of \<open>fleet.ts\<close>) live in a heap. A handler that awaits is cut at the await
  where another handler running in between can change the outcome (\<open>auth.ts\<close>, task runs).

  \<^bold>\<open>Access.\<close>
  \<^item> \<open>Permissions\<close>, \<open>Protocol\<close> (\<open>shared/permissions.ts\<close>, \<open>shared/index.ts\<close>): the declared nodes,
    patterns and their matching, the operation registry built from the protocol. Lemmas: each
    operation, task and event kind has one classification; sensitive nodes are reached only by
    name; overlap of patterns is having a common instance; the shipped roles form a chain.
  \<^item> \<open>Roles\<close>, \<open>Apps\<close>, \<open>System_Users\<close>: the role store with its validation, the App registry, the
    shell identity rule of terminal sessions. Lemmas: reachable stores are well formed.
  \<^item> \<open>Auth\<close>, \<open>Auth_Api\<close> (\<open>auth.ts\<close>, \<open>features/auth/feature.ts\<close>): accounts, sessions, the login
    throttle, and every operation of the feature over both stores. Lemmas: when a token
    authenticates, what a password change revokes, that the throttle bounds guesses, that accounts
    hold only existing roles, and the race of two set-up requests.
  \<^item> \<open>Client_Ip\<close>, \<open>Cors\<close>, \<open>Rpc\<close>, \<open>Registry\<close>, \<open>Multipart\<close>: attribution, origins, the dispatcher,
    the composition of features and the streaming parser. Lemmas: a client cannot spoof its
    address past a trusted hop, only listed origins act, nothing runs without the node it needs,
    and every way of cutting a body into chunks parses to the same fields and parts.

  \<^bold>\<open>Single sign-on\<close> (\<open>features/oidc\<close>): \<open>Oidc_Tokens\<close> (\<open>tokens.ts\<close>), \<open>Oidc_Store\<close> (\<open>store.ts\<close>),
  \<open>Refresh\<close> (\<open>refresh.ts\<close>), \<open>Device\<close> (\<open>device.ts\<close>) and \<open>Oidc\<close> (\<open>feature.ts\<close>). Lemmas: each grant is
  gated, bound to its client and spent once; a replayed refresh token ends its chain; a mistyped
  pairing code finds nobody else's request; claims hold exactly the App's own nodes.

  \<^bold>\<open>Tasks\<close> (\<open>tasks/store.ts\<close>, \<open>tasks/runner.ts\<close>, \<open>tasks/types.ts\<close>): the run table, its file and
  pruning, the life of a run and what a restart does to runs left open. Lemmas: history and file
  agree, every run ends, updates arrive in order.

  \<^bold>\<open>Hosts.\<close>
  \<^item> \<open>Shell_Quote\<close> (\<open>shell-quote.ts\<close>, \<open>exec-lines.ts\<close>, \<open>log-query.ts\<close>): rendering an argv for a
    shell, splitting streamed output into lines, log options. The shell is written down as a small
    reader of the POSIX quoting rules; rendering followed by reading gives back the argv.
  \<^item> \<open>Node_Protocol\<close> (\<open>shared/node-protocol.ts\<close>, \<open>shared/domain/servers.ts\<close>): the messages. Payloads
    the server only forwards are a type parameter.
  \<^item> \<open>Host_Agent\<close> (\<open>host-agent.ts\<close>): the handle of one connection. Lemmas: every request is settled
    exactly once whatever order replies, clocks and the disconnect come in.
  \<^item> \<open>Fleet\<close> (\<open>fleet.ts\<close>): the connections of each machine over the heap of handles. Lemmas: one
    acting connection per machine, the newest of those of highest rank.
  \<^item> \<open>Node_Server\<close> (\<open>node-server.ts\<close>): enrolment tokens, install commands and the life of an agent's
    socket. Lemmas: the acting connection of a machine is a socket that is open and identified.
  \<^item> \<open>Agent_Files\<close> (\<open>agent/agent.ts\<close>): what the agent does to the files of its host, over a tree of
    paths; what differs between hosts (mounts, links, I/O errors) is a record of functions. Lemmas:
    paths resolve to a normal form, and every operation touches only what it names.
  \<^item> \<open>Upload\<close> (\<open>host-agent.ts\<close>, \<open>agent/agent.ts\<close>, \<open>apps/web/src/components/FilesView.tsx\<close>): a file
    from the browser's slices to the rename on the host. Lemmas: the agent refines a table of
    received prefixes, the loops end and the file that arrives is the file that was sent.

  \<^bold>\<open>Interfaces\<close> are locales: \<open>invariant_store\<close> (\<open>Prelude\<close>) states that every step of a component
  keeps an invariant and gives the invariant of reachable states; it is interpreted on each store.

  \<^bold>\<open>Bounds and fuel.\<close> Loops over data are structural. Loops over a stream carry the remaining
  chunks as their measure, the upload loops the bytes not yet sent. Numeric limits (login attempts, pending device requests, body sizes,
  history lengths) are the constants of the code.

  \<^bold>\<open>Not modelled.\<close> The web app; the agent's processes and sockets; parsers of docker, zfs,
  systemd and network tool output; TLS, STUN, static files and the installer: I/O around other
  programs. Planned next: events and terminals, settings, and the stores of compose, proxy and dashboards.
\<close>

end
